(* ===== verification/Prelude.thy ===== *)
theory Prelude
  imports Main "HOL-Library.Word"
begin

text \<open>
  Shared vocabulary of the development: the machine integer types of the target
  (x86-64 Linux, where \<open>std::size_t\<close> and \<open>std::uint64_t\<close> are both 64 bits wide), the
  theorem collections the component theories add to, and the generic facts about words,
  masks and lists that more than one component needs.
\<close>

unbundle bit_operations_syntax

section \<open>Machine integers\<close>

type_synonym u8 = "8 word"
type_synonym u16 = "16 word"
type_synonym u32 = "32 word"
type_synonym u64 = "64 word"
type_synonym size_t = "64 word"

named_theorems word_nat \<open>facts that move unsigned words to natural numbers\<close>

lemma unat_lt64 [simp]: "unat (w :: u64) < 18446744073709551616"
  using unsigned_less [of w] by simp

lemma unat_lt_2p64: "unat (w :: u64) < 2 ^ 64"
  by simp

lemma unat_of_nat64 [word_nat]: "n < 2 ^ 64 \<Longrightarrow> unat (of_nat n :: u64) = n"
  by (simp add: unat_of_nat take_bit_nat_eq_self)

lemma unat_of_nat_le64: "n \<le> unat (w :: u64) \<Longrightarrow> unat (of_nat n :: u64) = n"
  by (rule unat_of_nat64) (rule le_less_trans, assumption, simp)

lemma unat_add_no_wrap [word_nat]:
  "unat (a :: u64) + unat b < 2 ^ 64 \<Longrightarrow> unat (a + b) = unat a + unat b"
  by (simp add: unat_word_ariths)

lemma unat_sub_le [word_nat]: "b \<le> a \<Longrightarrow> unat (a - b) = unat a - unat (b :: u64)"
  by (simp add: unat_sub word_le_nat_alt)

lemma u64_le_unat [word_nat]: "(a :: u64) \<le> b \<longleftrightarrow> unat a \<le> unat b"
  by (simp add: word_le_nat_alt)

lemma u64_less_unat [word_nat]: "(a :: u64) < b \<longleftrightarrow> unat a < unat b"
  by (simp add: word_less_nat_alt)

lemma unat_min64: "unat (if a < b then a else (b :: u64)) = min (unat a) (unat b)"
  by (simp add: word_less_nat_alt min_def)

text \<open>The modular distance of two stream positions, measured from a common base.\<close>

lemma distance_of_nat:
  assumes "c \<le> p"
  shows "(b + of_nat p) - (b + of_nat c) = (of_nat (p - c) :: u64)"
  using assms by (simp add: of_nat_diff)

section \<open>Powers of two and index masks\<close>

lemma nat_and_pred_power2:
  "0 < n \<Longrightarrow> n AND (n - 1) = 0 \<Longrightarrow> \<exists>k. n = (2 :: nat) ^ k"
proof (induction n rule: less_induct)
  case (less n)
  show ?case
  proof (cases "even n")
    case True
    then obtain m where m: "n = 2 * m" by blast
    with less.prems have pos: "0 < m" by simp
    have pred: "n - 1 = 2 * (m - 1) + 1" using m pos by simp
    have "n AND (n - 1) = 2 * (m AND (m - 1))"
      unfolding pred by (simp add: m and_nat_rec [of "2 * m"])
    with less.prems have "m AND (m - 1) = 0" by simp
    with less.IH [of m] m pos obtain k where "m = 2 ^ k" by auto
    with m have "n = 2 ^ Suc k" by simp
    then show ?thesis by blast
  next
    case False
    then obtain m where m: "n = 2 * m + 1" using oddE by blast
    have "n AND (n - 1) = 2 * (m AND m)"
      by (simp add: m and_nat_rec [of "Suc (2 * m)"])
    with less.prems have "m = 0" by simp
    with m have "n = 2 ^ 0" by simp
    then show ?thesis by blast
  qed
qed

lemma word_and_pred_power2:
  assumes "(w :: u64) \<noteq> 0" "w AND (w - 1) = 0"
  shows "\<exists>k < 64. unat w = 2 ^ k"
proof -
  have pos: "0 < unat w" using assms(1) by (simp add: unat_gt_0)
  have "unat (w - 1) = unat w - 1" using assms(1) by (simp add: unat_minus_one)
  then have "unat w AND (unat w - 1) = unat (w AND (w - 1))"
    by (simp add: unsigned_and_eq)
  with assms(2) have "unat w AND (unat w - 1) = 0" by simp
  with pos obtain k where k: "unat w = 2 ^ k" using nat_and_pred_power2 by blast
  have "(2 :: nat) ^ k < 2 ^ 64" using unat_lt64 [of w] k by simp
  then have "k < 64" using power_less_imp_less_exp [of 2 k 64] by simp
  with k show ?thesis by blast
qed

lemma unat_mask_power2:
  assumes "unat (c :: u64) = 2 ^ k"
  shows "unat (w AND (c - 1)) = unat w mod unat c"
proof -
  have "c \<noteq> 0" using assms by auto
  then have "unat (c - 1) = 2 ^ k - 1" using assms by (simp add: unat_minus_one)
  then have "unat (w AND (c - 1)) = unat w AND mask k"
    by (simp add: unsigned_and_eq mask_eq_exp_minus_1)
  also have "\<dots> = unat w mod 2 ^ k" by (simp add: take_bit_eq_mod flip: take_bit_eq_mask)
  finally show ?thesis using assms by simp
qed

lemma unat_add_mod_power2:
  assumes "unat (c :: u64) = 2 ^ k" "k < 64"
  shows "unat (a + b :: u64) mod unat c = (unat a + unat b) mod unat c"
proof -
  have "(2 :: nat) ^ k dvd 2 ^ 64" using assms(2) le_imp_power_dvd [of k 64 "2 :: nat"] by linarith
  then show ?thesis using assms(1) by (simp add: unat_word_ariths mod_mod_cancel)
qed

lemma unat_of_nat_mod_power2:
  assumes "unat (c :: u64) = 2 ^ k" "k < 64"
  shows "unat (of_nat n :: u64) mod unat c = n mod unat c"
proof -
  have "(2 :: nat) ^ k dvd 2 ^ 64" using le_imp_power_dvd [of k 64 "2 :: nat"] assms(2) by linarith
  then show ?thesis using assms(1) by (simp add: unat_of_nat take_bit_eq_mod mod_mod_cancel)
qed

text \<open>Distinct positions less than one ring length apart use distinct slots.\<close>

lemma mod_add_inj:
  assumes "(x + i) mod n = (x + j) mod (n :: nat)" "i < j + n" "j < i + n"
  shows "i = j"
proof -
  have *: "i = j" if eq: "(x + i) mod n = (x + j) mod n" and "i \<le> j" "j < i + n"
    for i j
  proof -
    have "n dvd (x + j) - (x + i)"
      using eq \<open>i \<le> j\<close> by (metis add_le_cancel_left mod_eq_dvd_iff_nat)
    then have "n dvd j - i" by simp
    moreover have "j - i < n" using that by simp
    ultimately have "j - i = 0" using nat_dvd_not_less by blast
    with that show ?thesis by simp
  qed
  show ?thesis using *[of i j] *[of j i] assms by (cases "i \<le> j") auto
qed

lemma sum_upto_nat: "(\<Sum>q<k. q) = k * (k - 1) div (2 :: nat)"
proof -
  have "2 * (\<Sum>q<k. q) = k * (k - 1 :: nat)"
  proof (induction k)
    case (Suc k)
    then show ?case by (cases k) (simp_all add: algebra_simps)
  qed simp
  then show ?thesis by simp
qed

section \<open>Lists\<close>

lemma upt_split: "m \<le> n \<Longrightarrow> [0..<n] = [0..<m] @ [m..<n]"
  by (metis le0 le_add_diff_inverse upt_add_eq_append)

lemma upt_first: "[k..<k + Suc n] = k # [Suc k..<Suc k + n]"
  by (simp add: upt_conv_Cons del: upt_Suc)

lemma take_drop_snoc_nth:
  "i + n < length xs \<Longrightarrow> take (Suc n) (drop i xs) = take n (drop i xs) @ [xs ! (i + n)]"
  by (simp add: take_Suc_conv_app_nth)

lemma sorted_nth_le_last: "sorted xs \<Longrightarrow> i < length xs \<Longrightarrow> xs ! i \<le> last xs"
  by (cases xs rule: rev_cases) (auto simp: sorted_append nth_append)

lemma sorted_snoc: "sorted (xs :: nat list) \<Longrightarrow> (xs \<noteq> [] \<Longrightarrow> last xs \<le> x) \<Longrightarrow> sorted (xs @ [x])"
  by (cases xs rule: rev_cases) (auto simp: sorted_append intro: order_trans)

end
