(* ===== verification/Disruptor.thy ===== *)
theory Disruptor
  imports Prelude
begin

text \<open>
  The class \<open>single_producer_disruptor\<close> of \<open>disruptor_single_producer.hpp\<close>, without its
  handle classes: its members, its construction, the direct publication and consumption
  paths and the position queries, each as one atomic operation on the object's state.
  \<open>Event\<close> is the type variable \<open>'ev\<close>. A writer callback receives the event that is in the
  slot and the index within the batch and leaves a new event there; a handler receives
  the event and its sequence. Both may capture state by reference, so both thread a
  state of their own (\<open>'w\<close>, \<open>'h\<close>).
\<close>

unbundle bit_operations_syntax

section \<open>State\<close>

datatype producer_debug_state = Idle | Handle | Handle_publishing | Direct_publishing

text \<open>The assertions exist in builds without \<open>NDEBUG\<close> only.\<close>

datatype build = Debug | Release

text \<open>What ends the program: a failed assertion, or a use of a moved-from handle's null owner.\<close>

datatype failure = Assertion_failed | Null_dereference

text \<open>
  The template parameters \<open>Capacity\<close> and \<open>ConsumerCount\<close> are the constant fields
  \<open>capacity\<close> and \<open>consumer_count\<close>. Indices into the arrays are natural numbers;
  sequences, counts, lags and capacities keep their 64-bit width.
\<close>

record 'ev disruptor =
  capacity :: size_t
  consumer_count :: nat
  events :: "'ev list"
  producer_state :: producer_debug_state
  next_to_publish :: u64
  available_before_rescan :: size_t
  blocking_consumer :: nat
  published :: u64
  consumers :: "u64 list"

type_synonym ('ev, 'w) batch_writer = "'ev \<Rightarrow> size_t \<Rightarrow> 'w \<Rightarrow> 'ev \<times> 'w"
type_synonym ('ev, 'w) event_writer = "'ev \<Rightarrow> 'w \<Rightarrow> 'ev \<times> 'w"
type_synonym ('ev, 'h) sequence_handler = "'ev \<Rightarrow> u64 \<Rightarrow> 'h \<Rightarrow> 'h"
type_synonym ('ev, 'h) event_handler = "'ev \<Rightarrow> 'h \<Rightarrow> 'h"

text \<open>The class's static assertions on its parameters.\<close>

definition template_ok :: "size_t \<Rightarrow> nat \<Rightarrow> bool" where
  "template_ok cap n \<longleftrightarrow>
     cap > 0 \<and> cap AND (cap - 1) = 0 \<and> n > 0 \<and> cap \<le> (- 1) div 2"

text \<open>The constructor; \<open>dflt\<close> is the value-initialised event.\<close>

definition single_producer_disruptor :: "size_t \<Rightarrow> nat \<Rightarrow> 'ev \<Rightarrow> u64 \<Rightarrow> 'ev disruptor" where
  "single_producer_disruptor cap n dflt initial_position =
     \<lparr>capacity = cap, consumer_count = n,
      events = replicate (unat cap) dflt,
      producer_state = Idle,
      next_to_publish = initial_position,
      available_before_rescan = cap,
      blocking_consumer = 0,
      published = initial_position,
      consumers = replicate n initial_position\<rparr>"

section \<open>Slots\<close>

text \<open>The slot \<open>event_at\<close> returns a reference to.\<close>

definition event_at :: "'ev disruptor \<Rightarrow> u64 \<Rightarrow> nat" where
  "event_at d sequence = unat (sequence AND (capacity d - 1))"

text \<open>
  The writer and handler loops: for each batch index of a list, the callback is invoked
  on the slot of that index.
\<close>

fun write_slots :: "('ev, 'w) batch_writer \<Rightarrow> (nat \<Rightarrow> nat) \<Rightarrow> nat list \<Rightarrow>
    'ev list \<times> 'w \<Rightarrow> 'ev list \<times> 'w" where
  "write_slots writer slot [] (evs, w) = (evs, w)"
| "write_slots writer slot (i # is) (evs, w) =
     (let (e, w') = writer (evs ! slot i) (of_nat i) w
      in write_slots writer slot is (evs[slot i := e], w'))"

fun read_slots :: "('ev, 'h) sequence_handler \<Rightarrow> (nat \<Rightarrow> nat) \<Rightarrow> u64 \<Rightarrow> 'ev list \<Rightarrow>
    nat list \<Rightarrow> 'h \<Rightarrow> 'h" where
  "read_slots handler slot first evs [] h = h"
| "read_slots handler slot first evs (i # is) h =
     read_slots handler slot first evs is (handler (evs ! slot i) (first + of_nat i) h)"

section \<open>Backpressure\<close>

text \<open>
  The loop over the consumer positions in \<open>refresh_available_capacity\<close>: \<open>Inl\<close> is the
  early return with the index of a consumer that lags too far, \<open>Inr\<close> the greatest lag
  seen and its consumer.
\<close>

fun scan_consumers :: "u64 list \<Rightarrow> u64 \<Rightarrow> size_t \<Rightarrow> nat \<Rightarrow> nat list \<Rightarrow> size_t \<Rightarrow> nat \<Rightarrow>
    nat + size_t \<times> nat" where
  "scan_consumers cs nxt maximum_lag blocker [] greatest_lag greatest_lag_index =
     Inr (greatest_lag, greatest_lag_index)"
| "scan_consumers cs nxt maximum_lag blocker (i # is) greatest_lag greatest_lag_index =
     (if i = blocker
      then scan_consumers cs nxt maximum_lag blocker is greatest_lag greatest_lag_index
      else let lag = nxt - cs ! i in
        if lag > maximum_lag then Inl i
        else if lag > greatest_lag
        then scan_consumers cs nxt maximum_lag blocker is lag i
        else scan_consumers cs nxt maximum_lag blocker is greatest_lag greatest_lag_index)"

text \<open>
  The body of \<open>refresh_available_capacity\<close> on the producer's cursor fields; the class
  and its producer handle hold one copy each. The result is the answer and the new
  values of \<open>available_before_rescan_\<close> and \<open>blocking_consumer_\<close>.
\<close>

definition rescan :: "size_t \<Rightarrow> u64 list \<Rightarrow> nat \<Rightarrow> u64 \<Rightarrow> size_t \<Rightarrow> nat \<Rightarrow> size_t \<Rightarrow>
    bool \<times> size_t \<times> nat" where
  "rescan cap cs n nxt avail blocker required =
     (let maximum_lag = cap - required;
          greatest_lag = nxt - cs ! blocker
      in if greatest_lag > maximum_lag then (False, avail, blocker)
         else case scan_consumers cs nxt maximum_lag blocker [0..<n] greatest_lag blocker of
           Inl i \<Rightarrow> (False, avail, i)
         | Inr (lag, i) \<Rightarrow> (True, cap - lag, i))"

definition refresh_available_capacity :: "'ev disruptor \<Rightarrow> size_t \<Rightarrow> bool \<times> 'ev disruptor" where
  "refresh_available_capacity d required =
     (let (ok, avail, blocker) =
        rescan (capacity d) (consumers d) (consumer_count d) (next_to_publish d)
          (available_before_rescan d) (blocking_consumer d) required
      in (ok, d\<lparr>available_before_rescan := avail, blocking_consumer := blocker\<rparr>))"

section \<open>Direct publication\<close>

definition debug_store :: "build \<Rightarrow> producer_debug_state \<Rightarrow> 'ev disruptor \<Rightarrow> 'ev disruptor" where
  "debug_store b s d = (if b = Debug then d\<lparr>producer_state := s\<rparr> else d)"

definition try_publish_batch :: "build \<Rightarrow> 'ev disruptor \<Rightarrow> size_t \<Rightarrow> ('ev, 'w) batch_writer \<Rightarrow> 'w \<Rightarrow>
    failure + bool \<times> 'ev disruptor \<times> 'w" where
  "try_publish_batch b d count writer w =
     (if b = Debug \<and> producer_state d \<noteq> Idle then Inl Assertion_failed
      else if count = 0 then Inr (True, d, w)
      else if count > capacity d then Inr (False, d, w)
      else let (room, d1) = (if count > available_before_rescan d
                             then refresh_available_capacity d count else (True, d))
        in if \<not> room then Inr (False, d1, w)
           else let d2 = debug_store b Direct_publishing d1;
                    first = next_to_publish d2;
                    (evs, w') = write_slots writer (\<lambda>i. event_at d2 (first + of_nat i))
                                  [0..<unat count] (events d2, w);
                    d3 = d2\<lparr>events := evs, next_to_publish := first + count,
                            available_before_rescan := available_before_rescan d2 - count,
                            published := first + count\<rparr>
                in Inr (True, debug_store b Idle d3, w'))"

definition try_publish :: "build \<Rightarrow> 'ev disruptor \<Rightarrow> ('ev, 'w) event_writer \<Rightarrow> 'w \<Rightarrow>
    failure + bool \<times> 'ev disruptor \<times> 'w" where
  "try_publish b d writer w = try_publish_batch b d 1 (\<lambda>e _. writer e) w"

section \<open>Direct consumption\<close>

definition consume_available :: "'ev disruptor \<Rightarrow> nat \<Rightarrow> size_t \<Rightarrow> ('ev, 'h) sequence_handler \<Rightarrow> 'h \<Rightarrow>
    size_t \<times> 'ev disruptor \<times> 'h" where
  "consume_available d consumer_index max_count handler h =
     (if consumer_index \<ge> consumer_count d \<or> max_count = 0 then (0, d, h)
      else let first = consumers d ! consumer_index;
               available = published d;
               available_count = available - first
        in if available_count = 0 then (0, d, h)
           else let count = (if available_count < max_count then available_count else max_count);
                    h' = read_slots handler (\<lambda>i. event_at d (first + of_nat i)) first (events d)
                           [0..<unat count] h
                in (count, d\<lparr>consumers := (consumers d)[consumer_index := first + count]\<rparr>, h'))"

definition try_consume :: "'ev disruptor \<Rightarrow> nat \<Rightarrow> ('ev, 'h) event_handler \<Rightarrow> 'h \<Rightarrow>
    bool \<times> 'ev disruptor \<times> 'h" where
  "try_consume d consumer_index handler h =
     (case consume_available d consumer_index 1 (\<lambda>e _. handler e) h of
        (n, d', h') \<Rightarrow> (n = 1, d', h'))"

section \<open>Positions\<close>

definition published_sequence :: "'ev disruptor \<Rightarrow> u64" where
  "published_sequence d = published d - 1"

definition published_position :: "'ev disruptor \<Rightarrow> u64" where
  "published_position d = published d"

definition consumer_sequence :: "'ev disruptor \<Rightarrow> nat \<Rightarrow> u64" where
  "consumer_sequence d consumer_index =
     (if consumer_index \<ge> consumer_count d then - 1 else consumers d ! consumer_index - 1)"

definition consumer_position :: "'ev disruptor \<Rightarrow> nat \<Rightarrow> u64" where
  "consumer_position d consumer_index =
     (if consumer_index \<ge> consumer_count d then 0 else consumers d ! consumer_index)"

end
