(* ===== verification/Stream_Spec.thy ===== *)
theory Stream_Spec
  imports Disruptor
begin

text \<open>
  The abstract multicast stream a disruptor implements, and the refinement relation. The
  stream is the list of all events ever published and, for each consumer, how many of
  them it has taken: unbounded, with no slots, no masks and no modular positions.
\<close>

unbundle bit_operations_syntax

section \<open>The abstract stream\<close>

text \<open>What the writer leaves in the slots of a batch, given their old contents.\<close>

fun written :: "('ev, 'w) batch_writer \<Rightarrow> 'ev list \<Rightarrow> nat \<Rightarrow> 'w \<Rightarrow> 'ev list \<times> 'w" where
  "written writer [] i w = ([], w)"
| "written writer (e # es) i w =
     (let (e', w1) = writer e (of_nat i) w; (es', w2) = written writer es (Suc i) w1
      in (e' # es', w2))"

text \<open>A handler applied to consecutive events from a first sequence on.\<close>

fun deliver :: "('ev, 'h) sequence_handler \<Rightarrow> u64 \<Rightarrow> 'ev list \<Rightarrow> 'h \<Rightarrow> 'h" where
  "deliver handler sequence [] h = h"
| "deliver handler sequence (e # es) h = deliver handler (sequence + 1) es (handler e sequence h)"

definition room_for :: "nat \<Rightarrow> 'ev list \<Rightarrow> nat list \<Rightarrow> nat \<Rightarrow> bool" where
  "room_for cap log cs n \<longleftrightarrow> (\<forall>c \<in> set cs. length log + n \<le> c + cap)"

definition next_events :: "'ev list \<Rightarrow> nat list \<Rightarrow> nat \<Rightarrow> nat \<Rightarrow> 'ev list" where
  "next_events log cs i n = take n (drop (cs ! i) log)"

lemma length_written [simp]: "length (fst (written writer es i w)) = length es"
  by (induction es arbitrary: i w) (auto split: prod.splits, metis fst_conv)

lemma deliver_append:
  "deliver handler s (xs @ ys) h = deliver handler (s + of_nat (length xs)) ys (deliver handler s xs h)"
  by (induction xs arbitrary: s h) (auto simp: algebra_simps)

section \<open>Slots of a well-formed ring\<close>

lemma template_power2:
  assumes "template_ok cap n"
  obtains k where "k < 64" "unat cap = 2 ^ k"
  using assms word_and_pred_power2 [of cap] by (auto simp: template_ok_def)

lemma template_ok_pos: "template_ok cap n \<Longrightarrow> 0 < unat cap"
  by (auto elim: template_power2)

lemma mask_mod:
  assumes "template_ok cap n"
  shows "unat (s AND (cap - 1)) = unat s mod unat cap"
  using assms by (metis template_power2 unat_mask_power2)

lemma mask_less: "template_ok cap n \<Longrightarrow> unat (s AND (cap - 1)) < unat cap"
  by (simp add: mask_mod template_ok_pos)

lemma mask_offset:
  assumes "template_ok cap n"
  shows "unat ((s + of_nat i) AND (cap - 1)) = (unat s + i) mod unat cap"
proof -
  obtain k where k: "k < 64" "unat cap = 2 ^ k" using assms by (rule template_power2)
  have "unat ((s + of_nat i) AND (cap - 1)) = (unat s + unat (of_nat i :: u64)) mod unat cap"
    using unat_add_mod_power2 [OF k(2,1), of s "of_nat i"] mask_mod [OF assms] by simp
  also have "\<dots> = (unat s + i) mod unat cap"
    using unat_of_nat_mod_power2 [OF k(2,1)] by (metis mod_add_right_eq)
  finally show ?thesis .
qed

lemma mask_inj:
  assumes "template_ok cap n"
    and "unat ((s + of_nat i) AND (cap - 1)) = unat ((s + of_nat j) AND (cap - 1))"
    and "i < j + unat cap" "j < i + unat cap"
  shows "i = j"
proof (rule mod_add_inj [OF _ assms(3,4)])
  show "(unat s + i) mod unat cap = (unat s + j) mod unat cap"
    using assms(2) mask_offset [OF assms(1)] by simp
qed

lemma event_at_mod:
  "template_ok (capacity d) n \<Longrightarrow> event_at d s = unat s mod unat (capacity d)"
  unfolding event_at_def by (rule mask_mod)

lemma event_at_less: "template_ok (capacity d) n \<Longrightarrow> event_at d s < unat (capacity d)"
  unfolding event_at_def by (rule mask_less)

lemma event_at_offset:
  "template_ok (capacity d) n \<Longrightarrow>
     event_at d (s + of_nat i) = (unat s + i) mod unat (capacity d)"
  unfolding event_at_def by (rule mask_offset)

lemma event_at_inj:
  assumes "template_ok (capacity d) n" "event_at d (s + of_nat i) = event_at d (s + of_nat j)"
    and "i < j + unat (capacity d)" "j < i + unat (capacity d)"
  shows "i = j"
  using assms unfolding event_at_def by (rule mask_inj)

section \<open>The callback loops against the specification\<close>

lemma write_slots_upt:
  assumes "inj_on slot {i..<n}" "\<forall>j \<in> {i..<n}. slot j < length evs"
    and "write_slots writer slot [i..<n] (evs, w) = (evs', w')"
  shows "length evs' = length evs"
    and "(map (\<lambda>j. evs' ! slot j) [i..<n], w') = written writer (map (\<lambda>j. evs ! slot j) [i..<n]) i w"
    and "\<And>m. m \<notin> slot ` {i..<n} \<Longrightarrow> evs' ! m = evs ! m"
proof -
  have "length evs' = length evs \<and>
    (map (\<lambda>j. evs' ! slot j) [i..<n], w') = written writer (map (\<lambda>j. evs ! slot j) [i..<n]) i w \<and>
    (\<forall>m. m \<notin> slot ` {i..<n} \<longrightarrow> evs' ! m = evs ! m)"
    using assms
  proof (induction "n - i" arbitrary: i evs w)
    case 0
    then show ?case by simp
  next
    case (Suc k)
    then have less: "i < n" by simp
    then have upt: "[i..<n] = i # [Suc i..<n]" by (rule upt_conv_Cons)
    obtain e w1 where e: "writer (evs ! slot i) (of_nat i) w = (e, w1)" by fastforce
    have run: "write_slots writer slot [Suc i..<n] (evs[slot i := e], w1) = (evs', w')"
      using Suc.prems(3) by (simp add: upt e)
    have inj: "inj_on slot {Suc i..<n}" using Suc.prems(1) by (auto simp: inj_on_def)
    have ne: "slot j \<noteq> slot i" if "j \<in> {Suc i..<n}" for j
      using inj_onD [OF Suc.prems(1), of j i] that less by auto
    have IH: "length evs' = length (evs[slot i := e])"
      "(map (\<lambda>j. evs' ! slot j) [Suc i..<n], w') =
        written writer (map (\<lambda>j. (evs[slot i := e]) ! slot j) [Suc i..<n]) (Suc i) w1"
      "\<forall>m. m \<notin> slot ` {Suc i..<n} \<longrightarrow> evs' ! m = (evs[slot i := e]) ! m"
      using Suc.hyps(1) [of "Suc i" "evs[slot i := e]" w1] Suc.hyps(2) Suc.prems(2) inj run by auto
    have same: "map (\<lambda>j. (evs[slot i := e]) ! slot j) [Suc i..<n] = map (\<lambda>j. evs ! slot j) [Suc i..<n]"
      by (rule map_cong [OF refl]) (metis ne nth_list_update_neq set_upt)
    have "slot i \<notin> slot ` {Suc i..<n}" by (metis imageE ne)
    then have at: "evs' ! slot i = e" using IH(3) less Suc.prems(2) by simp
    have "\<forall>m. m \<notin> slot ` {i..<n} \<longrightarrow> evs' ! m = evs ! m"
    proof (intro allI impI)
      fix m assume m: "m \<notin> slot ` {i..<n}"
      then have "m \<noteq> slot i" using less by auto
      with m show "evs' ! m = evs ! m" using IH(3) by (auto simp: image_iff)
    qed
    moreover have "(map (\<lambda>j. evs' ! slot j) [i..<n], w') = written writer (map (\<lambda>j. evs ! slot j) [i..<n]) i w"
      using IH(2) [symmetric] by (simp add: upt e same at)
    ultimately show ?case using IH(1) by simp
  qed
  then show "length evs' = length evs"
    and "(map (\<lambda>j. evs' ! slot j) [i..<n], w') = written writer (map (\<lambda>j. evs ! slot j) [i..<n]) i w"
    and "\<And>m. m \<notin> slot ` {i..<n} \<Longrightarrow> evs' ! m = evs ! m"
    by auto
qed

lemma read_slots_upt:
  "read_slots handler slot first evs [i..<n] h =
     deliver handler (first + of_nat i) (map (\<lambda>j. evs ! slot j) [i..<n]) h"
proof (induction "n - i" arbitrary: i h)
  case 0
  then show ?case by simp
next
  case (Suc k)
  then have "[i..<n] = i # [Suc i..<n]" by (intro upt_conv_Cons) simp
  moreover have "k = n - Suc i" using Suc.hyps(2) by simp
  ultimately show ?case using Suc.hyps(1) [of "Suc i"] by (simp add: algebra_simps)
qed

end
