(* ===== verification/Disruptor_Refinement.thy ===== *)
theory Disruptor_Refinement
  imports Stream_Spec
begin

text \<open>
  The well-formedness invariant of a disruptor, what its backpressure check decides, and
  the refinement of the direct operations to the abstract stream. The invariant and the
  refinement lemmas are stated over the producer's cursor fields, so that the producer
  handle, which keeps its own copy of them, uses the same lemmas.
\<close>

unbundle bit_operations_syntax

section \<open>The invariant and the refinement relation\<close>

text \<open>
  \<open>cursor_ok d nxt avail blk\<close>: the object is well formed and a producer whose cursor
  is \<open>nxt\<close> may write \<open>avail\<close> more events without looking at the consumers again:
  whatever the lag of a consumer, the lag and the cached room together fit in the ring.
\<close>

definition ring_ok :: "'ev disruptor \<Rightarrow> bool" where
  "ring_ok d \<longleftrightarrow> template_ok (capacity d) (consumer_count d) \<and>
     length (events d) = unat (capacity d) \<and> length (consumers d) = consumer_count d"

definition cursor_ok :: "'ev disruptor \<Rightarrow> u64 \<Rightarrow> size_t \<Rightarrow> nat \<Rightarrow> bool" where
  "cursor_ok d nxt avail blk \<longleftrightarrow> ring_ok d \<and> published d = nxt \<and> blk < consumer_count d \<and>
     (\<forall>c \<in> set (consumers d). unat avail + unat (nxt - c) \<le> unat (capacity d))"

definition disruptor_ok :: "'ev disruptor \<Rightarrow> bool" where
  "disruptor_ok d \<longleftrightarrow>
     cursor_ok d (next_to_publish d) (available_before_rescan d) (blocking_consumer d)"

text \<open>
  \<open>represents base d log cs\<close>: modulo \<open>2\<^sup>6\<^sup>4\<close> the positions of the object are those of the
  stream counted from \<open>base\<close>, no consumer lags by more than the capacity, and the slots
  hold the last \<open>capacity\<close> events of the stream.
\<close>

definition represents :: "u64 \<Rightarrow> 'ev disruptor \<Rightarrow> 'ev list \<Rightarrow> nat list \<Rightarrow> bool" where
  "represents base d log cs \<longleftrightarrow>
     published d = base + of_nat (length log) \<and>
     consumers d = map (\<lambda>c. base + of_nat c) cs \<and>
     (\<forall>c \<in> set cs. c \<le> length log \<and> length log \<le> c + unat (capacity d)) \<and>
     (\<forall>k < length log. length log \<le> k + unat (capacity d) \<longrightarrow>
        events d ! event_at d (base + of_nat k) = log ! k)"

lemma cursor_ok_ring_ok: "cursor_ok d nxt avail blk \<Longrightarrow> ring_ok d"
  by (simp add: cursor_ok_def)

lemma ring_ok_template: "ring_ok d \<Longrightarrow> template_ok (capacity d) (consumer_count d)"
  by (simp add: ring_ok_def)

lemma capacity_lt: "unat (capacity d) < 2 ^ 64"
  by simp

lemma new_disruptor_ok:
  assumes "template_ok cap n"
  shows "disruptor_ok (single_producer_disruptor cap n dflt p)"
  using assms by (simp add: disruptor_ok_def cursor_ok_def ring_ok_def template_ok_def
      single_producer_disruptor_def)

lemma new_disruptor_represents:
  "represents p (single_producer_disruptor cap n dflt p) [] (replicate n 0)"
  by (simp add: represents_def single_producer_disruptor_def)

section \<open>Backpressure\<close>

lemma scan_consumers_Inr:
  "scan_consumers cs nxt m blk is g gi = Inr (g', gi') \<Longrightarrow> g \<le> m \<Longrightarrow>
     g \<le> g' \<and> g' \<le> m \<and> (\<forall>i \<in> set is. i \<noteq> blk \<longrightarrow> nxt - cs ! i \<le> g') \<and>
     (gi' = gi \<or> gi' \<in> set is)"
proof (induction "is" arbitrary: g gi)
  case Nil
  then show ?case by simp
next
  case (Cons i "is")
  consider "i = blk" | "i \<noteq> blk" "nxt - cs ! i \<le> m" "g < nxt - cs ! i"
    | "i \<noteq> blk" "nxt - cs ! i \<le> m" "nxt - cs ! i \<le> g"
    using Cons.prems(1) by (auto simp: Let_def split: if_splits)
  then show ?case
  proof cases
    case 1
    with Cons show ?thesis by auto
  next
    case 2
    with Cons.prems have "scan_consumers cs nxt m blk is (nxt - cs ! i) i = Inr (g', gi')"
      by (simp add: Let_def not_less [symmetric] split: if_splits)
    from Cons.IH [OF this 2(2)] 2 show ?thesis by auto
  next
    case 3
    with Cons.prems have "scan_consumers cs nxt m blk is g gi = Inr (g', gi')"
      by (simp add: Let_def not_less [symmetric] split: if_splits)
    from Cons.IH [OF this Cons.prems(2)] 3 show ?thesis by auto
  qed
qed

lemma scan_consumers_Inl:
  "scan_consumers cs nxt m blk is g gi = Inl i \<Longrightarrow> i \<in> set is \<and> m < nxt - cs ! i"
  by (induction "is" arbitrary: g gi) (auto simp: Let_def split: if_splits)

text \<open>
  The rescan answers exactly whether every consumer has released enough, whichever
  consumer it asks first, and leaves a sound cache.
\<close>

lemma rescan_spec:
  assumes "rescan cap cs n nxt avail blk required = (ok, avail', blk')"
    and "length cs = n" "blk < n" "required \<le> cap"
  shows "(ok \<longleftrightarrow> (\<forall>c \<in> set cs. unat required + unat (nxt - c) \<le> unat cap)) \<and>
    (ok \<longrightarrow> required \<le> avail' \<and> (\<forall>c \<in> set cs. unat avail' + unat (nxt - c) \<le> unat cap)) \<and>
    (\<not> ok \<longrightarrow> avail' = avail) \<and> blk' < n"
proof -
  have fits: "nxt - c \<le> cap - required \<longleftrightarrow> unat required + unat (nxt - c) \<le> unat cap" for c
    using assms(4) by (auto simp: word_le_nat_alt unat_sub)
  define g where "g = nxt - cs ! blk"
  have blk_in: "cs ! blk \<in> set cs" using assms(2,3) by simp
  show ?thesis
  proof (cases "g > cap - required")
    case True
    then have "ok = False \<and> avail' = avail \<and> blk' = blk"
      using assms(1) by (simp add: rescan_def g_def Let_def)
    moreover have "\<not> unat required + unat (nxt - cs ! blk) \<le> unat cap"
      using True fits [of "cs ! blk"] unfolding g_def by (metis leD)
    ultimately show ?thesis using blk_in assms(3) by blast
  next
    case False
    then have g_le: "g \<le> cap - required" by simp
    show ?thesis
    proof (cases "scan_consumers cs nxt (cap - required) blk [0..<n] g blk")
      case (Inl i)
      then have "ok = False \<and> avail' = avail \<and> blk' = i"
        using assms(1) False by (simp add: rescan_def g_def Let_def)
      moreover have "i < n" "cap - required < nxt - cs ! i"
        using scan_consumers_Inl [OF Inl] by auto
      moreover have "\<not> unat required + unat (nxt - cs ! i) \<le> unat cap"
        using calculation(3) fits [of "cs ! i"] by (metis leD)
      ultimately show ?thesis using assms(2) by (metis nth_mem)
    next
      case (Inr r)
      obtain g' gi' where r: "r = (g', gi')" by (cases r)
      have res: "ok = True \<and> avail' = cap - g' \<and> blk' = gi'"
        using assms(1) False Inr by (simp add: rescan_def g_def Let_def r)
      note sc = scan_consumers_Inr [OF Inr [unfolded r] g_le]
      have lag: "nxt - c \<le> g'" if "c \<in> set cs" for c
      proof -
        from that obtain i where "i < n" "c = cs ! i" using assms(2) by (metis in_set_conv_nth)
        then show ?thesis using sc by (cases "i = blk") (auto simp: g_def)
      qed
      have "cap - required \<le> cap" using assms(4) by (simp add: word_le_nat_alt unat_sub)
      then have g'_le: "g' \<le> cap" using sc by (meson order_trans)
      have req: "required \<le> cap - g'"
        using sc g'_le assms(4) by (auto simp: word_le_nat_alt unat_sub)
      have room: "unat (cap - g') + unat (nxt - c) \<le> unat cap" if "c \<in> set cs" for c
        using lag [OF that] g'_le by (auto simp: word_le_nat_alt unat_sub)
      moreover have "unat required + unat (nxt - c) \<le> unat cap" if "c \<in> set cs" for c
        using room [OF that] req by (simp add: word_le_nat_alt)
      moreover have "gi' < n" using sc assms(3) by auto
      ultimately show ?thesis using res req by blast
    qed
  qed
qed

section \<open>The write and read loops on a represented stream\<close>

lemma event_at_cong: "capacity d' = capacity d \<Longrightarrow> event_at d' s = event_at d s"
  by (simp add: event_at_def)

lemma represents_lag:
  assumes "represents base d log cs" "c \<in> set cs"
  shows "unat (published d - (base + of_nat c)) = length log - c"
proof -
  have c: "c \<le> length log" "length log \<le> c + unat (capacity d)" "published d = base + of_nat (length log)"
    using assms by (auto simp: represents_def)
  then have "length log - c < 2 ^ 64" using unat_lt_2p64 [of "capacity d"] by linarith
  then show ?thesis using distance_of_nat [OF c(1)] by (simp only: c(3) unat_of_nat64)
qed

lemma represents_room:
  assumes "represents base d log cs"
  shows "(\<forall>c \<in> set (consumers d). n + unat (published d - c) \<le> unat (capacity d)) \<longleftrightarrow>
    room_for (unat (capacity d)) log cs n"
proof -
  have "n + unat (published d - (base + of_nat c)) \<le> unat (capacity d) \<longleftrightarrow>
      length log + n \<le> c + unat (capacity d)" if "c \<in> set cs" for c
  proof -
    have "c \<le> length log" using assms that by (auto simp: represents_def)
    then show ?thesis using represents_lag [OF assms that] by linarith
  qed
  then show ?thesis using assms by (simp add: represents_def room_for_def)
qed

text \<open>The slots a batch of \<open>n\<close> events is written to hold these old events.\<close>

definition batch_slots :: "'ev disruptor \<Rightarrow> u64 \<Rightarrow> nat \<Rightarrow> 'ev list" where
  "batch_slots d first n = map (\<lambda>i. events d ! event_at d (first + of_nat i)) [0..<n]"

lemma publish_represents:
  assumes ok: "cursor_ok d nxt avail blk" and rep: "represents base d log cs"
    and room: "count \<le> avail"
    and run: "write_slots writer (\<lambda>i. event_at d (nxt + of_nat i)) [0..<unat count] (events d, w) = (evs, w')"
    and d': "capacity d' = capacity d" "consumers d' = consumers d" "consumer_count d' = consumer_count d"
      "events d' = evs" "published d' = nxt + count"
  defines "es \<equiv> fst (written writer (batch_slots d nxt (unat count)) 0 w)"
  shows "w' = snd (written writer (batch_slots d nxt (unat count)) 0 w)"
    and "represents base d' (log @ es) cs"
    and "cursor_ok d' (nxt + count) (avail - count) blk"
proof -
  let ?cap = "unat (capacity d)" and ?n = "unat count"
  let ?slot = "\<lambda>i. event_at d (nxt + of_nat i)"
  have tmpl: "template_ok (capacity d) (consumer_count d)" and len: "length (events d) = ?cap"
    and pub: "published d = nxt" and lags: "\<forall>c \<in> set (consumers d). unat avail + unat (nxt - c) \<le> ?cap"
    using ok by (auto simp: cursor_ok_def ring_ok_def)
  have n: "?n \<le> unat avail" using room by (simp add: word_le_nat_alt)
  have some: "consumers d \<noteq> []" using ok by (auto simp: cursor_ok_def ring_ok_def)
  then have "unat avail \<le> ?cap" using lags by (metis add_leD1 list.set_sel(1))
  then have n_cap: "?n \<le> ?cap" using n by simp
  have inj: "inj_on ?slot {0..<?n}"
  proof (rule inj_onI)
    fix i j assume ij: "i \<in> {0..<?n}" "j \<in> {0..<?n}" "?slot i = ?slot j"
    show "i = j" by (rule event_at_inj [OF tmpl ij(3)]) (use ij n_cap in simp_all)
  qed
  have bnd: "\<forall>j \<in> {0..<?n}. ?slot j < length (events d)"
    using event_at_less [OF tmpl] len by simp
  note ws = write_slots_upt [OF inj bnd run, folded batch_slots_def]
  have wr: "written writer (batch_slots d nxt ?n) 0 w = (map (\<lambda>j. evs ! ?slot j) [0..<?n], w')"
    by (rule ws(2) [symmetric])
  have es: "es = map (\<lambda>j. evs ! ?slot j) [0..<?n]" and w': "w' = snd (written writer (batch_slots d nxt ?n) 0 w)"
    unfolding es_def wr by simp_all
  show "w' = snd (written writer (batch_slots d nxt ?n) 0 w)" by (rule w')
  have nxt: "nxt = base + of_nat (length log)" using rep pub by (simp add: represents_def)
  have es_len: "length es = ?n" by (simp add: es)
  have lag_cs: "length log + ?n \<le> c + ?cap" if "c \<in> set cs" for c
    using represents_room [OF rep, of "unat avail"] lags pub that n by (fastforce simp: room_for_def)
  have slot_k: "events d' ! event_at d' (base + of_nat k) = (log @ es) ! k"
    if "k < length log + ?n" "length log + ?n \<le> k + ?cap" for k
  proof (cases "k < length log")
    case True
    have "event_at d (base + of_nat k) \<notin> ?slot ` {0..<?n}"
    proof
      assume "event_at d (base + of_nat k) \<in> ?slot ` {0..<?n}"
      then obtain i where i: "i < ?n"
        and eq: "event_at d (base + of_nat k) = event_at d (base + of_nat (length log + i))"
        by (auto simp: nxt algebra_simps)
      have "k = length log + i"
        by (rule event_at_inj [OF tmpl eq]) (use i that True in simp_all)
      with True show False by simp
    qed
    then have "evs ! event_at d (base + of_nat k) = log ! k"
      using ws(3) rep True that by (simp add: represents_def)
    then show ?thesis using True d' by (simp add: event_at_cong [OF d'(1)] nth_append)
  next
    case False
    define i where "i = k - length log"
    have i: "k = length log + i" "i < ?n" using False that by (simp_all add: i_def)
    then have "evs ! event_at d (base + of_nat k) = es ! i"
      by (simp add: es nxt algebra_simps)
    then show ?thesis using i d' by (simp add: event_at_cong [OF d'(1)] nth_append)
  qed
  show "represents base d' (log @ es) cs"
    unfolding represents_def
  proof (intro conjI ballI allI impI)
    show "published d' = base + of_nat (length (log @ es))" by (simp add: d'(5) es_len nxt)
    show "consumers d' = map (\<lambda>c. base + of_nat c) cs" using rep d'(2) by (simp add: represents_def)
    show "c \<le> length (log @ es)" if "c \<in> set cs" for c
      using rep that by (fastforce simp: represents_def)
    show "length (log @ es) \<le> c + unat (capacity d')" if "c \<in> set cs" for c
      using lag_cs [OF that] by (simp add: es_len d'(1))
    show "events d' ! event_at d' (base + of_nat k) = (log @ es) ! k"
      if "k < length (log @ es)" "length (log @ es) \<le> k + unat (capacity d')" for k
      using slot_k that by (simp add: es_len d'(1))
  qed
  have "unat (avail - count) + unat (nxt + count - c) \<le> ?cap" if "c \<in> set (consumers d)" for c
  proof -
    have c: "unat avail + unat (nxt - c) \<le> ?cap" using lags that by blast
    have "unat (nxt + count - c) = unat (nxt - c) + ?n"
    proof -
      have "unat (nxt - c) + ?n < 2 ^ 64" using c n unat_lt_2p64 [of "capacity d"] by linarith
      then have "unat (nxt - c + count) = unat (nxt - c) + ?n" by (rule unat_add_no_wrap)
      then show ?thesis by (simp add: algebra_simps)
    qed
    then show ?thesis using c n room by (simp add: unat_sub word_le_nat_alt)
  qed
  then show "cursor_ok d' (nxt + count) (avail - count) blk"
    using ok d' ws(1) by (auto simp: cursor_ok_def ring_ok_def)
qed

text \<open>
  The room check both publication paths make: the cached room first, a rescan only when
  it does not suffice. Either way the answer is exact.
\<close>

lemma reserve_spec:
  assumes ok: "cursor_ok d nxt avail blk" and le: "count \<le> capacity d"
    and res: "(if count > avail
        then rescan (capacity d) (consumers d) (consumer_count d) nxt avail blk count
        else (True, avail, blk)) = (room, avail', blk')"
  shows "(room \<longleftrightarrow> (\<forall>c \<in> set (consumers d). unat count + unat (nxt - c) \<le> unat (capacity d))) \<and>
    (room \<longrightarrow> count \<le> avail') \<and> cursor_ok d nxt avail' blk'"
proof (cases "count > avail")
  case True
  have "length (consumers d) = consumer_count d" "blk < consumer_count d"
    using ok by (auto simp: cursor_ok_def ring_ok_def)
  moreover have "rescan (capacity d) (consumers d) (consumer_count d) nxt avail blk count = (room, avail', blk')"
    using res True by simp
  ultimately have "(room \<longleftrightarrow> (\<forall>c \<in> set (consumers d). unat count + unat (nxt - c) \<le> unat (capacity d))) \<and>
    (room \<longrightarrow> count \<le> avail' \<and> (\<forall>c \<in> set (consumers d). unat avail' + unat (nxt - c) \<le> unat (capacity d))) \<and>
    (\<not> room \<longrightarrow> avail' = avail) \<and> blk' < consumer_count d"
    using rescan_spec [OF _ _ _ le] by blast
  with ok show ?thesis by (cases room) (simp_all add: cursor_ok_def)
next
  case False
  then have eq: "room = True" "avail' = avail" "blk' = blk" and c: "count \<le> avail" using res by auto
  have "unat count + unat (nxt - c) \<le> unat (capacity d)" if "c \<in> set (consumers d)" for c
  proof -
    have "unat avail + unat (nxt - c) \<le> unat (capacity d)" using ok that by (simp add: cursor_ok_def)
    then show ?thesis using c by (simp add: word_le_nat_alt)
  qed
  then show ?thesis using ok c by (simp add: eq)
qed

lemma room_for_capacity:
  assumes "represents base d log cs" "cs \<noteq> []" "room_for (unat (capacity d)) log cs (unat count)"
  shows "count \<le> capacity d"
proof -
  obtain c where c: "c \<in> set cs" using assms(2) by fastforce
  then have "c \<le> length log" "length log + unat count \<le> c + unat (capacity d)"
    using assms(1,3) by (auto simp: represents_def room_for_def)
  then show ?thesis by (simp add: word_le_nat_alt)
qed

lemma represents_consumers:
  "represents base d log cs \<Longrightarrow> length (consumers d) = length cs"
  by (simp add: represents_def)

lemma consume_represents:
  assumes ok: "ring_ok d" and rep: "represents base d log cs"
    and i: "i < consumer_count d" and n: "cs ! i + n \<le> length log"
  shows "map (\<lambda>j. events d ! event_at d (consumers d ! i + of_nat j)) [0..<n] = next_events log cs i n"
    and "represents base (d\<lparr>consumers := (consumers d)[i := consumers d ! i + of_nat n]\<rparr>) log
           (cs[i := cs ! i + n])"
proof -
  have len: "i < length cs" using ok i represents_consumers [OF rep] by (simp add: ring_ok_def)
  have pos: "consumers d ! i = base + of_nat (cs ! i)" using rep len by (simp add: represents_def)
  have in_cs: "cs ! i \<in> set cs" using len by simp
  have lag: "length log \<le> cs ! i + unat (capacity d)" using rep in_cs by (simp add: represents_def)
  have "events d ! event_at d (consumers d ! i + of_nat j) = log ! (cs ! i + j)" if "j < n" for j
  proof -
    have "cs ! i + j < length log" "length log \<le> cs ! i + j + unat (capacity d)"
      using that n lag by linarith+
    then have "events d ! event_at d (base + of_nat (cs ! i + j)) = log ! (cs ! i + j)"
      using rep unfolding represents_def by blast
    then show ?thesis by (simp add: pos add.assoc)
  qed
  then show "map (\<lambda>j. events d ! event_at d (consumers d ! i + of_nat j)) [0..<n] = next_events log cs i n"
    using n by (intro nth_equalityI) (auto simp: next_events_def)
  let ?d' = "d\<lparr>consumers := (consumers d)[i := consumers d ! i + of_nat n]\<rparr>"
  have "c \<le> length log \<and> length log \<le> c + unat (capacity d)" if "c \<in> set (cs[i := cs ! i + n])" for c
  proof -
    have "c = cs ! i + n \<or> c \<in> set cs" using that set_update_subset_insert by fastforce
    then show ?thesis using n lag rep by (auto simp: represents_def)
  qed
  moreover have "(consumers d)[i := consumers d ! i + of_nat n] = map (\<lambda>c. base + of_nat c) (cs[i := cs ! i + n])"
    using rep len by (simp add: represents_def map_update add.assoc)
  ultimately show "represents base ?d' log (cs[i := cs ! i + n])"
    using rep by (simp add: represents_def event_at_def)
qed

text \<open>Consuming only ever gives the producer more room, so it keeps any producer's cursor sound.\<close>

lemma consume_cursor_ok:
  assumes ok: "cursor_ok d nxt avail blk" and i: "i < consumer_count d"
    and n: "unat n \<le> unat (nxt - consumers d ! i)"
  shows "cursor_ok (d\<lparr>consumers := (consumers d)[i := consumers d ! i + n]\<rparr>) nxt avail blk"
proof -
  have len: "i < length (consumers d)" using ok i by (simp add: cursor_ok_def ring_ok_def)
  have "unat avail + unat (nxt - c) \<le> unat (capacity d)"
    if "c \<in> set ((consumers d)[i := consumers d ! i + n])" for c
  proof (cases "c \<in> set (consumers d)")
    case True
    then show ?thesis using ok by (simp add: cursor_ok_def)
  next
    case False
    then have c: "c = consumers d ! i + n" using that set_update_subset_insert by fastforce
    have "unat (nxt - c) = unat (nxt - consumers d ! i - n)" by (simp add: c algebra_simps)
    also have "\<dots> = unat (nxt - consumers d ! i) - unat n"
      using n by (intro unat_sub) (simp add: word_le_nat_alt)
    finally have "unat (nxt - c) = unat (nxt - consumers d ! i) - unat n" .
    moreover have "unat avail + unat (nxt - consumers d ! i) \<le> unat (capacity d)"
      using ok len by (simp add: cursor_ok_def)
    ultimately show ?thesis by linarith
  qed
  then show ?thesis using ok by (auto simp: cursor_ok_def ring_ok_def)
qed

section \<open>The direct operations\<close>

lemma try_publish_batch_spec:
  assumes ok: "disruptor_ok d" and rep: "represents base d log cs"
    and idle: "b = Debug \<longrightarrow> producer_state d = Idle"
  shows "\<exists>accepted d' w'. try_publish_batch b d count writer w = Inr (accepted, d', w') \<and>
    disruptor_ok d' \<and> capacity d' = capacity d \<and> consumer_count d' = consumer_count d \<and>
    producer_state d' = producer_state d \<and> consumers d' = consumers d \<and>
    (accepted \<longleftrightarrow> room_for (unat (capacity d)) log cs (unat count)) \<and>
    (if accepted
     then let (es, w'') = written writer (batch_slots d (next_to_publish d) (unat count)) 0 w
       in w' = w'' \<and> represents base d' (log @ es) cs
     else w' = w \<and> events d' = events d \<and> published d' = published d \<and> represents base d' log cs)"
proof -
  let ?nxt = "next_to_publish d"
  have cur: "cursor_ok d ?nxt (available_before_rescan d) (blocking_consumer d)"
    using ok by (simp add: disruptor_ok_def)
  have pub: "published d = ?nxt" using cur by (simp add: cursor_ok_def)
  have ne: "cs \<noteq> []" using cur represents_consumers [OF rep] by (auto simp: cursor_ok_def ring_ok_def)
  have no_fail: "\<not> (b = Debug \<and> producer_state d \<noteq> Idle)" using idle by blast
  show ?thesis
  proof (cases "count = 0 \<or> capacity d < count")
    case True
    then show ?thesis
    proof
      assume "count = 0"
      moreover have "room_for (unat (capacity d)) log cs 0" using rep by (simp add: room_for_def represents_def)
      ultimately show ?thesis using no_fail ok rep
        by (intro exI [of _ True] exI [of _ d] exI [of _ w]) (simp add: try_publish_batch_def batch_slots_def)
    next
      assume big: "capacity d < count"
      then have "\<not> room_for (unat (capacity d)) log cs (unat count)"
        using room_for_capacity [OF rep ne] by (meson leD)
      moreover have "count \<noteq> 0" using big by auto
      ultimately show ?thesis using big no_fail ok rep
        by (intro exI [of _ False] exI [of _ d] exI [of _ w]) (simp add: try_publish_batch_def)
    qed
  next
    case False
    then have cnt: "count \<noteq> 0" "count \<le> capacity d" by auto
    obtain room avail' blk' where res: "(if count > available_before_rescan d
        then rescan (capacity d) (consumers d) (consumer_count d) ?nxt (available_before_rescan d)
               (blocking_consumer d) count
        else (True, available_before_rescan d, blocking_consumer d)) = (room, avail', blk')"
      by (metis prod_cases3)
    define d1 where "d1 = d\<lparr>available_before_rescan := avail', blocking_consumer := blk'\<rparr>"
    have d1: "(if count > available_before_rescan d then refresh_available_capacity d count else (True, d)) = (room, d1)"
      using res by (auto simp: refresh_available_capacity_def d1_def split: if_splits)
    have spec: "room \<longleftrightarrow> room_for (unat (capacity d)) log cs (unat count)"
      "room \<Longrightarrow> count \<le> avail'" "cursor_ok d ?nxt avail' blk'"
      using reserve_spec [OF cur cnt(2) res] represents_room [OF rep, of "unat count"] pub by auto
    have ok1: "disruptor_ok d1" using spec(3) by (simp add: disruptor_ok_def cursor_ok_def ring_ok_def d1_def)
    have rep1: "represents base d1 log cs" using rep by (simp add: represents_def d1_def event_at_def)
    show ?thesis
    proof (cases room)
      case False
      then have "try_publish_batch b d count writer w = Inr (False, d1, w)"
        unfolding try_publish_batch_def using no_fail cnt d1 by (auto simp: Let_def)
      then show ?thesis using False spec(1) ok1 rep1
        by (intro exI [of _ False] exI [of _ d1] exI [of _ w]) (simp add: d1_def)
    next
      case True
      let ?d2 = "debug_store b Direct_publishing d1"
      have d2: "events ?d2 = events d" "event_at ?d2 = event_at d" "next_to_publish ?d2 = ?nxt"
        by (auto simp: debug_store_def d1_def event_at_def)
      obtain evs w' where run: "write_slots writer (\<lambda>i. event_at d (?nxt + of_nat i)) [0..<unat count] (events d, w) = (evs, w')"
        by fastforce
      define d' where "d' = debug_store b Idle (?d2\<lparr>events := evs, next_to_publish := ?nxt + count,
         available_before_rescan := avail' - count, published := ?nxt + count\<rparr>)"
      have "available_before_rescan ?d2 = avail'" by (simp add: debug_store_def d1_def)
      then have eq: "try_publish_batch b d count writer w = Inr (True, d', w')"
        unfolding try_publish_batch_def using no_fail cnt d1 True run
        by (auto simp: Let_def d2 d'_def)
      have flds: "capacity d' = capacity d" "consumers d' = consumers d" "consumer_count d' = consumer_count d"
        "events d' = evs" "published d' = ?nxt + count" "next_to_publish d' = ?nxt + count"
        "available_before_rescan d' = avail' - count" "blocking_consumer d' = blk'"
        "producer_state d' = producer_state d"
        using idle by (auto simp: d'_def debug_store_def d1_def)
      note pr = publish_represents [OF spec(3) rep spec(2) [OF True] run flds(1-5)]
      have "disruptor_ok d'" using pr(3) by (simp add: disruptor_ok_def flds)
      then show ?thesis using eq flds pr(1,2) spec(1) True
        by (intro exI [of _ True] exI [of _ d'] exI [of _ w']) (simp add: case_prod_unfold)
    qed
  qed
qed

lemma consume_available_spec:
  fixes d :: "'ev disruptor" and max_count :: size_t and cs :: "nat list" and log :: "'ev list" and i :: nat
  assumes ok: "ring_ok d" and rep: "represents base d log cs" and i: "i < consumer_count d"
  defines "n \<equiv> min (unat max_count) (length log - cs ! i)"
  defines "d' \<equiv> d\<lparr>consumers := (consumers d)[i := consumers d ! i + of_nat n]\<rparr>"
  shows "consume_available d i max_count handler h =
      (of_nat n, d', deliver handler (base + of_nat (cs ! i)) (next_events log cs i n) h)"
    and "represents base d' log (cs[i := cs ! i + n])"
proof -
  have len: "i < length cs" using ok i represents_consumers [OF rep] by (simp add: ring_ok_def)
  have pos: "consumers d ! i = base + of_nat (cs ! i)" using rep len by (simp add: represents_def)
  have in_cs: "cs ! i \<in> set cs" using len by simp
  have le: "cs ! i \<le> length log" using rep in_cs by (simp add: represents_def)
  have avail: "unat (published d - consumers d ! i) = length log - cs ! i"
    using represents_lag [OF rep in_cs] by (simp add: pos)
  have n_le: "cs ! i + n \<le> length log" using le by (simp add: n_def)
  note cr = consume_represents [OF ok rep i n_le]
  show "represents base d' log (cs[i := cs ! i + n])" unfolding d'_def by (rule cr(2))
  show "consume_available d i max_count handler h =
      (of_nat n, d', deliver handler (base + of_nat (cs ! i)) (next_events log cs i n) h)"
  proof (cases "max_count = 0 \<or> published d - consumers d ! i = 0")
    case True
    then have n0: "n = 0" using avail by (auto simp: n_def)
    then have "d' = d" by (simp add: d'_def)
    with n0 True show ?thesis by (auto simp: consume_available_def next_events_def Let_def)
  next
    case False
    let ?count = "if published d - consumers d ! i < max_count then published d - consumers d ! i else max_count"
    have cnt: "unat ?count = n" using unat_min64 avail by (auto simp: n_def min_def word_less_nat_alt)
    then have cnt': "?count = of_nat n" by (simp flip: cnt)
    have "read_slots handler (\<lambda>i'. event_at d (consumers d ! i + of_nat i')) (consumers d ! i) (events d)
        [0..<n] h = deliver handler (base + of_nat (cs ! i)) (next_events log cs i n) h"
      using read_slots_upt [of handler _ _ _ 0] cr(1) by (simp add: pos)
    then show ?thesis using False i cnt unfolding consume_available_def d'_def
      by (simp add: Let_def cnt')
  qed
qed

end
