(* ===== verification/Disruptor_Handles.thy ===== *)
theory Disruptor_Handles
  imports Disruptor_Refinement
begin

text \<open>
  The two handle classes of \<open>disruptor_single_producer.hpp\<close>. A producer handle takes over
  the producer's cursor fields for as long as it lives; a consumer handle caches the
  publication boundary it last acquired. Both traverse the ring in two contiguous spans
  instead of masking every sequence.
\<close>

unbundle bit_operations_syntax

section \<open>The producer handle\<close>

text \<open>\<open>owner_live\<close> is \<open>owner_ != nullptr\<close>; \<open>events_\<close> always points to the owner's storage.\<close>

record producer_handle =
  owner_live :: bool
  handle_next_to_publish :: u64
  handle_available_before_rescan :: size_t
  handle_blocking_consumer :: nat

definition make_producer :: "build \<Rightarrow> 'ev disruptor \<Rightarrow> failure + 'ev disruptor \<times> producer_handle" where
  "make_producer b d =
     (if b = Debug \<and> producer_state d \<noteq> Idle then Inl Assertion_failed
      else Inr (debug_store b Handle d,
        \<lparr>owner_live = True,
         handle_next_to_publish = next_to_publish d,
         handle_available_before_rescan = available_before_rescan d,
         handle_blocking_consumer = blocking_consumer d\<rparr>))"

text \<open>The move constructor: the new handle and what is left of the old one.\<close>

definition move_producer :: "build \<Rightarrow> 'ev disruptor \<Rightarrow> producer_handle \<Rightarrow>
    failure + producer_handle \<times> producer_handle" where
  "move_producer b d h =
     (if b = Debug \<and> owner_live h \<and> producer_state d \<noteq> Handle then Inl Assertion_failed
      else Inr (h, h\<lparr>owner_live := False\<rparr>))"

definition synchronize_owner_state :: "build \<Rightarrow> 'ev disruptor \<Rightarrow> producer_handle \<Rightarrow> 'ev disruptor" where
  "synchronize_owner_state b d h =
     (if \<not> owner_live h then d
      else debug_store b Idle
        (d\<lparr>next_to_publish := handle_next_to_publish h,
           available_before_rescan := handle_available_before_rescan h,
           blocking_consumer := handle_blocking_consumer h\<rparr>))"

definition destroy_producer :: "build \<Rightarrow> 'ev disruptor \<Rightarrow> producer_handle \<Rightarrow> failure + 'ev disruptor" where
  "destroy_producer b d h =
     (if b = Debug \<and> owner_live h \<and> producer_state d \<noteq> Handle then Inl Assertion_failed
      else Inr (synchronize_owner_state b d h))"

definition producer_refresh_available_capacity :: "'ev disruptor \<Rightarrow> producer_handle \<Rightarrow> size_t \<Rightarrow>
    bool \<times> producer_handle" where
  "producer_refresh_available_capacity d h required =
     (let (ok, avail, blocker) =
        rescan (capacity d) (consumers d) (consumer_count d) (handle_next_to_publish h)
          (handle_available_before_rescan h) (handle_blocking_consumer h) required
      in (ok, h\<lparr>handle_available_before_rescan := avail, handle_blocking_consumer := blocker\<rparr>))"

text \<open>The number of slots from the first one to the end of the ring that the batch uses.\<close>

definition contiguous_count :: "size_t \<Rightarrow> size_t \<Rightarrow> size_t \<Rightarrow> size_t" where
  "contiguous_count cap first_index count =
     (if count < cap - first_index then count else cap - first_index)"

text \<open>
  Without the assertions, a call on a moved-from handle that gets as far as using
  \<open>owner_\<close> dereferences a null pointer.
\<close>

definition producer_try_publish_batch :: "build \<Rightarrow> 'ev disruptor \<Rightarrow> producer_handle \<Rightarrow> size_t \<Rightarrow>
    ('ev, 'w) batch_writer \<Rightarrow> 'w \<Rightarrow> failure + bool \<times> 'ev disruptor \<times> producer_handle \<times> 'w" where
  "producer_try_publish_batch b d h count writer w =
     (if b = Debug \<and> \<not> (owner_live h \<and> producer_state d = Handle) then Inl Assertion_failed
      else if count = 0 then Inr (True, d, h, w)
      else if count > capacity d then Inr (False, d, h, w)
      else if \<not> owner_live h then Inl Null_dereference
      else let (room, h1) = (if count > handle_available_before_rescan h
                             then producer_refresh_available_capacity d h count else (True, h))
        in if \<not> room then Inr (False, d, h1, w)
           else let d1 = debug_store b Handle_publishing d;
                    first = handle_next_to_publish h1;
                    first_index = first AND (capacity d - 1);
                    contiguous = contiguous_count (capacity d) first_index count;
                    (evs1, w1) = write_slots writer (\<lambda>i. unat first_index + i)
                                   [0..<unat contiguous] (events d1, w);
                    (evs2, w2) = write_slots writer (\<lambda>i. i - unat contiguous)
                                   [unat contiguous..<unat count] (evs1, w1);
                    h2 = h1\<lparr>handle_next_to_publish := first + count,
                            handle_available_before_rescan := handle_available_before_rescan h1 - count\<rparr>;
                    d2 = d1\<lparr>events := evs2, published := first + count\<rparr>
                in Inr (True, debug_store b Handle d2, h2, w2))"

definition producer_try_publish :: "build \<Rightarrow> 'ev disruptor \<Rightarrow> producer_handle \<Rightarrow>
    ('ev, 'w) event_writer \<Rightarrow> 'w \<Rightarrow> failure + bool \<times> 'ev disruptor \<times> producer_handle \<times> 'w" where
  "producer_try_publish b d h writer w = producer_try_publish_batch b d h 1 (\<lambda>e _. writer e) w"

definition producer_position :: "producer_handle \<Rightarrow> u64" where
  "producer_position h = handle_next_to_publish h"

section \<open>The consumer handle\<close>

record consumer_handle =
  consumer_owner_live :: bool
  handle_index :: nat
  next_position :: u64
  cached_published_position :: u64

text \<open>The class asserts statically that the index is registered.\<close>

definition make_consumer :: "'ev disruptor \<Rightarrow> nat \<Rightarrow> consumer_handle" where
  "make_consumer d i =
     \<lparr>consumer_owner_live = True, handle_index = i,
      next_position = consumers d ! i, cached_published_position = consumers d ! i\<rparr>"

definition move_consumer :: "consumer_handle \<Rightarrow> consumer_handle \<times> consumer_handle" where
  "move_consumer c = (c, c\<lparr>consumer_owner_live := False\<rparr>)"

definition consumer_consume_available :: "'ev disruptor \<Rightarrow> consumer_handle \<Rightarrow> size_t \<Rightarrow>
    ('ev, 'h) sequence_handler \<Rightarrow> 'h \<Rightarrow> failure + size_t \<times> 'ev disruptor \<times> consumer_handle \<times> 'h" where
  "consumer_consume_available d c max_count handler h =
     (if max_count = 0 then Inr (0, d, c, h)
      else if \<not> consumer_owner_live c then Inl Null_dereference
      else let c1 = (if cached_published_position c - next_position c = 0
                     then c\<lparr>cached_published_position := published d\<rparr> else c);
               available_count = cached_published_position c1 - next_position c1
        in if available_count = 0 then Inr (0, d, c1, h)
           else let count = (if available_count < max_count then available_count else max_count);
                    first = next_position c1;
                    first_index = first AND (capacity d - 1);
                    contiguous = contiguous_count (capacity d) first_index count;
                    h1 = read_slots handler (\<lambda>i. unat first_index + i) first (events d)
                           [0..<unat contiguous] h;
                    h2 = read_slots handler (\<lambda>i. i - unat contiguous) first (events d)
                           [unat contiguous..<unat count] h1
                in Inr (count, d\<lparr>consumers := (consumers d)[handle_index c := first + count]\<rparr>,
                        c1\<lparr>next_position := first + count\<rparr>, h2))"

definition consumer_try_consume :: "'ev disruptor \<Rightarrow> consumer_handle \<Rightarrow> ('ev, 'h) event_handler \<Rightarrow> 'h \<Rightarrow>
    failure + bool \<times> 'ev disruptor \<times> consumer_handle \<times> 'h" where
  "consumer_try_consume d c handler h =
     (case consumer_consume_available d c 1 (\<lambda>e _. handler e) h of
        Inl f \<Rightarrow> Inl f
      | Inr (n, d', c', h') \<Rightarrow> Inr (n = 1, d', c', h'))"

definition consumer_handle_position :: "consumer_handle \<Rightarrow> u64" where
  "consumer_handle_position c = next_position c"

section \<open>Two spans are one masked traversal\<close>

lemma write_slots_append:
  "write_slots writer slot (xs @ ys) s = write_slots writer slot ys (write_slots writer slot xs s)"
  by (induction xs arbitrary: s) (auto simp: split_paired_all split: prod.splits)

lemma write_slots_cong:
  "(\<And>i. i \<in> set is \<Longrightarrow> slot i = slot' i) \<Longrightarrow> write_slots writer slot is s = write_slots writer slot' is s"
  by (induction "is" arbitrary: s) (auto simp: split_paired_all split: prod.splits)

lemma read_slots_append:
  "read_slots handler slot first evs (xs @ ys) h =
     read_slots handler slot first evs ys (read_slots handler slot first evs xs h)"
  by (induction xs arbitrary: h) auto

lemma read_slots_cong:
  "(\<And>i. i \<in> set is \<Longrightarrow> slot i = slot' i) \<Longrightarrow>
     read_slots handler slot first evs is h = read_slots handler slot' first evs is h"
  by (induction "is" arbitrary: h) auto

lemma span_slots:
  fixes d :: "'ev disruptor" and first :: u64 and count :: size_t
  assumes tmpl: "template_ok (capacity d) n" and le: "count \<le> capacity d"
  defines "fi \<equiv> first AND (capacity d - 1)"
  defines "c \<equiv> contiguous_count (capacity d) fi count"
  shows "unat c \<le> unat count"
    and "i < unat c \<Longrightarrow> unat fi + i = event_at d (first + of_nat i)"
    and "unat c \<le> i \<Longrightarrow> i < unat count \<Longrightarrow> i - unat c = event_at d (first + of_nat i)"
proof -
  let ?cap = "unat (capacity d)"
  have fi: "unat fi = unat first mod ?cap" using event_at_mod [OF tmpl] by (simp add: fi_def event_at_def)
  then have fi_less: "unat fi < ?cap" using template_ok_pos [OF tmpl] by simp
  then have c: "unat c = min (unat count) (?cap - unat fi)"
    by (simp add: c_def contiguous_count_def word_less_nat_alt unat_sub word_le_nat_alt min_def)
  then show "unat c \<le> unat count" by simp
  have at: "event_at d (first + of_nat i) = (unat fi + i) mod ?cap" for i
    using event_at_offset [OF tmpl] fi by (simp add: mod_add_left_eq)
  show "i < unat c \<Longrightarrow> unat fi + i = event_at d (first + of_nat i)"
    using c by (subst at, subst mod_less) auto
  assume i: "unat c \<le> i" "i < unat count"
  then have "unat c = ?cap - unat fi" using c by simp
  moreover have "i < ?cap" using i le by (simp add: word_le_nat_alt)
  ultimately have "unat fi + i = ?cap + (i - unat c)" "i - unat c < ?cap" using i fi_less by auto
  then show "i - unat c = event_at d (first + of_nat i)" by (simp add: at)
qed

lemma write_two_spans:
  fixes d :: "'ev disruptor" and first :: u64 and count :: size_t
  assumes "template_ok (capacity d) n" "count \<le> capacity d"
  defines "fi \<equiv> first AND (capacity d - 1)"
  defines "c \<equiv> contiguous_count (capacity d) fi count"
  shows "write_slots writer (\<lambda>i. i - unat c) [unat c..<unat count]
           (write_slots writer (\<lambda>i. unat fi + i) [0..<unat c] s) =
         write_slots writer (\<lambda>i. event_at d (first + of_nat i)) [0..<unat count] s"
proof -
  note sp = span_slots [OF assms(1,2), where first = first, folded fi_def, folded c_def]
  have 1: "write_slots writer (\<lambda>i. unat fi + i) [0..<unat c] s =
      write_slots writer (\<lambda>i. event_at d (first + of_nat i)) [0..<unat c] s"
    by (rule write_slots_cong) (use sp(2) in simp)
  show ?thesis
    unfolding upt_split [OF sp(1)] write_slots_append 1
    by (rule write_slots_cong) (use sp(3) in simp)
qed

lemma read_two_spans:
  fixes d :: "'ev disruptor" and first :: u64 and count :: size_t
  assumes "template_ok (capacity d) n" "count \<le> capacity d"
  defines "fi \<equiv> first AND (capacity d - 1)"
  defines "c \<equiv> contiguous_count (capacity d) fi count"
  shows "read_slots handler (\<lambda>i. i - unat c) first evs [unat c..<unat count]
           (read_slots handler (\<lambda>i. unat fi + i) first evs [0..<unat c] h) =
         read_slots handler (\<lambda>i. event_at d (first + of_nat i)) first evs [0..<unat count] h"
proof -
  note sp = span_slots [OF assms(1,2), where first = first, folded fi_def, folded c_def]
  have 1: "read_slots handler (\<lambda>i. unat fi + i) first evs [0..<unat c] h =
      read_slots handler (\<lambda>i. event_at d (first + of_nat i)) first evs [0..<unat c] h"
    by (rule read_slots_cong) (use sp(2) in simp)
  show ?thesis
    unfolding upt_split [OF sp(1)] read_slots_append 1
    by (rule read_slots_cong) (use sp(3) in simp)
qed

section \<open>The producer handle against the direct path\<close>

definition producer_ok :: "'ev disruptor \<Rightarrow> producer_handle \<Rightarrow> bool" where
  "producer_ok d h \<longleftrightarrow> owner_live h \<and>
     cursor_ok d (handle_next_to_publish h) (handle_available_before_rescan h)
       (handle_blocking_consumer h)"

lemma producer_ok_synchronize:
  "owner_live h \<Longrightarrow> disruptor_ok (synchronize_owner_state b d h) \<longleftrightarrow> producer_ok d h"
  by (simp add: disruptor_ok_def producer_ok_def cursor_ok_def ring_ok_def synchronize_owner_state_def
      debug_store_def)

lemma represents_cong:
  "capacity d' = capacity d \<Longrightarrow> published d' = published d \<Longrightarrow> consumers d' = consumers d \<Longrightarrow>
   events d' = events d \<Longrightarrow> represents base d' log cs \<longleftrightarrow> represents base d log cs"
  by (simp add: represents_def event_at_def)

lemma synchronize_fields [simp]:
  "capacity (synchronize_owner_state b d h) = capacity d"
  "consumer_count (synchronize_owner_state b d h) = consumer_count d"
  "events (synchronize_owner_state b d h) = events d"
  "published (synchronize_owner_state b d h) = published d"
  "consumers (synchronize_owner_state b d h) = consumers d"
  by (simp_all add: synchronize_owner_state_def debug_store_def)

lemma represents_synchronize [simp]:
  "represents base (synchronize_owner_state b d h) log cs \<longleftrightarrow> represents base d log cs"
  by (rule represents_cong) simp_all

lemma event_at_synchronize [simp]: "event_at (synchronize_owner_state b d h) s = event_at d s"
  by (simp add: event_at_def)

lemma batch_slots_synchronize [simp]:
  "batch_slots (synchronize_owner_state b d h) s n = batch_slots d s n"
  by (simp add: batch_slots_def)

text \<open>A batch that is neither empty nor too large, from what the check of the room comes to.\<close>

lemma producer_batch_unfold:
  fixes d :: "'ev disruptor" and count :: size_t and writer :: "('ev, 'w) batch_writer" and h :: producer_handle
  defines "nxt \<equiv> handle_next_to_publish h"
  assumes np: "\<not> (b = Debug \<and> \<not> (owner_live h \<and> producer_state d = Handle))" and live: "owner_live h"
    and tmpl: "template_ok (capacity d) n" and cnt: "count \<noteq> 0" "count \<le> capacity d"
    and res: "(if count > handle_available_before_rescan h
        then rescan (capacity d) (consumers d) (consumer_count d) nxt
          (handle_available_before_rescan h) (handle_blocking_consumer h) count
        else (True, handle_available_before_rescan h, handle_blocking_consumer h)) = (room, avail', blk')"
    and run: "write_slots writer (\<lambda>i. event_at d (nxt + of_nat i)) [0..<unat count] (events d, w) = (evs, w')"
  defines "h1 \<equiv> h\<lparr>handle_available_before_rescan := avail', handle_blocking_consumer := blk'\<rparr>"
  shows "producer_try_publish_batch b d h count writer w =
    (if room
     then Inr (True, debug_store b Handle ((debug_store b Handle_publishing d)
            \<lparr>events := evs, published := nxt + count\<rparr>),
          h1\<lparr>handle_next_to_publish := nxt + count, handle_available_before_rescan := avail' - count\<rparr>, w')
     else Inr (False, d, h1, w))"
proof -
  have h1: "(if count > handle_available_before_rescan h
      then producer_refresh_available_capacity d h count else (True, h)) = (room, h1)"
    using res by (auto simp: producer_refresh_available_capacity_def h1_def nxt_def split: if_splits)
  have "(let fi = nxt AND (capacity d - 1); c = contiguous_count (capacity d) fi count in
      write_slots writer (\<lambda>i. i - unat c) [unat c..<unat count]
        (write_slots writer (\<lambda>i. unat fi + i) [0..<unat c] (events d, w))) = (evs, w')"
    using write_two_spans [OF tmpl cnt(2), where first = nxt and writer = writer and s = "(events d, w)"]
      run by (simp add: Let_def)
  then show ?thesis
    unfolding producer_try_publish_batch_def using np cnt h1 live
    by (auto simp: Let_def debug_store_def h1_def nxt_def split: prod.splits)
qed

text \<open>
  A batch through the handle and the same batch on the owner, had the handle been
  destroyed before, give the same answer and the same callback effects, and the handle
  destroyed after its batch leaves the same owner.
\<close>

lemma producer_batch_equiv:
  assumes ok: "producer_ok d h" and state: "b = Debug \<longrightarrow> producer_state d = Handle"
  shows "\<exists>accepted d1 h1 w1.
    producer_try_publish_batch b d h count writer w = Inr (accepted, d1, h1, w1) \<and>
    try_publish_batch b (synchronize_owner_state b d h) count writer w =
      Inr (accepted, synchronize_owner_state b d1 h1, w1) \<and>
    owner_live h1 \<and> producer_state d1 = producer_state d \<and>
    next_to_publish d1 = next_to_publish d \<and>
    available_before_rescan d1 = available_before_rescan d \<and>
    blocking_consumer d1 = blocking_consumer d"
proof -
  let ?s = "synchronize_owner_state b"
  have live: "owner_live h" and cur: "cursor_ok d (handle_next_to_publish h)
      (handle_available_before_rescan h) (handle_blocking_consumer h)"
    using ok by (auto simp: producer_ok_def)
  have tmpl: "template_ok (capacity d) (consumer_count d)" using cur by (simp add: cursor_ok_def ring_ok_def)
  have sync: "next_to_publish (?s d h) = handle_next_to_publish h"
      "available_before_rescan (?s d h) = handle_available_before_rescan h"
      "blocking_consumer (?s d h) = handle_blocking_consumer h"
      "b = Debug \<longrightarrow> producer_state (?s d h) = Idle"
    using live by (auto simp: synchronize_owner_state_def debug_store_def)
  have np: "\<not> (b = Debug \<and> \<not> (owner_live h \<and> producer_state d = Handle))"
    and nd: "\<not> (b = Debug \<and> producer_state (?s d h) \<noteq> Idle)" using live state sync by auto
  show ?thesis
  proof (cases "count = 0 \<or> capacity d < count")
    case True
    then show ?thesis using np nd live
      by (intro exI [of _ "count = 0"] exI [of _ d] exI [of _ h] exI [of _ w])
        (auto simp: producer_try_publish_batch_def try_publish_batch_def)
  next
    case False
    then have cnt: "count \<noteq> 0" "count \<le> capacity d" by auto
    obtain room avail' blk' where res: "(if count > handle_available_before_rescan h
        then rescan (capacity d) (consumers d) (consumer_count d) (handle_next_to_publish h)
          (handle_available_before_rescan h) (handle_blocking_consumer h) count
        else (True, handle_available_before_rescan h, handle_blocking_consumer h)) = (room, avail', blk')"
      by (metis prod_cases3)
    define h1 where "h1 = h\<lparr>handle_available_before_rescan := avail', handle_blocking_consumer := blk'\<rparr>"
    have d1: "(if count > handle_available_before_rescan h
        then refresh_available_capacity (?s d h) count else (True, ?s d h)) = (room, ?s d h1)"
      using res live by (auto simp: refresh_available_capacity_def h1_def sync
          synchronize_owner_state_def debug_store_def split: if_splits)
    have live1: "owner_live h1" using live by (simp add: h1_def)
    show ?thesis
    proof (cases room)
      case False
      obtain evs w' where "write_slots writer (\<lambda>i. event_at d (handle_next_to_publish h + of_nat i)) [0..<unat count]
          (events d, w) = (evs, w')" by fastforce
      from producer_batch_unfold [OF np live tmpl cnt res this]
      have "producer_try_publish_batch b d h count writer w = Inr (False, d, h1, w)"
        using False by (simp add: h1_def)
      moreover have "try_publish_batch b (?s d h) count writer w = Inr (False, ?s d h1, w)"
        unfolding try_publish_batch_def using nd cnt d1 False by (auto simp: Let_def sync)
      ultimately show ?thesis using live1
        by (intro exI [of _ False] exI [of _ d] exI [of _ h1] exI [of _ w]) simp
    next
      case True
      let ?nxt = "handle_next_to_publish h"
      obtain evs w' where run: "write_slots writer (\<lambda>i. event_at d (?nxt + of_nat i)) [0..<unat count]
          (events d, w) = (evs, w')" by fastforce
      define d2 where "d2 = debug_store b Handle ((debug_store b Handle_publishing d)
          \<lparr>events := evs, published := ?nxt + count\<rparr>)"
      define h2 where "h2 = h1\<lparr>handle_next_to_publish := ?nxt + count,
          handle_available_before_rescan := avail' - count\<rparr>"
      have "producer_try_publish_batch b d h count writer w = Inr (True, d2, h2, w')"
        using producer_batch_unfold [OF np live tmpl cnt res run] True by (simp add: d2_def h2_def h1_def)
      moreover have "try_publish_batch b (?s d h) count writer w = Inr (True, ?s d2 h2, w')"
      proof -
        define s1 where "s1 = debug_store b Direct_publishing (?s d h1)"
        have s1: "events s1 = events d" "event_at s1 = event_at d" "next_to_publish s1 = ?nxt"
          "available_before_rescan s1 = avail'"
          using live by (auto simp: s1_def debug_store_def synchronize_owner_state_def h1_def event_at_def)
        have "try_publish_batch b (?s d h) count writer w = Inr (True, debug_store b Idle
            (s1\<lparr>events := evs, next_to_publish := ?nxt + count,
               available_before_rescan := avail' - count, published := ?nxt + count\<rparr>), w')"
          unfolding try_publish_batch_def using nd cnt d1 True run
          by (simp add: Let_def sync s1_def [symmetric] s1)
        also have "debug_store b Idle (s1\<lparr>events := evs, next_to_publish := ?nxt + count,
            available_before_rescan := avail' - count, published := ?nxt + count\<rparr>) = ?s d2 h2"
          using live by (simp add: s1_def d2_def h1_def h2_def debug_store_def synchronize_owner_state_def)
        finally show ?thesis .
      qed
      moreover have "producer_state d2 = producer_state d" "next_to_publish d2 = next_to_publish d"
        "available_before_rescan d2 = available_before_rescan d" "blocking_consumer d2 = blocking_consumer d"
        using state by (auto simp: d2_def debug_store_def)
      moreover have "owner_live h2" using live1 by (simp add: h2_def)
      ultimately show ?thesis
        by (intro exI [of _ True] exI [of _ d2] exI [of _ h2] exI [of _ w']) simp
    qed
  qed
qed

lemma producer_batch_spec:
  assumes ok: "producer_ok d h" and rep: "represents base d log cs"
    and state: "b = Debug \<longrightarrow> producer_state d = Handle"
  shows "\<exists>accepted d' h' w'. producer_try_publish_batch b d h count writer w = Inr (accepted, d', h', w') \<and>
    producer_ok d' h' \<and> capacity d' = capacity d \<and> consumer_count d' = consumer_count d \<and>
    producer_state d' = producer_state d \<and> consumers d' = consumers d \<and>
    (accepted \<longleftrightarrow> room_for (unat (capacity d)) log cs (unat count)) \<and>
    (if accepted
     then let (es, w'') = written writer (batch_slots d (handle_next_to_publish h) (unat count)) 0 w
       in w' = w'' \<and> represents base d' (log @ es) cs
     else w' = w \<and> events d' = events d \<and> published d' = published d \<and> represents base d' log cs)"
proof -
  let ?s = "synchronize_owner_state b"
  have live: "owner_live h" using ok by (simp add: producer_ok_def)
  have dok: "disruptor_ok (?s d h)" using ok producer_ok_synchronize [OF live] by blast
  have drep: "represents base (?s d h) log cs" using rep by simp
  have idle: "b = Debug \<longrightarrow> producer_state (?s d h) = Idle"
    using live by (simp add: synchronize_owner_state_def debug_store_def)
  have nxt: "next_to_publish (?s d h) = handle_next_to_publish h"
    using live by (simp add: synchronize_owner_state_def debug_store_def)
  obtain acc d1 h1 w1 where
    run: "producer_try_publish_batch b d h count writer w = Inr (acc, d1, h1, w1)"
    and dir: "try_publish_batch b (?s d h) count writer w = Inr (acc, ?s d1 h1, w1)"
    and live1: "owner_live h1" and st: "producer_state d1 = producer_state d"
    using producer_batch_equiv [OF ok state, of count writer w] by blast
  note sp = try_publish_batch_spec [OF dok drep idle, of count writer w, unfolded dir nxt, simplified]
  have "producer_ok d1 h1" using sp producer_ok_synchronize [OF live1] by blast
  with sp run st show ?thesis
    by (intro exI [of _ acc] exI [of _ d1] exI [of _ h1] exI [of _ w1], cases acc) auto
qed

text \<open>
  Making a handle and destroying it again leave the owner as it was, and hand the cursor
  over in between.
\<close>

lemma make_producer_ok:
  assumes "disruptor_ok d" "b = Debug \<longrightarrow> producer_state d = Idle"
  obtains d' h where "make_producer b d = Inr (d', h)" "producer_ok d' h"
    "b = Debug \<longrightarrow> producer_state d' = Handle" "synchronize_owner_state b d' h = d"
    "represents base d' log cs \<longleftrightarrow> represents base d log cs"
proof -
  let ?h = "\<lparr>owner_live = True, handle_next_to_publish = next_to_publish d,
    handle_available_before_rescan = available_before_rescan d,
    handle_blocking_consumer = blocking_consumer d\<rparr>"
  have "make_producer b d = Inr (debug_store b Handle d, ?h)"
    using assms(2) by (simp add: make_producer_def)
  moreover have "producer_ok (debug_store b Handle d) ?h"
    using assms(1) by (simp add: producer_ok_def disruptor_ok_def cursor_ok_def ring_ok_def debug_store_def)
  moreover have "synchronize_owner_state b (debug_store b Handle d) ?h = d"
    using assms(2) by (cases d) (simp add: synchronize_owner_state_def debug_store_def)
  moreover have "represents base (debug_store b Handle d) log cs \<longleftrightarrow> represents base d log cs"
    by (rule represents_cong) (simp_all add: debug_store_def)
  ultimately show ?thesis by (intro that [of "debug_store b Handle d" ?h]) (auto simp: debug_store_def)
qed

section \<open>The consumer handle against the stream\<close>

definition consumer_handle_ok :: "'ev disruptor \<Rightarrow> consumer_handle \<Rightarrow> bool" where
  "consumer_handle_ok d c \<longleftrightarrow> consumer_owner_live c \<and> handle_index c < consumer_count d \<and>
     next_position c = consumers d ! handle_index c \<and>
     unat (cached_published_position c - next_position c) \<le> unat (published d - next_position c)"

lemma make_consumer_ok: "i < consumer_count d \<Longrightarrow> consumer_handle_ok d (make_consumer d i)"
  by (simp add: consumer_handle_ok_def make_consumer_def)

text \<open>How many events a handle offers: the rest of its cached range, or all there are once it is used up.\<close>

definition handle_offer :: "consumer_handle \<Rightarrow> 'ev list \<Rightarrow> nat list \<Rightarrow> nat" where
  "handle_offer c log cs =
     (let seen = unat (cached_published_position c - next_position c)
      in if seen = 0 then length log - cs ! handle_index c else seen)"

lemma consumer_consume_unfold:
  fixes d :: "'ev disruptor" and max_count :: size_t and c :: consumer_handle
  assumes live: "max_count \<noteq> 0" "consumer_owner_live c" and tmpl: "template_ok (capacity d) n"
  defines "c1 \<equiv> (if cached_published_position c = next_position c
    then c\<lparr>cached_published_position := published d\<rparr> else c)"
  defines "avail \<equiv> cached_published_position c1 - next_position c"
  defines "count \<equiv> (if avail < max_count then avail else max_count)"
  assumes avail: "avail \<noteq> 0" and le: "count \<le> capacity d"
  shows "consumer_consume_available d c max_count handler h =
    Inr (count, d\<lparr>consumers := (consumers d)[handle_index c := next_position c + count]\<rparr>,
      c1\<lparr>next_position := next_position c + count\<rparr>,
      read_slots handler (\<lambda>i. event_at d (next_position c + of_nat i)) (next_position c) (events d)
        [0..<unat count] h)"
proof -
  have c1: "next_position c1 = next_position c" by (simp add: c1_def)
  have "consumer_consume_available d c max_count handler h =
    (let first_index = next_position c AND (capacity d - 1);
         contiguous = contiguous_count (capacity d) first_index count;
         h1 = read_slots handler (\<lambda>i. unat first_index + i) (next_position c) (events d) [0..<unat contiguous] h;
         h2 = read_slots handler (\<lambda>i. i - unat contiguous) (next_position c) (events d)
                [unat contiguous..<unat count] h1
     in Inr (count, d\<lparr>consumers := (consumers d)[handle_index c := next_position c + count]\<rparr>,
          c1\<lparr>next_position := next_position c + count\<rparr>, h2))"
    using live avail
    by (simp add: consumer_consume_available_def c1_def [symmetric] c1 avail_def count_def
        Let_def [of c1] Let_def [of "_ - _"] Let_def [of "if _ then _ else _"] Let_def [of "next_position _"])
  also have "\<dots> = Inr (count, d\<lparr>consumers := (consumers d)[handle_index c := next_position c + count]\<rparr>,
      c1\<lparr>next_position := next_position c + count\<rparr>,
      read_slots handler (\<lambda>i. event_at d (next_position c + of_nat i)) (next_position c) (events d)
        [0..<unat count] h)"
    using read_two_spans [OF tmpl le, where first = "next_position c" and handler = handler
        and evs = "events d" and h = h]
    by (simp add: Let_def)
  finally show ?thesis .
qed

lemma consumer_consume_idle:
  assumes "consumer_owner_live c"
    and "max_count = 0 \<or> cached_published_position c = next_position c \<and> published d = next_position c"
  shows "\<exists>c'. consumer_consume_available d c max_count handler h = Inr (0, d, c', h) \<and>
    next_position c' = next_position c \<and> handle_index c' = handle_index c \<and> consumer_owner_live c' \<and>
    (cached_published_position c' = cached_published_position c \<or> cached_published_position c' = published d)"
  using assms by (auto simp: consumer_consume_available_def Let_def)

lemma consumer_consume_spec:
  fixes d :: "'ev disruptor" and max_count :: size_t and cs :: "nat list" and log :: "'ev list"
    and c :: consumer_handle
  assumes ok: "ring_ok d" and rep: "represents base d log cs" and cok: "consumer_handle_ok d c"
  defines "i \<equiv> handle_index c"
  defines "n \<equiv> min (unat max_count) (handle_offer c log cs)"
  defines "d' \<equiv> d\<lparr>consumers := (consumers d)[i := consumers d ! i + of_nat n]\<rparr>"
  shows "\<exists>c'. consumer_consume_available d c max_count handler h =
      Inr (of_nat n, d', c', deliver handler (base + of_nat (cs ! i)) (next_events log cs i n) h) \<and>
      consumer_handle_ok d' c' \<and> handle_index c' = i"
    and "represents base d' log (cs[i := cs ! i + n])"
    and "cs ! i + n \<le> length log"
proof -
  have i: "i < consumer_count d" and live: "consumer_owner_live c" and pos: "next_position c = consumers d ! i"
    and cached: "unat (cached_published_position c - next_position c) \<le> unat (published d - next_position c)"
    using cok by (auto simp: consumer_handle_ok_def i_def)
  have len: "i < length cs" using ok i represents_consumers [OF rep] by (simp add: ring_ok_def)
  have i_cons: "i < length (consumers d)" using ok i by (simp add: ring_ok_def)
  have at: "consumers d ! i = base + of_nat (cs ! i)" using rep len by (simp add: represents_def)
  have in_cs: "cs ! i \<in> set cs" using len by simp
  have le: "cs ! i \<le> length log" and lag_cap: "length log \<le> cs ! i + unat (capacity d)"
    using rep in_cs by (auto simp: represents_def)
  have lag: "unat (published d - next_position c) = length log - cs ! i"
    using represents_lag [OF rep in_cs] by (simp add: pos at)
  define c1 where "c1 = (if cached_published_position c = next_position c
    then c\<lparr>cached_published_position := published d\<rparr> else c)"
  define avail where "avail = cached_published_position c1 - next_position c"
  define count where "count = (if avail < max_count then avail else max_count)"
  have offer: "unat avail = handle_offer c log cs"
    using lag by (auto simp: avail_def c1_def handle_offer_def i_def unat_eq_zero Let_def)
  have offer_le: "handle_offer c log cs \<le> length log - cs ! i"
    using cached lag by (auto simp: handle_offer_def i_def Let_def)
  then show n_le: "cs ! i + n \<le> length log" using le by (simp add: n_def)
  note cr = consume_represents [OF ok rep i n_le]
  show "represents base d' log (cs[i := cs ! i + n])" unfolding d'_def by (rule cr(2))
  have c1: "next_position c1 = next_position c" "handle_index c1 = i" "consumer_owner_live c1"
    using live by (auto simp: c1_def i_def)
  have avail_le: "unat avail \<le> unat (published d - next_position c)"
    using cached by (simp add: avail_def c1_def)
  show "\<exists>c'. consumer_consume_available d c max_count handler h =
      Inr (of_nat n, d', c', deliver handler (base + of_nat (cs ! i)) (next_events log cs i n) h) \<and>
      consumer_handle_ok d' c' \<and> handle_index c' = i"
  proof (cases "max_count = 0 \<or> avail = 0")
    case True
    then have n0: "n = 0" using offer by (auto simp: n_def)
    then have d': "d' = d" by (simp add: d'_def)
    have "max_count = 0 \<or> cached_published_position c = next_position c \<and> published d = next_position c"
      using True by (auto simp: avail_def c1_def split: if_splits)
    from consumer_consume_idle [OF live this, of handler h] obtain c' where
      "consumer_consume_available d c max_count handler h = Inr (0, d, c', h)" and
      c': "next_position c' = next_position c" "handle_index c' = handle_index c" "consumer_owner_live c'"
        "cached_published_position c' = cached_published_position c \<or> cached_published_position c' = published d"
      by blast
    moreover have "consumer_handle_ok d c'" using cok c' by (auto simp: consumer_handle_ok_def)
    ultimately show ?thesis by (simp add: d' n0 next_events_def i_def)
  next
    case False
    have cnt: "unat count = n" using offer by (simp add: count_def n_def unat_min64 min.commute)
    then have cnt': "of_nat n = count" by (simp flip: cnt)
    have "n \<le> unat (capacity d)" using n_le lag_cap by linarith
    then have count_le: "count \<le> capacity d" using cnt by (simp add: word_le_nat_alt)
    define c' where "c' = c1\<lparr>next_position := next_position c + count\<rparr>"
    have reads: "read_slots handler (\<lambda>j. event_at d (next_position c + of_nat j)) (next_position c) (events d)
        [0..<unat count] h = deliver handler (base + of_nat (cs ! i)) (next_events log cs i n) h"
      using read_slots_upt [of handler _ _ _ 0] cr(1) by (simp add: pos at cnt)
    have "consumer_consume_available d c max_count handler h =
        Inr (of_nat n, d', c', deliver handler (base + of_nat (cs ! i)) (next_events log cs i n) h)"
      using consumer_consume_unfold [OF _ live ring_ok_template [OF ok], of max_count handler h,
          folded c1_def, folded avail_def, folded count_def] False count_le
      by (simp add: reads [unfolded pos i_def] cnt' c'_def d'_def pos i_def)
    moreover have "consumer_handle_ok d' c'"
    proof -
      have "count \<le> avail" by (simp add: count_def not_less)
      then have "unat (avail - count) = unat avail - unat count"
        and "unat (published d - next_position c - count) = unat (published d - next_position c) - unat count"
        using avail_le by (simp_all add: unat_sub word_le_nat_alt)
      then have "unat (avail - count) \<le> unat (published d - next_position c - count)"
        using avail_le by linarith
      then show ?thesis using c1 i i_cons
        by (simp add: consumer_handle_ok_def c'_def d'_def cnt' pos avail_def diff_diff_eq)
    qed
    ultimately show ?thesis by (intro exI [of _ c']) (simp add: c'_def c1(2))
  qed
qed

lemma consumer_handle_next:
  assumes "ring_ok d" "represents base d log cs" "consumer_handle_ok d c" "handle_index c = i"
  shows "\<exists>n d' c'. consumer_consume_available d c max_count handler h =
      Inr (of_nat n, d', c', deliver handler (base + of_nat (cs ! i)) (take n (drop (cs ! i) log)) h) \<and>
    d' = d\<lparr>consumers := (consumers d)[i := consumers d ! i + of_nat n]\<rparr> \<and>
    n \<le> unat max_count \<and> cs ! i + n \<le> length log \<and>
    (n = 0 \<longleftrightarrow> max_count = 0 \<or> cs ! i = length log) \<and>
    represents base d' log (cs[i := cs ! i + n]) \<and> consumer_handle_ok d' c' \<and> handle_index c' = i"
proof -
  let ?n = "min (unat max_count) (handle_offer c log cs)"
  note sp1 = consumer_consume_spec(1) [OF assms(1-3), where max_count = max_count and handler = handler and h = h,
      unfolded assms(4)]
  note sp2 = consumer_consume_spec(2,3) [OF assms(1-3), where max_count = max_count, unfolded assms(4)]
  have i: "i < consumer_count d" using assms(3,4) by (simp add: consumer_handle_ok_def)
  have len: "length cs = consumer_count d"
    using represents_consumers [OF assms(2)] assms(1) by (simp add: ring_ok_def)
  have le: "cs ! i \<le> length log"
    using assms(2) i len by (auto simp: represents_def)
  have zero: "?n = 0 \<longleftrightarrow> max_count = 0 \<or> cs ! i = length log"
  proof (cases "unat (cached_published_position c - next_position c) = 0")
    case True
    then have "handle_offer c log cs = length log - cs ! i" using assms(4) by (simp add: handle_offer_def)
    moreover have "unat max_count = 0 \<longleftrightarrow> max_count = 0" by (simp add: unsigned_eq_0_iff)
    ultimately show ?thesis using le by linarith
  next
    case False
    then have "0 < unat (published d - next_position c)"
      using assms(3) by (auto simp: consumer_handle_ok_def)
    moreover have "consumers d ! i = base + of_nat (cs ! i)" using assms(2) i len by (simp add: represents_def)
    ultimately have "cs ! i \<noteq> length log"
      using assms(2-4) by (auto simp: represents_def consumer_handle_ok_def)
    then show ?thesis using False by (auto simp: handle_offer_def min_def unsigned_eq_0_iff)
  qed
  show ?thesis using sp1 sp2 zero
    by (intro exI [of _ ?n] exI [of _ "d\<lparr>consumers := (consumers d)[i := consumers d ! i + of_nat ?n]\<rparr>"])
      (simp add: next_events_def)
qed

end
