(* ===== verification/Disruptor_Sessions.thy ===== *)
theory Disruptor_Sessions
  imports Disruptor_Handles
begin

text \<open>
  The class as its clients use it: any sequence of the public operations that keeps the
  contract of the module's README. At any time at most one publication path is live, the
  direct methods or one producer handle, and at most one consumption path per consumer index,
  the indexed method or one consumer handle; handles are opened, moved and closed in any order.
  Debug builds assert the publication half of the contract; the class does not check the
  consumption half, and \<open>Disruptor_Properties\<close> shows what breaking it does. The step relation
  has one rule per public operation, with the contract as its premises. Two components of the
  state are ghosts, which no rule reads: the log of published events, and what each
  consumer's handler has been given.
\<close>

unbundle bit_operations_syntax

section \<open>Sessions\<close>

record ('ev, 'w) session =
  object :: "'ev disruptor"
  producer :: "producer_handle option"
  handles :: "nat \<Rightarrow> consumer_handle option"
  writer_state :: 'w
  history :: "'ev list"
  received :: "('ev \<times> u64) list list"

definition record_event :: "'ev \<Rightarrow> u64 \<Rightarrow> ('ev \<times> u64) list \<Rightarrow> ('ev \<times> u64) list" where
  "record_event e s h = h @ [(e, s)]"

definition new_session :: "size_t \<Rightarrow> nat \<Rightarrow> 'ev \<Rightarrow> u64 \<Rightarrow> 'w \<Rightarrow> ('ev, 'w) session" where
  "new_session cap n dflt p w =
     \<lparr>object = single_producer_disruptor cap n dflt p, producer = None, handles = Map.empty,
      writer_state = w, history = [], received = replicate n []\<rparr>"

text \<open>The events a batch adds to the log.\<close>

definition batch_events :: "'ev disruptor \<Rightarrow> u64 \<Rightarrow> size_t \<Rightarrow> ('ev, 'w) batch_writer \<Rightarrow> 'w \<Rightarrow> 'ev list" where
  "batch_events d first count writer w = fst (written writer (batch_slots d first (unat count)) 0 w)"

inductive session_step :: "build \<Rightarrow> ('ev, 'w) session \<Rightarrow> ('ev, 'w) session \<Rightarrow> bool" for b where
  publish_direct:
    "producer s = None \<Longrightarrow>
     try_publish_batch b (object s) count writer (writer_state s) = Inr (accepted, d', w') \<Longrightarrow>
     session_step b s (s\<lparr>object := d', writer_state := w',
       history := history s @ (if accepted
         then batch_events (object s) (next_to_publish (object s)) count writer (writer_state s) else [])\<rparr>)"
| open_producer:
    "producer s = None \<Longrightarrow> make_producer b (object s) = Inr (d', h) \<Longrightarrow>
     session_step b s (s\<lparr>object := d', producer := Some h\<rparr>)"
| move_handle:
    "producer s = Some h \<Longrightarrow> move_producer b (object s) h = Inr (h', old) \<Longrightarrow>
     session_step b s (s\<lparr>producer := Some h'\<rparr>)"
| publish_handle:
    "producer s = Some h \<Longrightarrow>
     producer_try_publish_batch b (object s) h count writer (writer_state s) = Inr (accepted, d', h', w') \<Longrightarrow>
     session_step b s (s\<lparr>object := d', producer := Some h', writer_state := w',
       history := history s @ (if accepted
         then batch_events (object s) (handle_next_to_publish h) count writer (writer_state s) else [])\<rparr>)"
| close_producer:
    "producer s = Some h \<Longrightarrow> destroy_producer b (object s) h = Inr d' \<Longrightarrow>
     session_step b s (s\<lparr>object := d', producer := None\<rparr>)"
| consume_direct:
    "i < consumer_count (object s) \<Longrightarrow> handles s i = None \<Longrightarrow>
     consume_available (object s) i max_count record_event (received s ! i) = (n, d', r) \<Longrightarrow>
     session_step b s (s\<lparr>object := d', received := (received s)[i := r]\<rparr>)"
| open_consumer:
    "i < consumer_count (object s) \<Longrightarrow> handles s i = None \<Longrightarrow>
     session_step b s (s\<lparr>handles := (handles s)(i \<mapsto> make_consumer (object s) i)\<rparr>)"
| move_consumer_handle:
    "handles s i = Some c \<Longrightarrow> move_consumer c = (c', old) \<Longrightarrow>
     session_step b s (s\<lparr>handles := (handles s)(i \<mapsto> c')\<rparr>)"
| consume_handle:
    "handles s i = Some c \<Longrightarrow>
     consumer_consume_available (object s) c max_count record_event (received s ! i) = Inr (n, d', c', r) \<Longrightarrow>
     session_step b s (s\<lparr>object := d', handles := (handles s)(i \<mapsto> c'),
       received := (received s)[i := r]\<rparr>)"
| close_consumer:
    "session_step b s (s\<lparr>handles := (handles s)(i := None)\<rparr>)"

inductive reachable :: "build \<Rightarrow> ('ev, 'w) session \<Rightarrow> ('ev, 'w) session \<Rightarrow> bool" for b s0 where
  start: "reachable b s0 s0"
| step: "reachable b s0 s \<Longrightarrow> session_step b s t \<Longrightarrow> reachable b s0 t"

section \<open>The invariant\<close>

definition taken :: "('ev, 'w) session \<Rightarrow> nat list" where
  "taken s = map length (received s)"

definition session_ok :: "build \<Rightarrow> u64 \<Rightarrow> ('ev, 'w) session \<Rightarrow> bool" where
  "session_ok b base s \<longleftrightarrow>
     ring_ok (object s) \<and> represents base (object s) (history s) (taken s) \<and>
     (case producer s of
        None \<Rightarrow> disruptor_ok (object s) \<and> (b = Debug \<longrightarrow> producer_state (object s) = Idle)
      | Some h \<Rightarrow> producer_ok (object s) h \<and> (b = Debug \<longrightarrow> producer_state (object s) = Handle)) \<and>
     (\<forall>i c. handles s i = Some c \<longrightarrow> consumer_handle_ok (object s) c \<and> handle_index c = i) \<and>
     (\<forall>r \<in> set (received s). r = map (\<lambda>k. (history s ! k, base + of_nat k)) [0..<length r])"

lemma deliver_record_event:
  "deliver record_event s es r = r @ map (\<lambda>j. (es ! j, s + of_nat j)) [0..<length es]"
proof (induction es arbitrary: s r)
  case Nil
  then show ?case by simp
next
  case (Cons e es)
  have "deliver record_event s (e # es) r =
      record_event e s r @ map (\<lambda>j. (es ! j, s + 1 + of_nat j)) [0..<length es]"
    by (simp add: Cons.IH)
  also have "\<dots> = r @ map (\<lambda>j. ((e # es) ! j, s + of_nat j)) (0 # map Suc [0..<length es])"
    by (simp add: record_event_def algebra_simps)
  also have "0 # map Suc [0..<length es] = [0..<length (e # es)]"
    by (simp add: upt_conv_Cons map_Suc_upt del: upt_Suc)
  finally show ?case .
qed

text \<open>What consumer \<open>i\<close> holds after it has been given the next \<open>n\<close> events of the log.\<close>

lemma received_extend:
  assumes "r = map (\<lambda>k. (log ! k, base + of_nat k)) [0..<length r]"
    and "cs ! i = length r" "length r + n \<le> length log"
  shows "deliver record_event (base + of_nat (cs ! i)) (next_events log cs i n) r =
    map (\<lambda>k. (log ! k, base + of_nat k)) [0..<length r + n]"
proof -
  have "map (\<lambda>j. (next_events log cs i n ! j, base + of_nat (cs ! i) + of_nat j))
      [0..<length (next_events log cs i n)] =
    map (\<lambda>k. (log ! k, base + of_nat k)) [length r..<length r + n]"
    using assms(2,3) by (intro nth_equalityI) (auto simp: next_events_def add.assoc)
  then have "deliver record_event (base + of_nat (cs ! i)) (next_events log cs i n) r =
      r @ map (\<lambda>k. (log ! k, base + of_nat k)) [length r..<length r + n]"
    by (simp only: deliver_record_event)
  also have "\<dots> = map (\<lambda>k. (log ! k, base + of_nat k)) ([0..<length r] @ [length r..<length r + n])"
  proof -
    have "map (\<lambda>k. (log ! k, base + of_nat k)) [0..<length r] = r" using assms(1) by (rule sym)
    then show ?thesis by (simp only: map_append)
  qed
  finally show ?thesis by (simp only: upt_add_eq_append [OF le0])
qed

text \<open>Publishing never takes room from a consumer's cached range.\<close>

lemma consumer_handle_ok_publish:
  assumes ok: "consumer_handle_ok d c" and ring: "ring_ok d"
    and rep: "represents base d log cs" and rep': "represents base d' (log @ es) cs"
    and same: "consumers d' = consumers d" "consumer_count d' = consumer_count d"
  shows "consumer_handle_ok d' c"
proof -
  let ?i = "handle_index c"
  have i: "?i < length cs" using ok ring represents_consumers [OF rep]
    by (simp add: consumer_handle_ok_def ring_ok_def)
  then have at: "consumers d ! ?i = base + of_nat (cs ! ?i)" and in_cs: "cs ! ?i \<in> set cs"
    using rep by (simp_all add: represents_def)
  have "unat (published d - consumers d ! ?i) \<le> unat (published d' - consumers d ! ?i)"
    using represents_lag [OF rep in_cs] represents_lag [OF rep' in_cs] by (simp add: at)
  then show ?thesis using ok same by (auto simp: consumer_handle_ok_def)
qed

lemma consumer_handle_ok_cong:
  "published d' = published d \<Longrightarrow> consumers d' = consumers d \<Longrightarrow> consumer_count d' = consumer_count d \<Longrightarrow>
   consumer_handle_ok d' c \<longleftrightarrow> consumer_handle_ok d c"
  by (simp add: consumer_handle_ok_def)

text \<open>A consumer's step leaves the handles of the other consumers alone.\<close>

lemma consumer_handle_ok_other:
  "consumer_handle_ok d c \<Longrightarrow> handle_index c \<noteq> i \<Longrightarrow>
   consumer_handle_ok (d\<lparr>consumers := (consumers d)[i := x]\<rparr>) c"
  by (auto simp: consumer_handle_ok_def)

lemma new_session_ok:
  "template_ok cap n \<Longrightarrow> session_ok b p (new_session cap n dflt p w)"
  using new_disruptor_ok [of cap n dflt p] new_disruptor_represents [of p cap n dflt]
  by (auto simp: session_ok_def new_session_def taken_def disruptor_ok_def cursor_ok_def
      single_producer_disruptor_def)

section \<open>Every operation keeps the invariant\<close>

lemma taken_length: "length (taken s) = length (received s)"
  by (simp add: taken_def)

lemma received_append:
  assumes "session_ok b base s" "\<forall>r \<in> set (received s). length r \<le> length (history s)"
  shows "\<forall>r \<in> set (received s).
    r = map (\<lambda>k. ((history s @ es) ! k, base + of_nat k)) [0..<length r]"
proof
  fix r assume r: "r \<in> set (received s)"
  then have "r = map (\<lambda>k. (history s ! k, base + of_nat k)) [0..<length r]"
    using assms(1) by (simp add: session_ok_def)
  also have "\<dots> = map (\<lambda>k. ((history s @ es) ! k, base + of_nat k)) [0..<length r]"
    using assms(2) r by (auto simp: nth_append)
  finally show "r = map (\<lambda>k. ((history s @ es) ! k, base + of_nat k)) [0..<length r]" .
qed

lemma session_received_le:
  assumes "session_ok b base s" "r \<in> set (received s)"
  shows "length r \<le> length (history s)"
  using assms by (auto simp: session_ok_def represents_def taken_def)

lemma session_publish:
  assumes ok: "session_ok b base s" and rep: "represents base d' (history s @ es) (taken s)"
    and same: "capacity d' = capacity (object s)" "consumer_count d' = consumer_count (object s)"
      "consumers d' = consumers (object s)" and ring: "ring_ok d'"
    and prod: "case p of None \<Rightarrow> disruptor_ok d' \<and> (b = Debug \<longrightarrow> producer_state d' = Idle)
      | Some h \<Rightarrow> producer_ok d' h \<and> (b = Debug \<longrightarrow> producer_state d' = Handle)"
  shows "session_ok b base (s\<lparr>object := d', producer := p, writer_state := w', history := history s @ es\<rparr>)"
proof -
  have rep0: "represents base (object s) (history s) (taken s)" and ring0: "ring_ok (object s)"
    using ok by (simp_all add: session_ok_def)
  have "consumer_handle_ok d' c \<and> handle_index c = i" if "handles s i = Some c" for i c
    using ok that consumer_handle_ok_publish [OF _ ring0 rep0 rep same(3,2)]
    by (auto simp: session_ok_def)
  moreover have "\<forall>r \<in> set (received s). r = map (\<lambda>k. ((history s @ es) ! k, base + of_nat k)) [0..<length r]"
    using received_append [OF ok] session_received_le [OF ok] by blast
  moreover have "taken (s\<lparr>object := d', producer := p, writer_state := w', history := history s @ es\<rparr>) = taken s"
    by (simp add: taken_def)
  ultimately show ?thesis using rep ring prod by (cases p) (simp_all add: session_ok_def)
qed

lemma producer_ok_consume:
  assumes "producer_ok d h" "i < consumer_count d" "unat n \<le> unat (published d - consumers d ! i)"
  shows "producer_ok (d\<lparr>consumers := (consumers d)[i := consumers d ! i + n]\<rparr>) h"
  using assms consume_cursor_ok [of d _ _ _ i n] by (auto simp: producer_ok_def cursor_ok_def)

lemma disruptor_ok_consume:
  assumes "disruptor_ok d" "i < consumer_count d" "unat n \<le> unat (published d - consumers d ! i)"
  shows "disruptor_ok (d\<lparr>consumers := (consumers d)[i := consumers d ! i + n]\<rparr>)"
  using assms consume_cursor_ok [of d "next_to_publish d" _ _ i n]
  by (auto simp: disruptor_ok_def cursor_ok_def)

text \<open>A consumer that has been given its next \<open>n\<close> events, whichever path gave them.\<close>

lemma session_consume:
  assumes ok: "session_ok b base s" and i: "i < consumer_count (object s)"
    and n: "taken s ! i + n \<le> length (history s)"
    and hs: "\<forall>c. hs i = Some c \<longrightarrow> consumer_handle_ok d' c \<and> handle_index c = i"
      "\<forall>j. j \<noteq> i \<longrightarrow> hs j = handles s j"
  defines "d \<equiv> object s"
  assumes d': "d' = d\<lparr>consumers := (consumers d)[i := consumers d ! i + of_nat n]\<rparr>"
    and rep': "represents base d' (history s) ((taken s)[i := taken s ! i + n])"
  shows "session_ok b base (s\<lparr>object := d', handles := hs, received := (received s)[i :=
    deliver record_event (base + of_nat (taken s ! i)) (next_events (history s) (taken s) i n)
      (received s ! i)]\<rparr>)"
proof -
  let ?r = "received s ! i"
  let ?r' = "deliver record_event (base + of_nat (taken s ! i)) (next_events (history s) (taken s) i n) ?r"
  have ring: "ring_ok d" and rep: "represents base d (history s) (taken s)"
    using ok by (simp_all add: session_ok_def d_def)
  have len: "i < length (received s)"
    using ring i represents_consumers [OF rep] by (simp add: ring_ok_def taken_length d_def)
  have t: "taken s ! i = length ?r" using len by (simp add: taken_def)
  have r: "?r = map (\<lambda>k. (history s ! k, base + of_nat k)) [0..<length ?r]"
    using ok len by (simp add: session_ok_def)
  have r': "?r' = map (\<lambda>k. (history s ! k, base + of_nat k)) [0..<length ?r + n]"
    by (rule received_extend [OF r t]) (use n t in simp)
  have len': "length ?r' = taken s ! i + n" by (subst r') (simp add: t)
  have "map length ((received s)[i := ?r']) = (map length (received s))[i := length ?r']"
    by (rule map_update)
  then have taken': "map length ((received s)[i := ?r']) = (taken s)[i := taken s ! i + n]"
    by (simp only: len' taken_def [symmetric])
  have lag: "unat (published d - consumers d ! i) = length (history s) - taken s ! i"
  proof -
    have "consumers d ! i = base + of_nat (taken s ! i)" "taken s ! i \<in> set (taken s)"
      using rep len by (simp_all add: represents_def taken_length)
    then show ?thesis using represents_lag [OF rep] by simp
  qed
  then have lag_lt: "length (history s) - taken s ! i < 2 ^ 64" by (metis unat_lt_2p64)
  then have n_le: "unat (of_nat n :: u64) \<le> unat (published d - consumers d ! i)"
    using n lag by (simp add: unat_of_nat64)
  have ring': "ring_ok d'" using ring by (simp add: d' ring_ok_def)
  have i': "i < consumer_count d" using i by (simp add: d_def)
  have prod: "case producer s of None \<Rightarrow> disruptor_ok d' \<and> (b = Debug \<longrightarrow> producer_state d' = Idle)
      | Some h \<Rightarrow> producer_ok d' h \<and> (b = Debug \<longrightarrow> producer_state d' = Handle)"
    using ok disruptor_ok_consume [OF _ i' n_le] producer_ok_consume [OF _ i' n_le]
    by (auto simp: session_ok_def d' d_def split: option.splits)
  have hsok: "consumer_handle_ok d' c \<and> handle_index c = j" if "hs j = Some c" for j c
  proof (cases "j = i")
    case True
    then show ?thesis using hs(1) that by blast
  next
    case False
    then have "handles s j = Some c" using hs(2) that by simp
    then have "consumer_handle_ok d c" "handle_index c = j" using ok by (auto simp: session_ok_def d_def)
    then show ?thesis using False unfolding d' by (auto intro!: consumer_handle_ok_other)
  qed
  have "r = map (\<lambda>k. (history s ! k, base + of_nat k)) [0..<length r]"
    if "r \<in> set ((received s)[i := ?r'])" for r
  proof -
    have "r = ?r' \<or> r \<in> set (received s)" using that set_update_subset_insert by fastforce
    then show ?thesis using r' ok by (auto simp: session_ok_def)
  qed
  then show ?thesis using ring' rep' prod hsok taken'
    by (cases "producer s") (simp_all add: session_ok_def taken_def)
qed

lemma session_ring_ok: "session_ok b base s \<Longrightarrow> ring_ok (object s)"
  and session_represents: "session_ok b base s \<Longrightarrow> represents base (object s) (history s) (taken s)"
  and session_handle: "session_ok b base s \<Longrightarrow> handles s i = Some c \<Longrightarrow>
    consumer_handle_ok (object s) c \<and> handle_index c = i"
  by (simp_all add: session_ok_def)

lemma session_direct:
  "session_ok b base s \<Longrightarrow> producer s = None \<Longrightarrow>
   disruptor_ok (object s) \<and> (b = Debug \<longrightarrow> producer_state (object s) = Idle)"
  by (simp add: session_ok_def)

lemma session_producer:
  "session_ok b base s \<Longrightarrow> producer s = Some h \<Longrightarrow>
   producer_ok (object s) h \<and> (b = Debug \<longrightarrow> producer_state (object s) = Handle)"
  by (simp add: session_ok_def)

lemma step_publish_direct:
  assumes ok: "session_ok b base s" and p: "producer s = None"
    and run: "try_publish_batch b (object s) count writer (writer_state s) = Inr (accepted, d', w')"
  shows "session_ok b base (s\<lparr>object := d', writer_state := w',
       history := history s @ (if accepted
         then batch_events (object s) (next_to_publish (object s)) count writer (writer_state s) else [])\<rparr>)"
proof -
  let ?es = "if accepted
    then batch_events (object s) (next_to_publish (object s)) count writer (writer_state s) else []"
  have dok: "disruptor_ok (object s)" and idle: "b = Debug \<longrightarrow> producer_state (object s) = Idle"
    using session_direct [OF ok p] by auto
  note sp = try_publish_batch_spec [OF dok session_represents [OF ok] idle, of count writer "writer_state s",
      unfolded run, simplified]
  have "represents base d' (history s @ ?es) (taken s)"
    using sp by (cases accepted) (auto simp: batch_events_def case_prod_unfold Let_def)
  moreover have "ring_ok d'" using sp by (simp add: disruptor_ok_def cursor_ok_def)
  ultimately have "session_ok b base (s\<lparr>object := d', producer := None, writer_state := w',
      history := history s @ ?es\<rparr>)"
    by (intro session_publish [OF ok]) (use sp idle in auto)
  moreover have "s\<lparr>object := d', producer := None, writer_state := w', history := history s @ ?es\<rparr> =
      s\<lparr>object := d', writer_state := w', history := history s @ ?es\<rparr>" using p by (cases s) simp
  ultimately show ?thesis by simp
qed

lemma step_publish_handle:
  assumes ok: "session_ok b base s" and p: "producer s = Some h"
    and run: "producer_try_publish_batch b (object s) h count writer (writer_state s) =
      Inr (accepted, d', h', w')"
  shows "session_ok b base (s\<lparr>object := d', producer := Some h', writer_state := w',
       history := history s @ (if accepted
         then batch_events (object s) (handle_next_to_publish h) count writer (writer_state s) else [])\<rparr>)"
proof -
  let ?es = "if accepted
    then batch_events (object s) (handle_next_to_publish h) count writer (writer_state s) else []"
  have pok: "producer_ok (object s) h" and st: "b = Debug \<longrightarrow> producer_state (object s) = Handle"
    using session_producer [OF ok p] by auto
  note sp = producer_batch_spec [OF pok session_represents [OF ok] st, of count writer "writer_state s",
      unfolded run, simplified]
  have "represents base d' (history s @ ?es) (taken s)"
    using sp by (cases accepted) (auto simp: batch_events_def case_prod_unfold Let_def)
  moreover have "ring_ok d'" using sp by (simp add: producer_ok_def cursor_ok_def)
  ultimately show ?thesis
    by (intro session_publish [OF ok]) (use sp st in auto)
qed

lemma step_open_producer:
  assumes ok: "session_ok b base s" and p: "producer s = None"
    and run: "make_producer b (object s) = Inr (d', h)"
  shows "session_ok b base (s\<lparr>object := d', producer := Some h\<rparr>)"
proof -
  have dok: "disruptor_ok (object s)" and idle: "b = Debug \<longrightarrow> producer_state (object s) = Idle"
    using session_direct [OF ok p] by auto
  from make_producer_ok [OF dok idle] run
  have new: "producer_ok d' h" "b = Debug \<longrightarrow> producer_state d' = Handle"
    by (metis Inr_inject Pair_inject)+
  have same: "capacity d' = capacity (object s)" "consumer_count d' = consumer_count (object s)"
      "consumers d' = consumers (object s)" "published d' = published (object s)" "events d' = events (object s)"
    using run by (auto simp: make_producer_def debug_store_def split: if_splits)
  have rep: "represents base d' (history s @ []) (taken s)"
    using session_represents [OF ok] represents_cong [of d' "object s"] same by simp
  have "ring_ok d'" using new(1) by (simp add: producer_ok_def cursor_ok_def)
  then have "session_ok b base (s\<lparr>object := d', producer := Some h, writer_state := writer_state s,
      history := history s @ []\<rparr>)"
    by (intro session_publish [OF ok rep same(1-3)]) (use new in auto)
  then show ?thesis by simp
qed

lemma step_close_producer:
  assumes ok: "session_ok b base s" and p: "producer s = Some h"
    and run: "destroy_producer b (object s) h = Inr d'"
  shows "session_ok b base (s\<lparr>object := d', producer := None\<rparr>)"
proof -
  have pok: "producer_ok (object s) h" using session_producer [OF ok p] by auto
  have d': "d' = synchronize_owner_state b (object s) h"
    using run by (auto simp: destroy_producer_def split: if_splits)
  have live: "owner_live h" using pok by (simp add: producer_ok_def)
  have rep: "represents base d' (history s @ []) (taken s)" using session_represents [OF ok] by (simp add: d')
  have dok: "disruptor_ok d'" using pok by (simp add: d' producer_ok_synchronize [OF live])
  moreover have "b = Debug \<longrightarrow> producer_state d' = Idle"
    using live by (simp add: d' synchronize_owner_state_def debug_store_def)
  moreover have "ring_ok d'" using dok by (simp add: disruptor_ok_def cursor_ok_def)
  ultimately have "session_ok b base (s\<lparr>object := d', producer := None, writer_state := writer_state s,
      history := history s @ []\<rparr>)"
    by (intro session_publish [OF ok rep]) (auto simp: d')
  then show ?thesis by simp
qed

lemma session_taken_le:
  assumes "session_ok b base s" "i < consumer_count (object s)"
  shows "taken s ! i \<le> length (history s)"
proof -
  have "i < length (taken s)"
    using assms represents_consumers [OF session_represents [OF assms(1)]] session_ring_ok [OF assms(1)]
    by (simp add: ring_ok_def)
  then show ?thesis using session_represents [OF assms(1)] by (simp add: represents_def)
qed

lemma step_consume_direct:
  assumes ok: "session_ok b base s" and i: "i < consumer_count (object s)" "handles s i = None"
    and run: "consume_available (object s) i max_count record_event (received s ! i) = (n, d', r)"
  shows "session_ok b base (s\<lparr>object := d', received := (received s)[i := r]\<rparr>)"
proof -
  let ?m = "min (unat max_count) (length (history s) - taken s ! i)"
  note sp = consume_available_spec(1) [OF session_ring_ok [OF ok] session_represents [OF ok] i(1),
        where max_count = max_count and handler = record_event and h = "received s ! i"]
      consume_available_spec(2) [OF session_ring_ok [OF ok] session_represents [OF ok] i(1),
        where max_count = max_count]
  have eq: "d' = (object s)\<lparr>consumers := (consumers (object s))[i := consumers (object s) ! i + of_nat ?m]\<rparr>"
    "r = deliver record_event (base + of_nat (taken s ! i)) (next_events (history s) (taken s) i ?m) (received s ! i)"
    using sp(1) run by auto
  have "session_ok b base (s\<lparr>object := d', handles := handles s, received := (received s)[i :=
    deliver record_event (base + of_nat (taken s ! i)) (next_events (history s) (taken s) i ?m)
      (received s ! i)]\<rparr>)"
    by (rule session_consume [OF ok i(1)])
      (use sp(2) eq(1) i(2) session_taken_le [OF ok i(1)] in auto)
  then show ?thesis by (simp add: eq(2))
qed

lemma step_consume_handle:
  assumes ok: "session_ok b base s" and c: "handles s i = Some c"
    and run: "consumer_consume_available (object s) c max_count record_event (received s ! i) = Inr (n, d', c', r)"
  shows "session_ok b base (s\<lparr>object := d', handles := (handles s)(i \<mapsto> c'), received := (received s)[i := r]\<rparr>)"
proof -
  have cok: "consumer_handle_ok (object s) c" and idx: "handle_index c = i"
    using session_handle [OF ok c] by auto
  then have i: "i < consumer_count (object s)" by (simp add: consumer_handle_ok_def)
  let ?m = "min (unat max_count) (handle_offer c (history s) (taken s))"
  note sp = consumer_consume_spec(1) [OF session_ring_ok [OF ok] session_represents [OF ok] cok,
        where max_count = max_count and handler = record_event and h = "received s ! i", unfolded idx]
      consumer_consume_spec(2,3) [OF session_ring_ok [OF ok] session_represents [OF ok] cok,
        where max_count = max_count, unfolded idx]
  have eq: "d' = (object s)\<lparr>consumers := (consumers (object s))[i := consumers (object s) ! i + of_nat ?m]\<rparr>"
    "r = deliver record_event (base + of_nat (taken s ! i)) (next_events (history s) (taken s) i ?m) (received s ! i)"
    "consumer_handle_ok d' c'" "handle_index c' = i"
    using sp(1) run by auto
  have "session_ok b base (s\<lparr>object := d', handles := (handles s)(i \<mapsto> c'), received := (received s)[i :=
    deliver record_event (base + of_nat (taken s ! i)) (next_events (history s) (taken s) i ?m)
      (received s ! i)]\<rparr>)"
    by (rule session_consume [OF ok i sp(3)]) (use sp(2) eq in auto)
  then show ?thesis by (simp add: eq(2))
qed

lemma session_step_ok:
  assumes "session_step b s t" "session_ok b base s"
  shows "session_ok b base t"
  using assms
proof cases
  case (move_handle h h' old)
  then have "h' = h" by (auto simp: move_producer_def split: if_splits)
  then have "t = s" using move_handle by (cases s) simp
  then show ?thesis using assms(2) by simp
next
  case (open_consumer i)
  then show ?thesis using assms(2) make_consumer_ok [of i "object s"]
    by (cases "producer s") (auto simp: session_ok_def taken_def make_consumer_def)
next
  case (move_consumer_handle i c c' old)
  then have "t = s" by (cases s) (auto simp: move_consumer_def)
  then show ?thesis using assms(2) by simp
next
  case (close_consumer i)
  then show ?thesis using assms(2) by (cases "producer s") (auto simp: session_ok_def taken_def)
next
  case (publish_direct count writer accepted d' w')
  show ?thesis unfolding publish_direct(1) by (rule step_publish_direct [OF assms(2) publish_direct(2,3)])
next
  case (open_producer d' h)
  show ?thesis unfolding open_producer(1) by (rule step_open_producer [OF assms(2) open_producer(2,3)])
next
  case (publish_handle h count writer accepted d' h' w')
  show ?thesis unfolding publish_handle(1) by (rule step_publish_handle [OF assms(2) publish_handle(2,3)])
next
  case (close_producer h d')
  show ?thesis unfolding close_producer(1) by (rule step_close_producer [OF assms(2) close_producer(2,3)])
next
  case (consume_direct i max_count n d' r)
  show ?thesis unfolding consume_direct(1) by (rule step_consume_direct [OF assms(2) consume_direct(2-4)])
next
  case (consume_handle i c max_count n d' c' r)
  show ?thesis unfolding consume_handle(1) by (rule step_consume_handle [OF assms(2) consume_handle(2,3)])
qed

lemma reachable_session_ok:
  assumes "reachable b s0 s" "session_ok b base s0"
  shows "session_ok b base s"
  using assms by (induction rule: reachable.induct) (auto intro: session_step_ok)

end
