(* ===== verification/Disruptor_Properties.thy ===== *)
theory Disruptor_Properties
  imports Disruptor_Sessions
begin

text \<open>
  The properties of \<open>single_producer_disruptor\<close> and its handles: what a publication and a
  consumption do to the abstract stream, the handles against the direct paths, whole
  sessions, the ownership assertions, and the position queries.
\<close>

unbundle bit_operations_syntax

section \<open>Inputs for the concrete instances\<close>

text \<open>A ring of four slots and two consumers whose positions start two below the roll-over.\<close>

abbreviation small_ring :: "nat disruptor" where
  "small_ring \<equiv> single_producer_disruptor 4 2 0 (- 2)"

definition count_up :: "(nat, nat) batch_writer" where
  "count_up e i w = (w + unat i, w)"

definition after_three :: "nat disruptor" where
  "after_three = \<lparr>capacity = 4, consumer_count = 2, events = [12, 0, 10, 11], producer_state = Idle,
     next_to_publish = 1, available_before_rescan = 1, blocking_consumer = 0, published = 1,
     consumers = [- 2, - 2]\<rparr>"

lemma small_template: "template_ok 4 2"
  by code_simp

lemma small_ring_ok: "disruptor_ok small_ring" "producer_state small_ring = Idle"
  by (simp_all add: new_disruptor_ok small_template) (simp add: single_producer_disruptor_def)

lemma small_ring_represents: "represents (- 2) small_ring [] [0, 0]"
  using new_disruptor_represents [of "- 2" 4 2 "0 :: nat"] by (simp add: numeral_2_eq_2)

lemma small_publish: "try_publish_batch Debug small_ring 3 count_up 10 = Inr (True, after_three, 10)"
  unfolding after_three_def by code_simp

lemma small_written:
  "written count_up (batch_slots small_ring (next_to_publish small_ring) (unat (3 :: size_t))) 0 10 =
     ([10, 11, 12], 10)"
  by code_simp

lemma small_events: "batch_events small_ring (next_to_publish small_ring) 3 count_up 10 = [10, 11, 12]"
  by (simp only: batch_events_def small_written fst_conv)

lemma small_room: "room_for (unat (capacity small_ring)) ([] :: nat list) [0, 0] (unat (3 :: size_t))"
  by code_simp

lemma after_three_ok: "disruptor_ok after_three" "represents (- 2) after_three [10, 11, 12] [0, 0]"
  using try_publish_batch_spec [OF small_ring_ok(1) small_ring_represents, of Debug 3 count_up 10]
    small_ring_ok(2) small_publish small_written small_room by auto

section \<open>Construction\<close>

text \<open>The class's static assertions on its parameters hold exactly when the capacity is a
  power of two of at most 2^62 and there is a consumer. A capacity of 2^63 is
  refused: a count, a lag and a capacity then always differ in a 64-bit subtraction.\<close>

theorem template_ok_iff:
  "template_ok cap n \<longleftrightarrow> 0 < n \<and> (\<exists>k < 63. unat cap = 2 ^ k)"
proof
  assume ok: "template_ok cap n"
  then obtain k where k: "k < 64" "unat cap = 2 ^ k" by (rule template_power2)
  have "unat cap \<le> unat ((- 1 :: size_t) div 2)" using ok by (simp add: template_ok_def word_nat)
  also have "\<dots> < 2 ^ 63" by (simp add: unat_div)
  finally have "(2 :: nat) ^ k < 2 ^ 63" using k(2) by simp
  then have "k < 63" by (rule power_less_imp_less_exp [rotated]) simp
  with ok k(2) show "0 < n \<and> (\<exists>k < 63. unat cap = 2 ^ k)" by (auto simp: template_ok_def)
next
  assume "0 < n \<and> (\<exists>k < 63. unat cap = 2 ^ k)"
  then obtain k where n: "0 < n" and k: "k < 63" "unat cap = 2 ^ k" by blast
  have "(2 :: nat) ^ k \<le> 2 ^ 62" using k(1) by (intro power_increasing) auto
  then have "unat cap \<le> unat ((- 1 :: size_t) div 2)" by (simp add: unat_div k(2))
  moreover have "unat (cap AND (cap - 1)) = 0" using unat_mask_power2 [OF k(2), of cap] by simp
  moreover have "0 < cap" using k(2) by (simp add: word_nat)
  ultimately show "template_ok cap n"
    using n by (simp add: template_ok_def word_nat unsigned_eq_0_iff)
qed

section \<open>Publication\<close>

text \<open>C4: On a well-formed object that represents a stream, a batch publication never fails.
  It is accepted exactly when every consumer would then be at most the capacity behind:
  no cached room, scan order or blocking consumer left over from earlier calls changes
  the answer. If accepted, the stream grows by exactly what the writer left in the batch's
  slots and the writer ran once per slot in order; if not, the writer never ran and
  neither the slots, the cursors nor the stream changed.\<close>

theorem try_publish_batch_refines:
  assumes "disruptor_ok d" "represents base d log cs" "b = Debug \<longrightarrow> producer_state d = Idle"
  shows "\<exists>accepted d' w'. try_publish_batch b d count writer w = Inr (accepted, d', w') \<and>
    disruptor_ok d' \<and> consumers d' = consumers d \<and> producer_state d' = producer_state d \<and>
    (accepted \<longleftrightarrow> room_for (unat (capacity d)) log cs (unat count)) \<and>
    (let (es, w'') = written writer (batch_slots d (next_to_publish d) (unat count)) 0 w
     in if accepted then w' = w'' \<and> length es = unat count \<and> represents base d' (log @ es) cs
        else w' = w \<and> events d' = events d \<and> published d' = published d \<and> represents base d' log cs)"
proof -
  obtain acc d' w' where run: "try_publish_batch b d count writer w = Inr (acc, d', w')"
    and sp: "disruptor_ok d'" "consumers d' = consumers d" "producer_state d' = producer_state d"
      "acc \<longleftrightarrow> room_for (unat (capacity d)) log cs (unat count)"
      "if acc then let (es, w'') = written writer (batch_slots d (next_to_publish d) (unat count)) 0 w
         in w' = w'' \<and> represents base d' (log @ es) cs
       else w' = w \<and> events d' = events d \<and> published d' = published d \<and> represents base d' log cs"
    using try_publish_batch_spec [OF assms, of count writer w] by blast
  obtain es w'' where wr: "written writer (batch_slots d (next_to_publish d) (unat count)) 0 w = (es, w'')"
    by fastforce
  have "es = fst (written writer (batch_slots d (next_to_publish d) (unat count)) 0 w)" by (simp add: wr)
  then have "length es = unat count" by (simp add: batch_slots_def)
  then show ?thesis using run sp
    by (intro exI [of _ acc] exI [of _ d'] exI [of _ w']) (cases acc; simp add: wr)
qed

theorem try_publish_batch_refines_witness:
  "\<exists>d' w'. try_publish_batch Debug small_ring 3 count_up 10 = Inr (True, d', w') \<and> w' = 10 \<and>
    represents (- 2) d' [10, 11, 12] [0, 0]"
proof -
  note app = try_publish_batch_refines [OF small_ring_ok(1) small_ring_represents, of Debug 3 count_up 10]
  obtain acc d' w' where "try_publish_batch Debug small_ring 3 count_up 10 = Inr (acc, d', w')"
    "acc \<longleftrightarrow> room_for (unat (capacity small_ring)) ([] :: nat list) [0, 0] (unat (3 :: size_t))"
    "if acc then w' = 10 \<and> length [10, 11, 12 :: nat] = unat (3 :: size_t) \<and> represents (- 2) d' ([] @ [10, 11, 12]) [0, 0]
     else w' = 10 \<and> events d' = events small_ring \<and> published d' = published small_ring \<and>
       represents (- 2) d' [] [0, 0]"
    using app small_ring_ok(2) small_written by auto
  then show ?thesis using small_room by (auto simp del: unat_numeral)
qed

text \<open>Publishing one event is publishing a batch of one: accepted exactly when no consumer
  is a full ring behind, and then the stream grows by the one event the writer left.\<close>

theorem try_publish_refines:
  assumes "disruptor_ok d" "represents base d log cs" "b = Debug \<longrightarrow> producer_state d = Idle"
  shows "\<exists>accepted d' w'. try_publish b d writer w = Inr (accepted, d', w') \<and> disruptor_ok d' \<and>
    (accepted \<longleftrightarrow> (\<forall>c \<in> set cs. length log < c + unat (capacity d))) \<and>
    (let (e, w1) = writer (events d ! event_at d (next_to_publish d)) w
     in if accepted then w' = w1 \<and> represents base d' (log @ [e]) cs
        else w' = w \<and> represents base d' log cs)"
proof -
  obtain e w1 where wr: "writer (events d ! event_at d (next_to_publish d)) w = (e, w1)" by fastforce
  then have slot: "written (\<lambda>e _. writer e) (batch_slots d (next_to_publish d) (unat (1 :: size_t))) 0 w = ([e], w1)"
    by (simp add: batch_slots_def)
  have room: "room_for (unat (capacity d)) log cs (unat (1 :: size_t)) \<longleftrightarrow>
      (\<forall>c \<in> set cs. length log < c + unat (capacity d))"
    by (simp add: room_for_def Suc_le_eq)
  obtain acc d' w' where "try_publish_batch b d 1 (\<lambda>e _. writer e) w = Inr (acc, d', w')" "disruptor_ok d'"
    "acc \<longleftrightarrow> (\<forall>c \<in> set cs. length log < c + unat (capacity d))"
    "if acc then let (es, w'') = ([e], w1) in w' = w'' \<and> represents base d' (log @ es) cs
     else w' = w \<and> events d' = events d \<and> published d' = published d \<and> represents base d' log cs"
    using try_publish_batch_spec [OF assms, of 1 "\<lambda>e _. writer e" w, unfolded slot room] by blast
  then show ?thesis by (intro exI [of _ acc] exI [of _ d'] exI [of _ w']) (cases acc; simp add: wr try_publish_def)
qed

theorem try_publish_refines_witness:
  "\<exists>d' w'. try_publish Release after_three (\<lambda>e w. (w, w + 1)) (13 :: nat) = Inr (True, d', w') \<and> w' = 14 \<and>
    represents (- 2) d' [10, 11, 12, 13] [0, 0]"
  using try_publish_refines [OF after_three_ok, of Release "\<lambda>e w. (w, w + 1)" "13 :: nat"]
  by (auto simp: after_three_def)

text \<open>C6: A batch through the producer handle, taken from an idle object and destroyed after
  it, is the same as the batch on the object: same answer, same calls of the writer with the
  same events and indices, same object afterwards. The handle's two contiguous spans write
  the slots that the object's masked traversal writes, also where the batch passes the
  end of the ring or its positions roll over.\<close>

theorem handle_publish_equals_direct:
  assumes "disruptor_ok d" "b = Debug \<longrightarrow> producer_state d = Idle"
  shows "\<exists>accepted d1 h1 w1 d0 h0 d2. make_producer b d = Inr (d0, h0) \<and>
    producer_try_publish_batch b d0 h0 count writer w = Inr (accepted, d1, h1, w1) \<and>
    destroy_producer b d1 h1 = Inr d2 \<and>
    try_publish_batch b d count writer w = Inr (accepted, d2, w1)"
proof -
  obtain d0 h0 where make: "make_producer b d = Inr (d0, h0)" "producer_ok d0 h0"
    "b = Debug \<longrightarrow> producer_state d0 = Handle" "synchronize_owner_state b d0 h0 = d"
    using make_producer_ok [OF assms] by metis
  obtain acc d1 h1 w1 where
    "producer_try_publish_batch b d0 h0 count writer w = Inr (acc, d1, h1, w1)"
    "try_publish_batch b d count writer w = Inr (acc, synchronize_owner_state b d1 h1, w1)"
    "owner_live h1" "producer_state d1 = producer_state d0"
    using producer_batch_equiv [OF make(2,3), of count writer w] make(4) by metis
  with make show ?thesis by (auto simp: destroy_producer_def)
qed

theorem handle_publish_equals_direct_witness:
  "\<exists>accepted d1 h1 w1 d0 h0 d2. make_producer Debug after_three = Inr (d0, h0) \<and>
    producer_try_publish_batch Debug d0 h0 1 count_up 13 = Inr (accepted, d1, h1, w1) \<and>
    destroy_producer Debug d1 h1 = Inr d2 \<and>
    try_publish_batch Debug after_three 1 count_up 13 = Inr (accepted, d2, w1)"
  using handle_publish_equals_direct [OF after_three_ok(1), of Debug 1 count_up 13]
  by (simp add: after_three_def)

text \<open>A batch no larger than the ring is accepted as soon as every consumer has taken all
  there is: no value of the cached room or of the remembered blocking consumer can make
  the producer starve.\<close>

theorem drained_ring_accepts:
  assumes "disruptor_ok d" "represents base d log cs" "b = Debug \<longrightarrow> producer_state d = Idle"
    and "\<forall>c \<in> set cs. c = length log" "count \<le> capacity d"
  shows "\<exists>d' w'. try_publish_batch b d count writer w = Inr (True, d', w')"
proof -
  have "room_for (unat (capacity d)) log cs (unat count)"
    using assms(4,5) by (simp add: room_for_def word_nat)
  then show ?thesis using try_publish_batch_spec [OF assms(1-3), of count writer w] by auto
qed

theorem drained_ring_accepts_witness:
  "\<exists>d' w'. try_publish_batch Release small_ring 4 count_up 0 = Inr (True, d', w')"
  using drained_ring_accepts [OF small_ring_ok(1) small_ring_represents, of Release 4 count_up 0]
  by (simp add: single_producer_disruptor_def)

section \<open>Consumption\<close>

text \<open>C31: A consumption hands the handler exactly the next events of the stream for this
  consumer, as many as are published and at most as many as asked for, in publication
  order and each with its own sequence; the consumer's position moves by that number,
  and neither the stream nor another consumer's position changes.\<close>

theorem consume_available_refines:
  assumes "ring_ok d" "represents base d log cs" "i < consumer_count d"
    and "consume_available d i max_count handler h = (n, d', h')"
  shows "unat n = min (unat max_count) (length log - cs ! i) \<and>
    h' = deliver handler (base + of_nat (cs ! i)) (take (unat n) (drop (cs ! i) log)) h \<and>
    represents base d' log (cs[i := cs ! i + unat n]) \<and>
    events d' = events d \<and> published d' = published d \<and>
    (\<forall>j. j \<noteq> i \<longrightarrow> consumers d' ! j = consumers d ! j)"
proof -
  let ?n = "min (unat max_count) (length log - cs ! i)"
  note sp = consume_available_spec [OF assms(1-3), where max_count = max_count]
  note run = sp(1) [where handler = handler and h = h]
  have n: "n = of_nat ?n" using run assms(4) by simp
  have un: "unat n = ?n" unfolding n by (rule unat_of_nat_le64 [of _ max_count]) simp
  have d': "d' = d\<lparr>consumers := (consumers d)[i := consumers d ! i + of_nat ?n]\<rparr>"
    using run assms(4) by simp
  have "h' = deliver handler (base + of_nat (cs ! i)) (take (unat n) (drop (cs ! i) log)) h"
    unfolding un using run assms(4) by (simp add: next_events_def)
  moreover have "represents base d' log (cs[i := cs ! i + unat n])" unfolding d' un by (rule sp(2))
  ultimately show ?thesis using un by (simp add: d')
qed

theorem consume_available_refines_witness:
  "unat (2 :: u64) = min (unat (2 :: size_t)) (length [10, 11, 12 :: nat] - [0, 0] ! 1) \<and>
   [(10, - 2), (11, - 1)] =
     deliver record_event (- 2 + of_nat ([0, 0] ! 1)) (take (unat (2 :: u64)) (drop ([0, 0] ! 1) [10, 11, 12 :: nat])) []"
proof -
  have run: "consume_available after_three 1 2 record_event [] =
      (2, after_three\<lparr>consumers := [- 2, 0]\<rparr>, [(10, - 2), (11, - 1)])"
    unfolding after_three_def by code_simp
  have ok: "ring_ok after_three" "1 < consumer_count after_three"
    using after_three_ok(1) by (auto simp: disruptor_ok_def cursor_ok_def after_three_def)
  show ?thesis
    using consume_available_refines [OF ok(1) after_three_ok(2) ok(2) run] by blast
qed

text \<open>An unregistered consumer index consumes nothing, calls no handler and leaves the
  object alone; so does a call that asks for no event.\<close>

theorem consume_unregistered:
  "i \<ge> consumer_count d \<or> max_count = 0 \<Longrightarrow> consume_available d i max_count handler h = (0, d, h)"
  by (auto simp: consume_available_def)

theorem consume_unregistered_witness:
  "consume_available after_three 2 5 record_event [] = (0, after_three, [])"
  by (rule consume_unregistered) (simp add: after_three_def)

text \<open>C5: A consumption through a consumer handle is the same next part of the stream. It may
  be shorter than on the direct path, because what the handle cached is used up before it
  looks at the publication cursor again, but it is empty only when nothing is
  published, and the handle is ready for the next call.\<close>

theorem consumer_handle_refines:
  assumes "ring_ok d" "represents base d log cs" "consumer_handle_ok d c" "handle_index c = i"
  shows "\<exists>n d' c'. consumer_consume_available d c max_count handler h =
      Inr (of_nat n, d', c', deliver handler (base + of_nat (cs ! i)) (take n (drop (cs ! i) log)) h) \<and>
    n \<le> unat max_count \<and> cs ! i + n \<le> length log \<and>
    (n = 0 \<longleftrightarrow> max_count = 0 \<or> cs ! i = length log) \<and>
    represents base d' log (cs[i := cs ! i + n]) \<and> consumer_handle_ok d' c' \<and> handle_index c' = i"
  using consumer_handle_next [OF assms, of max_count handler h] by blast

theorem consumer_handle_refines_witness:
  "\<exists>n d' c'. consumer_consume_available after_three (make_consumer after_three 0) 2 record_event [] =
      Inr (of_nat n, d', c', deliver record_event (- 2 + of_nat ([0, 0] ! 0)) (take n (drop ([0, 0] ! 0) [10, 11, 12])) []) \<and>
    n \<le> 2 \<and> n \<noteq> 0 \<and> represents (- 2) d' [10, 11, 12] ([0, 0][0 := [0, 0] ! 0 + n]) \<and>
    consumer_handle_ok d' c'"
proof -
  have ok: "ring_ok after_three" "0 < consumer_count after_three"
    using after_three_ok(1) by (auto simp: disruptor_ok_def cursor_ok_def after_three_def)
  have idx: "handle_index (make_consumer after_three 0) = 0" by (simp add: make_consumer_def)
  show ?thesis
    using consumer_handle_refines [OF ok(1) after_three_ok(2) make_consumer_ok [OF ok(2)] idx,
        of 2 record_event "[]"] by auto
qed

section \<open>Sessions\<close>

text \<open>Two publications, one through a handle, with a consumption by handle and one by index.\<close>

abbreviation small_session :: "(nat, nat) session" where
  "small_session \<equiv> new_session 4 2 0 (- 2) 10"

definition session_three :: "(nat, nat) session" where
  "session_three = small_session\<lparr>object := after_three, history := [10, 11, 12]\<rparr>"

definition session_read :: "(nat, nat) session" where
  "session_read = session_three\<lparr>object := after_three\<lparr>consumers := [- 2, 0]\<rparr>,
     received := [[], [(10, - 2), (11, - 1)]]\<rparr>"

definition session_open :: "(nat, nat) session" where
  "session_open = session_read\<lparr>object := after_three\<lparr>consumers := [- 2, 0], producer_state := Handle\<rparr>,
     producer := Some \<lparr>owner_live = True, handle_next_to_publish = 1,
       handle_available_before_rescan = 1, handle_blocking_consumer = 0\<rparr>\<rparr>"

lemma session_three_reachable: "reachable Debug small_session session_three"
proof (rule reachable.step [OF reachable.start])
  have "session_step Debug small_session (small_session\<lparr>object := after_three, writer_state := 10,
      history := history small_session @ (if True then batch_events (object small_session)
        (next_to_publish (object small_session)) 3 count_up (writer_state small_session) else [])\<rparr>)"
    by (rule session_step.publish_direct) (simp_all add: new_session_def small_publish)
  then show "session_step Debug small_session session_three"
    by (simp add: new_session_def session_three_def small_events)
qed

lemma session_read_reachable: "reachable Debug small_session session_read"
proof (rule reachable.step [OF session_three_reachable])
  have "consume_available after_three 1 2 record_event [] =
      (2, after_three\<lparr>consumers := [- 2, 0]\<rparr>, [(10, - 2), (11, - 1)])"
    unfolding after_three_def by code_simp
  then have "session_step Debug session_three (session_three\<lparr>object := after_three\<lparr>consumers := [- 2, 0]\<rparr>,
      received := (received session_three)[1 := [(10, - 2), (11, - 1)]]\<rparr>)"
    by (intro session_step.consume_direct [where max_count = 2 and n = 2])
      (simp_all add: session_three_def new_session_def numeral_2_eq_2, simp add: after_three_def)
  then show "session_step Debug session_three session_read"
    by (simp add: session_three_def session_read_def new_session_def numeral_2_eq_2)
qed

lemma session_open_reachable: "reachable Debug small_session session_open"
proof (rule reachable.step [OF session_read_reachable])
  show "session_step Debug session_read session_open"
    using session_step.open_producer [of session_read Debug]
    by (simp add: session_read_def session_three_def new_session_def make_producer_def debug_store_def
        after_three_def session_open_def)
qed

text \<open>
  The contract is needed: a consumer that opens a handle, then consumes by index and then by
  the handle is given the same events twice, and nothing stops it.
\<close>

lemma mixed_consumption_redelivers:
  "case consume_available after_three 0 2 record_event [] of (n, d, r) \<Rightarrow> n = 2 \<and> r = [(10, - 2), (11, - 1)] \<and>
    (case consumer_consume_available d (make_consumer after_three 0) 2 record_event r of
       Inl f \<Rightarrow> False
     | Inr (n', d', c', r') \<Rightarrow> n' = 2 \<and> r' = r @ r)"
  unfolding after_three_def by code_simp

text \<open>C7: Under the contract the README states, that at any time one publication path is live (the
  direct methods or one producer handle) and one consumption path per consumer index (the indexed
  method or one consumer handle), whatever publications, consumptions, handle creations, moves and
  destructions a program performs on a new object, in any order that keeps it, each registered
  consumer has received a prefix of the published stream: every event once, in publication order,
  as the writer left it, with consecutive sequences from the initial position on. The step relation
  has the contract as its premises; the class asserts the publication half in debug builds and
  leaves the consumption half to its user.\<close>

theorem session_delivers_prefix:
  assumes "template_ok cap n" "reachable b (new_session cap n dflt p w) s" "i < consumer_count (object s)"
  shows "\<exists>k \<le> length (history s).
    received s ! i = map (\<lambda>q. (history s ! q, p + of_nat q)) [0..<k]"
proof -
  have ok: "session_ok b p s" using reachable_session_ok [OF assms(2) new_session_ok [OF assms(1)]] .
  have "length (received s) = consumer_count (object s)"
    using represents_consumers [OF session_represents [OF ok]] session_ring_ok [OF ok]
    by (simp add: taken_length ring_ok_def)
  then have r: "received s ! i \<in> set (received s)" using assms(3) by simp
  then show ?thesis using ok session_received_le [OF ok r] by (auto simp: session_ok_def)
qed

theorem session_delivers_prefix_witness:
  "\<exists>k \<le> length [10, 11, 12 :: nat]. [(10, - 2), (11, - 1)] = map (\<lambda>q. ([10, 11, 12 :: nat] ! q, - 2 + of_nat q :: u64)) [0..<k]"
  using session_delivers_prefix [OF small_template session_read_reachable, of 1]
  by (simp add: session_read_def session_three_def after_three_def new_session_def)

text \<open>In every state a program reaches this way, the operations that are legal there
  return: no assertion fails and no null owner is used, in debug and in release builds.\<close>

theorem session_operations_return:
  assumes "template_ok cap n" "reachable b (new_session cap n dflt p w) s"
  shows "(producer s = None \<longrightarrow>
      (\<exists>r. try_publish_batch b (object s) count writer (writer_state s) = Inr r) \<and>
      (\<exists>r. make_producer b (object s) = Inr r)) \<and>
    (\<forall>h. producer s = Some h \<longrightarrow>
      (\<exists>r. producer_try_publish_batch b (object s) h count writer (writer_state s) = Inr r) \<and>
      (\<exists>r. move_producer b (object s) h = Inr r) \<and> (\<exists>r. destroy_producer b (object s) h = Inr r)) \<and>
    (\<forall>i c. handles s i = Some c \<longrightarrow>
      (\<exists>r. consumer_consume_available (object s) c max_count handler g = Inr r))"
proof -
  have ok: "session_ok b p s" using reachable_session_ok [OF assms(2) new_session_ok [OF assms(1)]] .
  note rep = session_represents [OF ok]
  show ?thesis
  proof (intro conjI allI impI)
    assume "producer s = None"
    note dir = session_direct [OF ok this]
    show "\<exists>r. try_publish_batch b (object s) count writer (writer_state s) = Inr r"
      using try_publish_batch_spec [OF conjunct1 [OF dir] rep conjunct2 [OF dir], of count writer "writer_state s"]
      by blast
    show "\<exists>r. make_producer b (object s) = Inr r" using dir by (simp add: make_producer_def)
  next
    fix h assume "producer s = Some h"
    note pr = session_producer [OF ok this]
    show "\<exists>r. producer_try_publish_batch b (object s) h count writer (writer_state s) = Inr r"
      using producer_batch_spec [OF conjunct1 [OF pr] rep conjunct2 [OF pr], of count writer "writer_state s"]
      by blast
    show "\<exists>r. move_producer b (object s) h = Inr r" using pr by (simp add: move_producer_def)
    show "\<exists>r. destroy_producer b (object s) h = Inr r" using pr by (simp add: destroy_producer_def)
  next
    fix i c assume "handles s i = Some c"
    then have "consumer_handle_ok (object s) c" using session_handle [OF ok] by blast
    from consumer_consume_spec(1) [OF session_ring_ok [OF ok] rep this, where max_count = max_count and handler = handler and h = g]
    show "\<exists>r. consumer_consume_available (object s) c max_count handler g = Inr r" by blast
  qed
qed

theorem session_operations_return_witness:
  "(\<exists>r. producer_try_publish_batch Debug (object session_open) (the (producer session_open)) 1 count_up 10 = Inr r)"
  using session_operations_return [OF small_template session_open_reachable, of 1 count_up]
  by (simp add: session_open_def session_read_def session_three_def new_session_def)

text \<open>While a producer handle is alive, a debug build stops at the first publication on the
  object itself and at the creation of a second producer handle, whatever the batch, the
  empty one included.\<close>

theorem second_producer_asserts:
  assumes "template_ok cap n" "reachable Debug (new_session cap n dflt p w) s" "producer s = Some h"
  shows "try_publish_batch Debug (object s) count writer v = Inl Assertion_failed \<and>
    make_producer Debug (object s) = Inl Assertion_failed"
  using session_producer [OF reachable_session_ok [OF assms(2) new_session_ok [OF assms(1)]] assms(3)]
  by (simp add: try_publish_batch_def make_producer_def)

theorem second_producer_asserts_witness:
  "try_publish_batch Debug (object session_open) 0 count_up 3 = Inl Assertion_failed \<and>
    make_producer Debug (object session_open) = Inl Assertion_failed"
  using second_producer_asserts [OF small_template session_open_reachable, where h = "the (producer session_open)"]
  by (simp add: session_open_def)

text \<open>A moved-from producer handle does nothing when it is destroyed, so the owner's
  cursor is synchronised by the new handle only; using it to publish stops a debug build
  at an assertion, and a release build returns only for an empty or an oversized batch.\<close>

theorem moved_from_producer:
  assumes "move_producer b d h = Inr (h', old)" "owner_live h"
  shows "destroy_producer b d old = Inr d \<and> h' = h \<and>
    producer_try_publish_batch b d old count writer w =
      (if b = Debug then Inl Assertion_failed
       else if count = 0 then Inr (True, d, old, w)
       else if count > capacity d then Inr (False, d, old, w)
       else Inl Null_dereference)"
proof -
  have old: "old = h\<lparr>owner_live := False\<rparr>" "h' = h"
    using assms(1) by (auto simp: move_producer_def split: if_splits)
  then show ?thesis
    by (auto simp: destroy_producer_def synchronize_owner_state_def producer_try_publish_batch_def
        intro: build.exhaust)
qed

theorem moved_from_producer_witness:
  "producer_try_publish_batch Debug (object session_open) ((the (producer session_open))\<lparr>owner_live := False\<rparr>)
     1 count_up 0 = Inl Assertion_failed"
  using moved_from_producer [of Debug "object session_open" "the (producer session_open)"
      "the (producer session_open)" _ 1 count_up 0]
  by (simp add: move_producer_def session_open_def)

section \<open>Positions\<close>

text \<open>The position queries show the stream modulo 2^64: the unsigned difference of the
  published position and a consumer's position is the number of events it has not taken,
  never more than the capacity, also across a roll-over; the sequence queries name the last
  event published and taken; an unregistered index gives position 0 and sequence 2^64 - 1.\<close>

theorem positions_measure_backlog:
  assumes "ring_ok d" "represents base d log cs"
  shows "published_position d = base + of_nat (length log) \<and>
    published_sequence d = base + of_nat (length log) - 1 \<and>
    (if i < consumer_count d
     then unat (published_position d - consumer_position d i) = length log - cs ! i \<and>
       length log - cs ! i \<le> unat (capacity d) \<and> consumer_sequence d i = consumer_position d i - 1
     else consumer_position d i = 0 \<and> consumer_sequence d i = - 1)"
proof (cases "i < consumer_count d")
  case True
  then have i: "i < length cs" using represents_consumers [OF assms(2)] assms(1) by (simp add: ring_ok_def)
  then have pos: "consumers d ! i = base + of_nat (cs ! i)" using assms(2) by (simp add: represents_def)
  have lag: "unat (published d - (base + of_nat (cs ! i))) = length log - cs ! i"
    using represents_lag [OF assms(2) nth_mem [OF i]] .
  have "cs ! i \<le> length log \<and> length log \<le> cs ! i + unat (capacity d)"
    using assms(2) nth_mem [OF i] by (simp add: represents_def)
  then have "length log - cs ! i \<le> unat (capacity d)" by linarith
  moreover have "published d = base + of_nat (length log)" using assms(2) by (simp add: represents_def)
  ultimately show ?thesis using True lag
    by (simp add: published_position_def published_sequence_def consumer_position_def
        consumer_sequence_def pos)
next
  case False
  then show ?thesis using assms(2)
    by (simp add: published_position_def published_sequence_def consumer_position_def
        consumer_sequence_def represents_def)
qed

theorem positions_measure_backlog_witness:
  "published_position after_three = 1 \<and>
    unat (published_position after_three - consumer_position after_three 1) = 3 \<and>
    consumer_position after_three 2 = 0"
proof -
  have "ring_ok after_three" using after_three_ok(1) by (simp add: disruptor_ok_def cursor_ok_def)
  note pos = positions_measure_backlog [OF this after_three_ok(2)]
  show ?thesis using pos [of 1] pos [of 2] by (auto simp: after_three_def)
qed

end
