(* ===== verification/Multicast.thy ===== *)
theory Multicast
  imports Disruptor_Sessions
begin

text \<open>
  The interface the programs around the disruptor rely on, one producer and several indexed
  consumers over one stream, with the laws a provider promises. Two providers meet it:
  the object with its direct paths, and the object with a producer handle and one consumer
  handle per index.
\<close>

section \<open>The interface\<close>

text \<open>
  \<open>models s log cs\<close>: the provider's state \<open>s\<close> stands for the stream \<open>log\<close> of which consumer \<open>i\<close>
  has taken \<open>cs ! i\<close> events.
\<close>

locale multicast =
  fixes publish :: "'s \<Rightarrow> size_t \<Rightarrow> ('ev, 'w) batch_writer \<Rightarrow> 'w \<Rightarrow> failure + bool \<times> 's \<times> 'w"
    and consume :: "'s \<Rightarrow> nat \<Rightarrow> size_t \<Rightarrow> ('ev, 'h) sequence_handler \<Rightarrow> 'h \<Rightarrow> failure + size_t \<times> 's \<times> 'h"
    and position :: "'s \<Rightarrow> nat \<Rightarrow> u64"
    and models :: "'s \<Rightarrow> 'ev list \<Rightarrow> nat list \<Rightarrow> bool"
    and room :: nat and consumer_total :: nat and base :: u64
  assumes publish_law: "models s log cs \<Longrightarrow> \<exists>accepted s' w' old.
      publish s count writer w = Inr (accepted, s', w') \<and> length old = unat count \<and>
      (accepted \<longleftrightarrow> room_for room log cs (unat count)) \<and>
      (if accepted then models s' (log @ fst (written writer old 0 w)) cs \<and> w' = snd (written writer old 0 w)
       else models s' log cs \<and> w' = w)"
    and consume_law: "models s log cs \<Longrightarrow> i < consumer_total \<Longrightarrow> \<exists>n s'.
      consume s i max_count handler h =
        Inr (of_nat n, s', deliver handler (base + of_nat (cs ! i)) (take n (drop (cs ! i) log)) h) \<and>
      n \<le> unat max_count \<and> cs ! i + n \<le> length log \<and>
      (n = 0 \<longleftrightarrow> max_count = 0 \<or> cs ! i = length log) \<and> models s' log (cs[i := cs ! i + n])"
    and position_law: "models s log cs \<Longrightarrow> i < consumer_total \<Longrightarrow> position s i = base + of_nat (cs ! i)"
    and models_shape: "models s log cs \<Longrightarrow> length cs = consumer_total \<and>
      (\<forall>c \<in> set cs. c \<le> length log \<and> length log \<le> c + room)"

section \<open>The object itself\<close>

definition direct_consume :: "'ev disruptor \<Rightarrow> nat \<Rightarrow> size_t \<Rightarrow> ('ev, 'h) sequence_handler \<Rightarrow> 'h \<Rightarrow>
    failure + size_t \<times> 'ev disruptor \<times> 'h" where
  "direct_consume d i max_count handler h = Inr (consume_available d i max_count handler h)"

definition direct_models :: "build \<Rightarrow> u64 \<Rightarrow> size_t \<Rightarrow> nat \<Rightarrow> 'ev disruptor \<Rightarrow> 'ev list \<Rightarrow> nat list \<Rightarrow> bool" where
  "direct_models b base cap n d log cs \<longleftrightarrow> disruptor_ok d \<and> represents base d log cs \<and>
     capacity d = cap \<and> consumer_count d = n \<and> (b = Debug \<longrightarrow> producer_state d = Idle)"

lemma represents_shape:
  assumes "ring_ok d" "represents base d log cs"
  shows "length cs = consumer_count d \<and>
    (\<forall>c \<in> set cs. c \<le> length log \<and> length log \<le> c + unat (capacity d))"
  using represents_consumers [OF assms(2)] assms by (simp add: ring_ok_def represents_def)

lemma disruptor_ok_ring_ok: "disruptor_ok d \<Longrightarrow> ring_ok d"
  by (simp add: disruptor_ok_def cursor_ok_def)

lemma batch_slots_length [simp]: "length (batch_slots d first n) = n"
  by (simp add: batch_slots_def)

lemma direct_publish_law:
  assumes "direct_models b base cap n d log cs"
  shows "\<exists>accepted d' w' old. try_publish_batch b d count writer w = Inr (accepted, d', w') \<and>
    length old = unat count \<and> (accepted \<longleftrightarrow> room_for (unat cap) log cs (unat count)) \<and>
    (if accepted then direct_models b base cap n d' (log @ fst (written writer old 0 w)) cs \<and>
       w' = snd (written writer old 0 w)
     else direct_models b base cap n d' log cs \<and> w' = w)"
proof -
  have d: "disruptor_ok d" "represents base d log cs" "b = Debug \<longrightarrow> producer_state d = Idle"
    and same: "capacity d = cap" "consumer_count d = n"
    using assms by (auto simp: direct_models_def)
  obtain acc d' w' where run: "try_publish_batch b d count writer w = Inr (acc, d', w')"
    and sp: "disruptor_ok d'" "capacity d' = capacity d" "consumer_count d' = consumer_count d"
      "producer_state d' = producer_state d" "acc \<longleftrightarrow> room_for (unat (capacity d)) log cs (unat count)"
      "if acc then let (es, w'') = written writer (batch_slots d (next_to_publish d) (unat count)) 0 w
         in w' = w'' \<and> represents base d' (log @ es) cs
       else w' = w \<and> events d' = events d \<and> published d' = published d \<and> represents base d' log cs"
    using try_publish_batch_spec [OF d, of count writer w] by blast
  then show ?thesis using d(3) same
    by (intro exI [of _ acc] exI [of _ d'] exI [of _ w']
        exI [of _ "batch_slots d (next_to_publish d) (unat count)"])
      (cases acc; auto simp: direct_models_def split: prod.splits)
qed

lemma direct_consume_law:
  assumes "direct_models b base cap n d log cs" "i < n"
  shows "\<exists>k d'. direct_consume d i max_count handler h =
      Inr (of_nat k, d', deliver handler (base + of_nat (cs ! i)) (take k (drop (cs ! i) log)) h) \<and>
    k \<le> unat max_count \<and> cs ! i + k \<le> length log \<and>
    (k = 0 \<longleftrightarrow> max_count = 0 \<or> cs ! i = length log) \<and>
    direct_models b base cap n d' log (cs[i := cs ! i + k])"
proof -
  let ?k = "min (unat max_count) (length log - cs ! i)"
  let ?d = "d\<lparr>consumers := (consumers d)[i := consumers d ! i + of_nat ?k]\<rparr>"
  have d: "disruptor_ok d" "ring_ok d" "represents base d log cs" "i < consumer_count d"
    using assms disruptor_ok_ring_ok by (auto simp: direct_models_def)
  have le: "cs ! i \<le> length log" using represents_shape [OF d(2,3)] d(4) by simp
  note sp = consume_available_spec [OF d(2,3,4), where max_count = max_count]
  have "consumers d ! i = base + of_nat (cs ! i)"
    using d(3,4) represents_shape [OF d(2,3)] by (simp add: represents_def)
  then have "unat (published d - consumers d ! i) = length log - cs ! i"
    using represents_lag [OF d(3), of "cs ! i"] represents_shape [OF d(2,3)] d(4) by simp
  moreover have "unat (of_nat ?k :: u64) = ?k" by (rule unat_of_nat_le64 [of _ max_count]) simp
  ultimately have "disruptor_ok ?d" by (intro disruptor_ok_consume [OF d(1,4)]) simp
  moreover have "?k = 0 \<longleftrightarrow> max_count = 0 \<or> cs ! i = length log"
    using le by (auto simp: min_def unsigned_eq_0_iff)
  ultimately show ?thesis using sp(1) [of handler h] sp(2) assms le
    by (intro exI [of _ ?k] exI [of _ ?d]) (simp add: direct_consume_def direct_models_def next_events_def)
qed

interpretation direct: multicast "try_publish_batch b" direct_consume consumer_position "direct_models b base cap n" "unat cap" n base
  for b base cap n
proof unfold_locales
  show "direct_models b base cap n d log cs \<Longrightarrow> length cs = n \<and>
      (\<forall>c \<in> set cs. c \<le> length log \<and> length log \<le> c + unat cap)" for d log cs
    using represents_shape [OF disruptor_ok_ring_ok] by (auto simp: direct_models_def)
  show "direct_models b base cap n d log cs \<Longrightarrow> i < n \<Longrightarrow> consumer_position d i = base + of_nat (cs ! i)"
    for d log cs i
    using represents_consumers [of base d log cs] disruptor_ok_ring_ok [of d]
    by (auto simp: direct_models_def consumer_position_def represents_def ring_ok_def)
qed (rule direct_publish_law direct_consume_law; assumption)+

section \<open>The object with its handles\<close>

record 'ev endpoint =
  ep_object :: "'ev disruptor"
  ep_producer :: producer_handle
  ep_consumers :: "consumer_handle list"

definition handle_publish :: "build \<Rightarrow> 'ev endpoint \<Rightarrow> size_t \<Rightarrow> ('ev, 'w) batch_writer \<Rightarrow> 'w \<Rightarrow>
    failure + bool \<times> 'ev endpoint \<times> 'w" where
  "handle_publish b s count writer w =
     (case producer_try_publish_batch b (ep_object s) (ep_producer s) count writer w of
        Inl f \<Rightarrow> Inl f
      | Inr (accepted, d', h', w') \<Rightarrow> Inr (accepted, s\<lparr>ep_object := d', ep_producer := h'\<rparr>, w'))"

definition handle_consume :: "'ev endpoint \<Rightarrow> nat \<Rightarrow> size_t \<Rightarrow> ('ev, 'h) sequence_handler \<Rightarrow> 'h \<Rightarrow>
    failure + size_t \<times> 'ev endpoint \<times> 'h" where
  "handle_consume s i max_count handler h =
     (case consumer_consume_available (ep_object s) (ep_consumers s ! i) max_count handler h of
        Inl f \<Rightarrow> Inl f
      | Inr (n, d', c', h') \<Rightarrow>
          Inr (n, s\<lparr>ep_object := d', ep_consumers := (ep_consumers s)[i := c']\<rparr>, h'))"

definition handle_position :: "'ev endpoint \<Rightarrow> nat \<Rightarrow> u64" where
  "handle_position s i = consumer_handle_position (ep_consumers s ! i)"

definition handle_models :: "build \<Rightarrow> u64 \<Rightarrow> size_t \<Rightarrow> nat \<Rightarrow> 'ev endpoint \<Rightarrow> 'ev list \<Rightarrow> nat list \<Rightarrow> bool" where
  "handle_models b base cap n s log cs \<longleftrightarrow> (let d = ep_object s in
     ring_ok d \<and> represents base d log cs \<and> capacity d = cap \<and> consumer_count d = n \<and>
     producer_ok d (ep_producer s) \<and> (b = Debug \<longrightarrow> producer_state d = Handle) \<and>
     length (ep_consumers s) = n \<and>
     (\<forall>i < n. consumer_handle_ok d (ep_consumers s ! i) \<and> handle_index (ep_consumers s ! i) = i))"

lemma handle_publish_law:
  assumes "handle_models b base cap n s log cs"
  shows "\<exists>accepted s' w' old. handle_publish b s count writer w = Inr (accepted, s', w') \<and>
    length old = unat count \<and> (accepted \<longleftrightarrow> room_for (unat cap) log cs (unat count)) \<and>
    (if accepted then handle_models b base cap n s' (log @ fst (written writer old 0 w)) cs \<and>
       w' = snd (written writer old 0 w)
     else handle_models b base cap n s' log cs \<and> w' = w)"
proof -
  let ?d = "ep_object s"
  have d: "ring_ok ?d" "represents base ?d log cs" "producer_ok ?d (ep_producer s)"
      "b = Debug \<longrightarrow> producer_state ?d = Handle"
    and same: "capacity ?d = cap" "consumer_count ?d = n" "length (ep_consumers s) = n"
    and hs: "\<And>i. i < n \<Longrightarrow> consumer_handle_ok ?d (ep_consumers s ! i) \<and> handle_index (ep_consumers s ! i) = i"
    using assms by (auto simp: handle_models_def Let_def)
  obtain acc d' h' w' where
    run: "producer_try_publish_batch b ?d (ep_producer s) count writer w = Inr (acc, d', h', w')"
    and sp: "producer_ok d' h'" "capacity d' = capacity ?d" "consumer_count d' = consumer_count ?d"
      "producer_state d' = producer_state ?d" "consumers d' = consumers ?d"
      "acc \<longleftrightarrow> room_for (unat (capacity ?d)) log cs (unat count)"
      "if acc then let (es, w'') = written writer (batch_slots ?d (handle_next_to_publish (ep_producer s)) (unat count)) 0 w
         in w' = w'' \<and> represents base d' (log @ es) cs
       else w' = w \<and> events d' = events ?d \<and> published d' = published ?d \<and> represents base d' log cs"
    using producer_batch_spec [OF d(3,2,4), of count writer w] by blast
  have ring: "ring_ok d'" using sp(1) by (simp add: producer_ok_def cursor_ok_def)
  have keep: "handle_models b base cap n (s\<lparr>ep_object := d', ep_producer := h'\<rparr>) (log @ es) cs"
    if "represents base d' (log @ es) cs" for es
    using that ring sp(1-4) d(4) same hs consumer_handle_ok_publish [OF _ d(1,2) that sp(5,3)]
    by (simp add: handle_models_def)
  show ?thesis using run sp(6,7) same(1) keep keep [of "[]"]
    by (intro exI [of _ acc] exI [of _ "s\<lparr>ep_object := d', ep_producer := h'\<rparr>"] exI [of _ w']
        exI [of _ "batch_slots ?d (handle_next_to_publish (ep_producer s)) (unat count)"])
      (cases acc; auto simp: handle_publish_def split: prod.splits)
qed

text \<open>One turn of a consumer handle, seen from the object and the other handles.\<close>

lemma handle_consume_step:
  assumes d: "ring_ok (ep_object s)" "represents base (ep_object s) log cs"
    and same: "consumer_count (ep_object s) = n" "length (ep_consumers s) = n"
    and hs: "\<And>j. j < n \<Longrightarrow>
      consumer_handle_ok (ep_object s) (ep_consumers s ! j) \<and> handle_index (ep_consumers s ! j) = j"
    and i: "i < n"
  shows "\<exists>k s'. handle_consume s i max_count handler h =
      Inr (of_nat k, s', deliver handler (base + of_nat (cs ! i)) (take k (drop (cs ! i) log)) h) \<and>
    k \<le> unat max_count \<and> cs ! i + k \<le> length log \<and> (k = 0 \<longleftrightarrow> max_count = 0 \<or> cs ! i = length log) \<and>
    represents base (ep_object s') log (cs[i := cs ! i + k]) \<and>
    ep_object s' = (ep_object s)\<lparr>consumers := (consumers (ep_object s))[i := consumers (ep_object s) ! i + of_nat k]\<rparr> \<and>
    unat (of_nat k :: u64) \<le> unat (published (ep_object s) - consumers (ep_object s) ! i) \<and>
    ep_producer s' = ep_producer s \<and> length (ep_consumers s') = n \<and>
    (\<forall>j < n. consumer_handle_ok (ep_object s') (ep_consumers s' ! j) \<and> handle_index (ep_consumers s' ! j) = j)"
proof -
  let ?d = "ep_object s"
  note mine = hs [OF i]
  obtain k d' c' where run: "consumer_consume_available ?d (ep_consumers s ! i) max_count handler h =
      Inr (of_nat k, d', c', deliver handler (base + of_nat (cs ! i)) (take k (drop (cs ! i) log)) h)"
    and d': "d' = ?d\<lparr>consumers := (consumers ?d)[i := consumers ?d ! i + of_nat k]\<rparr>"
    and k: "k \<le> unat max_count" "cs ! i + k \<le> length log" "k = 0 \<longleftrightarrow> max_count = 0 \<or> cs ! i = length log"
    and new: "represents base d' log (cs[i := cs ! i + k])" "consumer_handle_ok d' c'" "handle_index c' = i"
    using consumer_handle_next [OF d conjunct1 [OF mine] conjunct2 [OF mine], of max_count handler h] by blast
  have i': "i < consumer_count ?d" "i < length cs"
    using i same represents_shape [OF d] by auto
  have "consumers ?d ! i = base + of_nat (cs ! i)" using d(2) i' by (simp add: represents_def)
  then have "unat (published ?d - consumers ?d ! i) = length log - cs ! i"
    using represents_lag [OF d(2) nth_mem [OF i'(2)]] by simp
  moreover have "unat (of_nat k :: u64) = k" by (rule unat_of_nat_le64 [OF k(1)])
  moreover have "consumer_handle_ok d' ((ep_consumers s)[i := c'] ! j) \<and>
      handle_index ((ep_consumers s)[i := c'] ! j) = j" if "j < n" for j
  proof (cases "j = i")
    case False
    then have "consumer_handle_ok d' (ep_consumers s ! j)"
      unfolding d' using hs [OF that] by (intro consumer_handle_ok_other) auto
    then show ?thesis using False hs [OF that] by simp
  qed (use new(2,3) i same(2) in simp)
  ultimately show ?thesis using run k new(1) same d'
    by (intro exI [of _ k] exI [of _ "s\<lparr>ep_object := d', ep_consumers := (ep_consumers s)[i := c']\<rparr>"])
      (simp add: handle_consume_def)
qed

lemma handle_consume_law:
  assumes "handle_models b base cap n s log cs" "i < n"
  shows "\<exists>k s'. handle_consume s i max_count handler h =
      Inr (of_nat k, s', deliver handler (base + of_nat (cs ! i)) (take k (drop (cs ! i) log)) h) \<and>
    k \<le> unat max_count \<and> cs ! i + k \<le> length log \<and>
    (k = 0 \<longleftrightarrow> max_count = 0 \<or> cs ! i = length log) \<and>
    handle_models b base cap n s' log (cs[i := cs ! i + k])"
proof -
  let ?d = "ep_object s"
  have d: "ring_ok ?d" "represents base ?d log cs" "producer_ok ?d (ep_producer s)"
    and same: "capacity ?d = cap" "consumer_count ?d = n" "length (ep_consumers s) = n"
      "b = Debug \<longrightarrow> producer_state ?d = Handle"
    and hs: "\<And>j. j < n \<Longrightarrow> consumer_handle_ok ?d (ep_consumers s ! j) \<and> handle_index (ep_consumers s ! j) = j"
    using assms by (auto simp: handle_models_def Let_def)
  obtain k s' where step: "handle_consume s i max_count handler h =
      Inr (of_nat k, s', deliver handler (base + of_nat (cs ! i)) (take k (drop (cs ! i) log)) h)"
      "k \<le> unat max_count" "cs ! i + k \<le> length log" "k = 0 \<longleftrightarrow> max_count = 0 \<or> cs ! i = length log"
      "represents base (ep_object s') log (cs[i := cs ! i + k])" "ep_producer s' = ep_producer s"
      "length (ep_consumers s') = n"
      "\<forall>j < n. consumer_handle_ok (ep_object s') (ep_consumers s' ! j) \<and> handle_index (ep_consumers s' ! j) = j"
    and obj: "ep_object s' = ?d\<lparr>consumers := (consumers ?d)[i := consumers ?d ! i + of_nat k]\<rparr>"
    and taken: "unat (of_nat k :: u64) \<le> unat (published ?d - consumers ?d ! i)"
    using handle_consume_step [where s = s and base = base and log = log and cs = cs and i = i and n = n
        and max_count = max_count and handler = handler and h = h, OF d(1,2) same(2,3) hs assms(2)] by blast
  have "producer_ok (ep_object s') (ep_producer s)"
    unfolding obj using assms(2) same(2) taken by (intro producer_ok_consume [OF d(3)]) simp_all
  moreover have "ring_ok (ep_object s')" "capacity (ep_object s') = cap" "consumer_count (ep_object s') = n"
    "producer_state (ep_object s') = producer_state ?d"
    using d(1) same by (simp_all add: obj ring_ok_def)
  ultimately have "handle_models b base cap n s' log (cs[i := cs ! i + k])"
    using step same by (simp add: handle_models_def)
  then show ?thesis using step(1-4) by blast
qed

interpretation handles: multicast "handle_publish b" handle_consume handle_position "handle_models b base cap n" "unat cap" n base
  for b base cap n
proof unfold_locales
  show "handle_models b base cap n s log cs \<Longrightarrow> length cs = n \<and>
      (\<forall>c \<in> set cs. c \<le> length log \<and> length log \<le> c + unat cap)" for s log cs
    using represents_shape [of "ep_object s"] by (auto simp: handle_models_def Let_def)
  show "handle_models b base cap n s log cs \<Longrightarrow> i < n \<Longrightarrow> handle_position s i = base + of_nat (cs ! i)"
    for s log cs i
    using represents_consumers [of base "ep_object s" log cs]
    by (auto simp: handle_models_def Let_def handle_position_def consumer_handle_position_def
        consumer_handle_ok_def represents_def ring_ok_def)
qed (rule handle_publish_law handle_consume_law; assumption)+

section \<open>The object's own producer path with consumer handles\<close>

definition mixed_publish :: "build \<Rightarrow> 'ev endpoint \<Rightarrow> size_t \<Rightarrow> ('ev, 'w) batch_writer \<Rightarrow> 'w \<Rightarrow>
    failure + bool \<times> 'ev endpoint \<times> 'w" where
  "mixed_publish b s count writer w =
     (case try_publish_batch b (ep_object s) count writer w of
        Inl f \<Rightarrow> Inl f
      | Inr (accepted, d', w') \<Rightarrow> Inr (accepted, s\<lparr>ep_object := d'\<rparr>, w'))"

definition mixed_models :: "build \<Rightarrow> u64 \<Rightarrow> size_t \<Rightarrow> nat \<Rightarrow> 'ev endpoint \<Rightarrow> 'ev list \<Rightarrow> nat list \<Rightarrow> bool" where
  "mixed_models b base cap n s log cs \<longleftrightarrow> direct_models b base cap n (ep_object s) log cs \<and>
     length (ep_consumers s) = n \<and>
     (\<forall>i < n. consumer_handle_ok (ep_object s) (ep_consumers s ! i) \<and> handle_index (ep_consumers s ! i) = i)"

lemma mixed_publish_law:
  assumes "mixed_models b base cap n s log cs"
  shows "\<exists>accepted s' w' old. mixed_publish b s count writer w = Inr (accepted, s', w') \<and>
    length old = unat count \<and> (accepted \<longleftrightarrow> room_for (unat cap) log cs (unat count)) \<and>
    (if accepted then mixed_models b base cap n s' (log @ fst (written writer old 0 w)) cs \<and>
       w' = snd (written writer old 0 w)
     else mixed_models b base cap n s' log cs \<and> w' = w)"
proof -
  let ?d = "ep_object s" and ?old = "batch_slots (ep_object s) (next_to_publish (ep_object s)) (unat count)"
  have d: "disruptor_ok ?d" "represents base ?d log cs" "b = Debug \<longrightarrow> producer_state ?d = Idle"
    and same: "capacity ?d = cap" "consumer_count ?d = n" "length (ep_consumers s) = n"
    and hs: "\<And>i. i < n \<Longrightarrow> consumer_handle_ok ?d (ep_consumers s ! i) \<and> handle_index (ep_consumers s ! i) = i"
    using assms by (auto simp: mixed_models_def direct_models_def)
  obtain acc d' w' where run: "try_publish_batch b ?d count writer w = Inr (acc, d', w')"
    and sp: "disruptor_ok d'" "capacity d' = capacity ?d" "consumer_count d' = consumer_count ?d"
      "producer_state d' = producer_state ?d" "consumers d' = consumers ?d"
      "acc \<longleftrightarrow> room_for (unat (capacity ?d)) log cs (unat count)"
      "if acc then let (es, w'') = written writer ?old 0 w in w' = w'' \<and> represents base d' (log @ es) cs
       else w' = w \<and> events d' = events ?d \<and> published d' = published ?d \<and> represents base d' log cs"
    using try_publish_batch_spec [OF d, of count writer w] by blast
  have keep: "mixed_models b base cap n (s\<lparr>ep_object := d'\<rparr>) (log @ es) cs"
    if "represents base d' (log @ es) cs" for es
    using that sp(1-4) d(3) same hs
      consumer_handle_ok_publish [OF _ disruptor_ok_ring_ok [OF d(1)] d(2) that sp(5,3)]
    by (simp add: mixed_models_def direct_models_def)
  show ?thesis using run sp(6,7) same(1) keep keep [of "[]"]
    by (intro exI [of _ acc] exI [of _ "s\<lparr>ep_object := d'\<rparr>"] exI [of _ w'] exI [of _ ?old])
      (cases acc; auto simp: mixed_publish_def split: prod.splits)
qed

lemma mixed_consume_law:
  assumes "mixed_models b base cap n s log cs" "i < n"
  shows "\<exists>k s'. handle_consume s i max_count handler h =
      Inr (of_nat k, s', deliver handler (base + of_nat (cs ! i)) (take k (drop (cs ! i) log)) h) \<and>
    k \<le> unat max_count \<and> cs ! i + k \<le> length log \<and>
    (k = 0 \<longleftrightarrow> max_count = 0 \<or> cs ! i = length log) \<and>
    mixed_models b base cap n s' log (cs[i := cs ! i + k])"
proof -
  let ?d = "ep_object s"
  have d: "disruptor_ok ?d" "represents base ?d log cs" "b = Debug \<longrightarrow> producer_state ?d = Idle"
    and same: "capacity ?d = cap" "consumer_count ?d = n" "length (ep_consumers s) = n"
    and hs: "\<And>i. i < n \<Longrightarrow> consumer_handle_ok ?d (ep_consumers s ! i) \<and> handle_index (ep_consumers s ! i) = i"
    using assms by (auto simp: mixed_models_def direct_models_def)
  obtain k s' where step: "handle_consume s i max_count handler h =
      Inr (of_nat k, s', deliver handler (base + of_nat (cs ! i)) (take k (drop (cs ! i) log)) h)"
      "k \<le> unat max_count" "cs ! i + k \<le> length log" "k = 0 \<longleftrightarrow> max_count = 0 \<or> cs ! i = length log"
      "represents base (ep_object s') log (cs[i := cs ! i + k])" "length (ep_consumers s') = n"
      "\<forall>j < n. consumer_handle_ok (ep_object s') (ep_consumers s' ! j) \<and> handle_index (ep_consumers s' ! j) = j"
    and obj: "ep_object s' = ?d\<lparr>consumers := (consumers ?d)[i := consumers ?d ! i + of_nat k]\<rparr>"
    and taken: "unat (of_nat k :: u64) \<le> unat (published ?d - consumers ?d ! i)"
    using handle_consume_step [where s = s and base = base and log = log and cs = cs and i = i and n = n
        and max_count = max_count and handler = handler and h = h,
        OF disruptor_ok_ring_ok [OF d(1)] d(2) same(2,3) hs assms(2)] by blast
  have "disruptor_ok (ep_object s')"
    unfolding obj using assms(2) same(2) taken by (intro disruptor_ok_consume [OF d(1)]) simp_all
  then have "mixed_models b base cap n s' log (cs[i := cs ! i + k])"
    using step d(3) same by (simp add: mixed_models_def direct_models_def, simp add: obj)
  then show ?thesis using step(1-4) by blast
qed

interpretation mixed: multicast "mixed_publish b" handle_consume handle_position "mixed_models b base cap n" "unat cap" n base
  for b base cap n
proof unfold_locales
  show "mixed_models b base cap n s log cs \<Longrightarrow> length cs = n \<and>
      (\<forall>c \<in> set cs. c \<le> length log \<and> length log \<le> c + unat cap)" for s log cs
    using direct.models_shape [of b base cap n "ep_object s" log cs] by (auto simp: mixed_models_def)
  show "mixed_models b base cap n s log cs \<Longrightarrow> i < n \<Longrightarrow> handle_position s i = base + of_nat (cs ! i)"
    for s log cs i
    using direct.position_law [of b base cap n "ep_object s" log cs i]
    by (auto simp: mixed_models_def direct_models_def handle_position_def consumer_handle_position_def
        consumer_handle_ok_def consumer_position_def)
qed (rule mixed_publish_law mixed_consume_law; assumption)+

section \<open>New objects\<close>

text \<open>An object with a producer handle and a handle for each of its consumers.\<close>

definition new_endpoint :: "build \<Rightarrow> size_t \<Rightarrow> nat \<Rightarrow> 'ev \<Rightarrow> u64 \<Rightarrow> failure + 'ev endpoint" where
  "new_endpoint b cap n dflt p =
     (case make_producer b (single_producer_disruptor cap n dflt p) of
        Inl f \<Rightarrow> Inl f
      | Inr (d, h) \<Rightarrow> Inr \<lparr>ep_object = d, ep_producer = h, ep_consumers = map (make_consumer d) [0..<n]\<rparr>)"

lemma new_direct_models:
  assumes "template_ok cap n"
  shows "direct_models b p cap n (single_producer_disruptor cap n dflt p) [] (replicate n 0)"
  using new_disruptor_ok [OF assms] new_disruptor_represents [of p cap n dflt]
  by (simp add: direct_models_def, simp add: single_producer_disruptor_def)

lemma new_handle_models:
  assumes "template_ok cap n"
  shows "\<exists>s. new_endpoint b cap n dflt p = Inr s \<and> handle_models b p cap n s [] (replicate n 0)"
proof -
  let ?d = "single_producer_disruptor cap n dflt p"
  have idle: "b = Debug \<longrightarrow> producer_state ?d = Idle" by (simp add: single_producer_disruptor_def)
  obtain d h where make: "make_producer b ?d = Inr (d, h)" "producer_ok d h"
    "b = Debug \<longrightarrow> producer_state d = Handle" "synchronize_owner_state b d h = ?d"
    "represents p d [] (replicate n 0)"
    using make_producer_ok [OF new_disruptor_ok [OF assms] idle] new_disruptor_represents by metis
  have "capacity d = cap" "consumer_count d = n"
    using synchronize_fields(1,2) [of b d h] unfolding make(4) by (simp_all add: single_producer_disruptor_def)
  moreover have "ring_ok d" using make(2) by (simp add: producer_ok_def cursor_ok_def)
  ultimately have "handle_models b p cap n
      \<lparr>ep_object = d, ep_producer = h, ep_consumers = map (make_consumer d) [0..<n]\<rparr> [] (replicate n 0)"
    using make make_consumer_ok [of _ d]
    by (simp add: handle_models_def, simp add: make_consumer_def)
  with make(1) show ?thesis by (simp add: new_endpoint_def)
qed

text \<open>An object with consumer handles, published to directly: there is no live producer handle.\<close>

definition no_producer :: producer_handle where
  "no_producer = \<lparr>owner_live = False, handle_next_to_publish = 0, handle_available_before_rescan = 0,
     handle_blocking_consumer = 0\<rparr>"

definition new_mixed :: "size_t \<Rightarrow> nat \<Rightarrow> 'ev \<Rightarrow> u64 \<Rightarrow> 'ev endpoint" where
  "new_mixed cap n dflt p =
     (let d = single_producer_disruptor cap n dflt p
      in \<lparr>ep_object = d, ep_producer = no_producer, ep_consumers = map (make_consumer d) [0..<n]\<rparr>)"

lemma new_mixed_models:
  assumes "template_ok cap n"
  shows "mixed_models b p cap n (new_mixed cap n dflt p) [] (replicate n 0)"
  using new_direct_models [OF assms, of b p dflt] make_consumer_ok [of _ "single_producer_disruptor cap n dflt p"]
  by (simp add: mixed_models_def new_mixed_def Let_def, simp add: direct_models_def, simp add: make_consumer_def)

end
