(* ===== verification/Stream_Client.thy ===== *)
theory Stream_Client
  imports Multicast
begin

text \<open>
  The loops every benchmark of the disruptor runs against it: a producer that publishes
  \<open>total\<close> values in batches and retries a rejected batch, and consumers that each poll until
  they have handled \<open>total\<close> events. The threads' turns, one publication or consumption
  attempt each, may come in any order. The loops are proved correct once, against the
  interface and the laws of the writer and the handler.
\<close>

section \<open>Programs and their turns\<close>

text \<open>
  \<open>batch\<close> gives the size of the next batch from what remains, \<open>progress\<close> reads how much a
  consumer has handled from its state, \<open>advance\<close> is what its loop adds after a call.
\<close>

record ('ev, 'h) stream_program =
  event_total :: u64
  batch :: "u64 \<Rightarrow> size_t"
  event_writer_from :: "u64 \<Rightarrow> ('ev, unit) batch_writer"
  drain :: size_t
  handler_from :: "u64 \<Rightarrow> ('ev, 'h) sequence_handler"
  progress_of :: "'h \<Rightarrow> u64"
  advance :: "size_t \<Rightarrow> 'h \<Rightarrow> 'h"

record ('s, 'h) client =
  cl_stream :: 's
  cl_published :: u64
  cl_handlers :: "'h list"

datatype turn = Producer_turn | Consumer_turn nat

definition publish_attempt :: "('s \<Rightarrow> size_t \<Rightarrow> ('ev, unit) batch_writer \<Rightarrow> unit \<Rightarrow> failure + bool \<times> 's \<times> unit) \<Rightarrow>
    ('ev, 'h) stream_program \<Rightarrow> ('s, 'h) client \<Rightarrow> failure + bool \<times> ('s, 'h) client" where
  "publish_attempt publish prog c =
     (let count = batch prog (event_total prog - cl_published c)
      in case publish (cl_stream c) count (event_writer_from prog (cl_published c)) () of
           Inl f \<Rightarrow> Inl f
         | Inr (accepted, s', _) \<Rightarrow> Inr (accepted, c\<lparr>cl_stream := s',
             cl_published := (if accepted then cl_published c + count else cl_published c)\<rparr>))"

definition publish_turn :: "('s \<Rightarrow> size_t \<Rightarrow> ('ev, unit) batch_writer \<Rightarrow> unit \<Rightarrow> failure + bool \<times> 's \<times> unit) \<Rightarrow>
    ('ev, 'h) stream_program \<Rightarrow> ('s, 'h) client \<Rightarrow> failure + ('s, 'h) client" where
  "publish_turn publish prog c =
     (if cl_published c < event_total prog
      then case publish_attempt publish prog c of
             Inl f \<Rightarrow> Inl f
           | Inr (_, c') \<Rightarrow> Inr c'
      else Inr c)"

definition consume_turn :: "('s \<Rightarrow> nat \<Rightarrow> size_t \<Rightarrow> ('ev, 'h) sequence_handler \<Rightarrow> 'h \<Rightarrow> failure + size_t \<times> 's \<times> 'h) \<Rightarrow>
    ('ev, 'h) stream_program \<Rightarrow> u64 \<Rightarrow> nat \<Rightarrow> ('s, 'h) client \<Rightarrow> failure + ('s, 'h) client" where
  "consume_turn consume prog first i c =
     (if progress_of prog (cl_handlers c ! i) < event_total prog
      then case consume (cl_stream c) i (drain prog) (handler_from prog first) (cl_handlers c ! i) of
             Inl f \<Rightarrow> Inl f
           | Inr (n, s', h') \<Rightarrow> Inr (c\<lparr>cl_stream := s', cl_handlers := (cl_handlers c)[i := advance prog n h']\<rparr>)
      else Inr c)"

fun run_turns :: "('s \<Rightarrow> size_t \<Rightarrow> ('ev, unit) batch_writer \<Rightarrow> unit \<Rightarrow> failure + bool \<times> 's \<times> unit) \<Rightarrow>
    ('s \<Rightarrow> nat \<Rightarrow> size_t \<Rightarrow> ('ev, 'h) sequence_handler \<Rightarrow> 'h \<Rightarrow> failure + size_t \<times> 's \<times> 'h) \<Rightarrow>
    ('ev, 'h) stream_program \<Rightarrow> u64 \<Rightarrow> turn list \<Rightarrow> ('s, 'h) client \<Rightarrow> failure + ('s, 'h) client" where
  "run_turns publish consume prog first [] c = Inr c"
| "run_turns publish consume prog first (t # ts) c =
     (case (case t of Producer_turn \<Rightarrow> publish_turn publish prog c
                    | Consumer_turn i \<Rightarrow> consume_turn consume prog first i c) of
        Inl f \<Rightarrow> Inl f
      | Inr c' \<Rightarrow> run_turns publish consume prog first ts c')"

definition finished :: "('ev, 'h) stream_program \<Rightarrow> ('s, 'h) client \<Rightarrow> bool" where
  "finished prog c \<longleftrightarrow> \<not> cl_published c < event_total prog \<and>
     (\<forall>h \<in> set (cl_handlers c). \<not> progress_of prog h < event_total prog)"

definition turn_ok :: "nat \<Rightarrow> turn \<Rightarrow> bool" where
  "turn_ok n t \<longleftrightarrow> (case t of Producer_turn \<Rightarrow> True | Consumer_turn i \<Rightarrow> i < n)"

text \<open>
  A whole run from given handler states: what ends it early, or the state in which every loop
  has ended. A schedule that ends before the loops do is \<open>Still_running\<close>.
\<close>

datatype run_error = Stopped failure | Still_running | Failed_validation

definition run_program :: "('s \<Rightarrow> size_t \<Rightarrow> ('ev, unit) batch_writer \<Rightarrow> unit \<Rightarrow> failure + bool \<times> 's \<times> unit) \<Rightarrow>
    ('s \<Rightarrow> nat \<Rightarrow> size_t \<Rightarrow> ('ev, 'h) sequence_handler \<Rightarrow> 'h \<Rightarrow> failure + size_t \<times> 's \<times> 'h) \<Rightarrow>
    ('ev, 'h) stream_program \<Rightarrow> u64 \<Rightarrow> turn list \<Rightarrow> 's \<Rightarrow> 'h list \<Rightarrow> run_error + ('s, 'h) client" where
  "run_program publish consume prog first turns s hs =
     (case run_turns publish consume prog first turns \<lparr>cl_stream = s, cl_published = 0, cl_handlers = hs\<rparr> of
        Inl f \<Rightarrow> Inl (Stopped f)
      | Inr c \<Rightarrow> if finished prog c then Inr c else Inl Still_running)"

text \<open>Every thread gets one turn.\<close>

definition fair_round :: "nat \<Rightarrow> turn list" where
  "fair_round n = Producer_turn # map Consumer_turn [0..<n]"

lemma run_turns_append:
  "run_turns publish consume prog first (xs @ ys) c =
     (case run_turns publish consume prog first xs c of Inl f \<Rightarrow> Inl f
      | Inr c' \<Rightarrow> run_turns publish consume prog first ys c')"
  by (induction xs arbitrary: c) (auto split: sum.splits turn.splits)

lemma list_all2_raise: "ks ! i \<le> k \<Longrightarrow> list_all2 (\<le>) ks (ks[i := k :: nat])"
  by (cases "i < length ks") (auto simp: list_all2_conv_all_nth nth_list_update)

lemma sum_list_all2_le: "list_all2 (\<le>) ks (ls :: nat list) \<Longrightarrow> sum_list ks \<le> sum_list ls"
  by (induction rule: list_all2_induct) auto

lemma sum_list_all2_less:
  "list_all2 (\<le>) ks (ls :: nat list) \<Longrightarrow> i < length ks \<Longrightarrow> ks ! i < ls ! i \<Longrightarrow> sum_list ks < sum_list ls"
proof (induction arbitrary: i rule: list_all2_induct)
  case (Cons k ks l ls)
  then show ?case using sum_list_all2_le [of ks ls] by (cases i) (fastforce intro: add_le_less_mono)+
qed simp

section \<open>Writers, handlers and batches\<close>

text \<open>A writer that replaces the slot by a function of its position.\<close>

lemma written_by_position:
  assumes "\<And>e i. writer e i () = (g (first + i), ())"
  shows "fst (written writer old i ()) = map (\<lambda>q. g (first + of_nat q :: u64)) [i..<i + length old]"
proof (induction old arbitrary: i)
  case (Cons e old)
  have "written writer old (Suc i) () = (fst (written writer old (Suc i) ()), ())"
    by (simp add: prod_eq_iff)
  then have "fst (written writer (e # old) i ()) = g (first + of_nat i) # fst (written writer old (Suc i) ())"
    using assms [of e "of_nat i"] by (simp split: prod.splits)
  moreover have "[i..<i + length (e # old)] = i # [Suc i..<Suc i + length old]"
    by (subst upt_conv_Cons) simp_all
  ultimately show ?case by (simp only: Cons.IH list.map)
qed simp

lemma written_values_from:
  assumes "\<And>e i. writer e i () = (g (of_nat p + i), ())"
  shows "fst (written writer old 0 ()) = map (\<lambda>q. g (of_nat q :: u64)) [p..<p + length old]"
  using written_by_position [where writer = writer and old = old and i = 0, OF assms]
    map_add_upt [of p "length old", symmetric]
  by (simp add: add.commute o_def)

text \<open>A handler that takes each state to the next one.\<close>

lemma deliver_steps:
  assumes "\<And>j. k \<le> j \<Longrightarrow> j < k + n \<Longrightarrow> handler (vals j) (first + of_nat j) (st j) = st (Suc j)"
  shows "deliver handler (first + of_nat k) (map vals [k..<k + n]) (st k) = st (k + n)"
  using assms
proof (induction n arbitrary: k)
  case (Suc n)
  have "deliver handler (first + of_nat (Suc k)) (map vals [Suc k..<Suc k + n]) (st (Suc k)) = st (Suc k + n)"
    by (rule Suc.IH) (simp add: Suc.prems)
  moreover have "handler (vals k) (first + of_nat k) (st k) = st (Suc k)" by (rule Suc.prems) simp_all
  moreover have "first + of_nat k + 1 = first + of_nat (Suc k)" by simp
  ultimately show ?case unfolding upt_first list.map deliver.simps by (simp only: add_Suc_shift)
qed simp

text \<open>A batch of at most \<open>b\<close> of what remains of \<open>n\<close>.\<close>

lemma tail_batch:
  assumes "p < unat n"
  shows "unat (if n - of_nat p < b then n - of_nat p else b :: size_t) = min (unat n - p) (unat b)"
proof -
  have "unat (of_nat p :: u64) = p" using assms by (intro unat_of_nat_le64 [of _ n]) simp
  then have "unat (n - of_nat p) = unat n - p"
    using assms unat_sub_le [of "of_nat p" n] by (simp add: word_nat)
  then show ?thesis using unat_min64 [of "n - of_nat p" b] by simp
qed

lemma tail_batch_law:
  assumes "p < unat n" "b \<noteq> 0" "b \<le> cap" "B = (if n - of_nat p < b then n - of_nat p else b :: size_t)"
  shows "0 < unat B \<and> unat B \<le> unat cap \<and> p + unat B \<le> unat n"
proof -
  have "unat B = min (unat n - p) (unat b)" using tail_batch [OF assms(1), of b] by (simp only: assms(4))
  moreover have "0 < unat b" "unat b \<le> unat cap" using assms(2,3) by (simp_all add: unat_gt_0 word_nat)
  ultimately show ?thesis using assms(1) by (cases "unat n - p \<le> unat b") simp_all
qed

section \<open>Recording what a handler is given\<close>

text \<open>
  The same program with handlers that also keep, in order, every event and sequence they are
  called with. Forgetting the record gives back the program's own run, turn by turn, so what
  the records hold is what the program's handlers have been given.
\<close>

definition recording :: "('ev, 'h) sequence_handler \<Rightarrow> ('ev, 'h \<times> ('ev \<times> u64) list) sequence_handler" where
  "recording handler e sequence h = (handler e sequence (fst h), snd h @ [(e, sequence)])"

definition observed :: "('ev, 'h) stream_program \<Rightarrow> ('ev, 'h \<times> ('ev \<times> u64) list) stream_program" where
  "observed prog = \<lparr>event_total = event_total prog, batch = batch prog,
     event_writer_from = event_writer_from prog, drain = drain prog,
     handler_from = (\<lambda>first. recording (handler_from prog first)),
     progress_of = progress_of prog \<circ> fst, advance = (\<lambda>n h. (advance prog n (fst h), snd h))\<rparr>"

definition forget :: "('s, 'h \<times> 'r) client \<Rightarrow> ('s, 'h) client" where
  "forget c = \<lparr>cl_stream = cl_stream c, cl_published = cl_published c, cl_handlers = map fst (cl_handlers c)\<rparr>"

text \<open>A way to consume that treats the handler's state as opaque.\<close>

definition transparent :: "('s \<Rightarrow> nat \<Rightarrow> size_t \<Rightarrow> ('ev, 'h) sequence_handler \<Rightarrow> 'h \<Rightarrow> failure + size_t \<times> 's \<times> 'h) \<Rightarrow>
    ('s \<Rightarrow> nat \<Rightarrow> size_t \<Rightarrow> ('ev, 'h \<times> ('ev \<times> u64) list) sequence_handler \<Rightarrow> 'h \<times> ('ev \<times> u64) list \<Rightarrow>
      failure + size_t \<times> 's \<times> 'h \<times> ('ev \<times> u64) list) \<Rightarrow> bool" where
  "transparent consume consume' \<longleftrightarrow> (\<forall>s i max_count handler h.
     map_sum id (\<lambda>(n, s', h'). (n, s', fst h')) (consume' s i max_count (recording handler) h) =
       consume s i max_count handler (fst h))"

lemma read_slots_recording:
  "fst (read_slots (recording handler) slot first evs is h) = read_slots handler slot first evs is (fst h)"
  by (induction "is" arbitrary: h) (simp_all add: recording_def)

lemma direct_consume_transparent: "transparent direct_consume direct_consume"
  by (simp add: transparent_def direct_consume_def consume_available_def read_slots_recording Let_def)

lemma handle_consume_transparent: "transparent handle_consume handle_consume"
  by (simp add: transparent_def handle_consume_def consumer_consume_available_def read_slots_recording Let_def)

lemma observed_fields [simp]:
  "event_total (observed prog) = event_total prog" "batch (observed prog) = batch prog"
  "event_writer_from (observed prog) = event_writer_from prog" "drain (observed prog) = drain prog"
  "handler_from (observed prog) first = recording (handler_from prog first)"
  "progress_of (observed prog) h = progress_of prog (fst h)"
  "advance (observed prog) n h = (advance prog n (fst h), snd h)"
  by (simp_all add: observed_def)

lemma forget_fields [simp]:
  "cl_stream (forget c) = cl_stream c" "cl_published (forget c) = cl_published c"
  "cl_handlers (forget c) = map fst (cl_handlers c)"
  by (simp_all add: forget_def)

lemma forget_update:
  "forget (c\<lparr>cl_stream := s', cl_published := q\<rparr>) = (forget c)\<lparr>cl_stream := s', cl_published := q\<rparr>"
  "forget (c\<lparr>cl_stream := s', cl_handlers := hs\<rparr>) = (forget c)\<lparr>cl_stream := s', cl_handlers := map fst hs\<rparr>"
  by (simp_all add: forget_def)

lemma publish_turn_forget:
  "map_sum id forget (publish_turn publish (observed prog) c) = publish_turn publish prog (forget c)"
  by (simp add: publish_turn_def publish_attempt_def Let_def forget_update split: sum.splits prod.splits)

lemma consume_turn_forget:
  assumes "transparent consume consume'" "i < length (cl_handlers c)"
  shows "map_sum id forget (consume_turn consume' (observed prog) first i c) =
    consume_turn consume prog first i (forget c)"
proof -
  have "map_sum id (\<lambda>(n, s', h'). (n, s', fst h'))
      (consume' (cl_stream c) i (drain prog) (recording (handler_from prog first)) (cl_handlers c ! i)) =
    consume (cl_stream c) i (drain prog) (handler_from prog first) (fst (cl_handlers c ! i))"
    using assms(1) unfolding transparent_def by blast
  then show ?thesis using assms(2)
    by (cases "consume' (cl_stream c) i (drain prog) (recording (handler_from prog first)) (cl_handlers c ! i)")
      (auto simp: consume_turn_def forget_update map_update split: sum.splits prod.splits dest!: sym [of _ "consume _ _ _ _ _"])
qed

lemma consume_turn_length:
  "consume_turn consume prog first i c = Inr c' \<Longrightarrow> length (cl_handlers c') = length (cl_handlers c)"
  by (auto simp: consume_turn_def split: if_splits sum.splits)

lemma publish_turn_length:
  "publish_turn publish prog c = Inr c' \<Longrightarrow> length (cl_handlers c') = length (cl_handlers c)"
  by (auto simp: publish_turn_def publish_attempt_def Let_def split: if_splits sum.splits)

lemma run_turns_forget:
  assumes "transparent consume consume'" "\<forall>t \<in> set ts. turn_ok (length (cl_handlers c)) t"
  shows "map_sum id forget (run_turns publish consume' (observed prog) first ts c) =
    run_turns publish consume prog first ts (forget c)"
  using assms(2)
proof (induction ts arbitrary: c)
  case (Cons t ts)
  let ?turn = "case t of Producer_turn \<Rightarrow> publish_turn publish (observed prog) c
    | Consumer_turn i \<Rightarrow> consume_turn consume' (observed prog) first i c"
  have same: "map_sum id forget ?turn = (case t of Producer_turn \<Rightarrow> publish_turn publish prog (forget c)
      | Consumer_turn i \<Rightarrow> consume_turn consume prog first i (forget c))"
    using Cons.prems publish_turn_forget consume_turn_forget [OF assms(1), of _ c]
    by (auto simp: turn_ok_def split: turn.splits)
  show ?case
  proof (cases ?turn)
    case (Inl f)
    then show ?thesis using same by (simp flip: same)
  next
    case (Inr c')
    then have "length (cl_handlers c') = length (cl_handlers c)"
      by (cases t) (auto dest: publish_turn_length consume_turn_length)
    then have "map_sum id forget (run_turns publish consume' (observed prog) first ts c') =
        run_turns publish consume prog first ts (forget c')"
      using Cons.prems by (intro Cons.IH) simp
    then show ?thesis using Inr same by (simp add: id_def flip: same)
  qed
qed simp

lemma run_program_forget:
  assumes "transparent consume consume'" "\<forall>t \<in> set ts. turn_ok (length hs) t"
  shows "map_sum id forget (run_program publish consume' (observed prog) first ts s hs) =
    run_program publish consume prog first ts s (map fst hs)"
proof -
  let ?c = "\<lparr>cl_stream = s, cl_published = 0, cl_handlers = hs\<rparr>"
  have same: "run_turns publish consume prog first ts \<lparr>cl_stream = s, cl_published = 0, cl_handlers = map fst hs\<rparr> =
      map_sum id forget (run_turns publish consume' (observed prog) first ts ?c)"
    using run_turns_forget [OF assms(1), of ts ?c publish prog first] assms(2) by (simp add: forget_def [of ?c])
  have fin: "finished (observed prog) c \<longleftrightarrow> finished prog (forget c)" for c by (simp add: finished_def)
  show ?thesis unfolding run_program_def same
    by (cases "run_turns publish consume' (observed prog) first ts ?c") (simp_all add: fin)
qed

lemma run_program_observed:
  assumes "transparent consume consume'" "\<forall>t \<in> set ts. turn_ok n t"
  shows "run_program publish consume prog first ts s (replicate n h0) =
    map_sum id forget (run_program publish consume' (observed prog) first ts s (replicate n (h0, [])))"
  using run_program_forget [OF assms(1), of ts "replicate n (h0, [])" publish prog first s] assms(2) by simp

lemma deliver_recording:
  "deliver (recording handler) first es h =
     (deliver handler first es (fst h), snd h @ map (\<lambda>q. (es ! q, first + of_nat q)) [0..<length es])"
proof (induction es arbitrary: first h)
  case (Cons e es)
  have "map (\<lambda>q. ((e # es) ! q, first + of_nat q)) [0..<length (e # es)] =
      (e, first) # map (\<lambda>q. (es ! q, first + 1 + of_nat q)) [0..<length es]"
    by (simp add: map_upt_Suc add.assoc del: upt_Suc)
  then show ?case using Cons.IH [of "first + 1" "recording handler e first h"] by (simp add: recording_def del: upt_Suc)
qed simp

text \<open>What a consumer that has had \<open>k\<close> events of \<open>vals\<close> has been given.\<close>

definition given_events :: "(nat \<Rightarrow> 'ev) \<Rightarrow> u64 \<Rightarrow> nat \<Rightarrow> ('ev \<times> u64) list" where
  "given_events vals first k = map (\<lambda>q. (vals q, first + of_nat q)) [0..<k]"

lemma given_events_0 [simp]: "given_events vals first 0 = []"
  by (simp add: given_events_def)

lemma observed_handler:
  assumes "advance prog (of_nat n) (deliver (handler_from prog first) (first + of_nat k) (map vals [k..<k + n]) h) = h'"
  shows "advance (observed prog) (of_nat n) (deliver (handler_from (observed prog) first) (first + of_nat k)
    (map vals [k..<k + n]) (h, given_events vals first k)) = (h', given_events vals first (k + n))"
proof -
  have "given_events vals first (k + n) =
      given_events vals first k @ map (\<lambda>q. (vals (k + q), first + of_nat k + of_nat q)) [0..<n]"
    unfolding given_events_def upt_add_eq_append [of 0 k n, simplified] map_append
    using map_add_upt [of k n, symmetric] by (simp add: o_def add.commute add.left_commute)
  then show ?thesis using assms by (simp add: deliver_recording cong: map_cong)
qed

section \<open>Correctness over the interface\<close>

text \<open>
  The laws of a program, for each of its valid settings: batches fit the ring and what
  remains, the writer leaves the stream's values, and a consumer that has handled \<open>k\<close>
  events is in the state \<open>expected\<close> of \<open>k\<close>.
\<close>

locale stream_client = multicast publish consume position models room consumer_total base
  for publish :: "'s \<Rightarrow> size_t \<Rightarrow> ('ev, unit) batch_writer \<Rightarrow> unit \<Rightarrow> failure + bool \<times> 's \<times> unit"
    and consume :: "'s \<Rightarrow> nat \<Rightarrow> size_t \<Rightarrow> ('ev, 'h) sequence_handler \<Rightarrow> 'h \<Rightarrow> failure + size_t \<times> 's \<times> 'h"
    and position :: "'s \<Rightarrow> nat \<Rightarrow> u64" and models :: "'s \<Rightarrow> 'ev list \<Rightarrow> nat list \<Rightarrow> bool"
    and room :: nat and consumer_total :: nat and base :: u64 +
  fixes valid :: "'c \<Rightarrow> bool" and prog :: "'c \<Rightarrow> ('ev, 'h) stream_program"
    and vals :: "'c \<Rightarrow> nat \<Rightarrow> 'ev" and aligned :: "'c \<Rightarrow> nat \<Rightarrow> bool"
    and expected :: "'c \<Rightarrow> u64 \<Rightarrow> nat \<Rightarrow> 'h"
  assumes drain_law: "valid x \<Longrightarrow> drain (prog x) \<noteq> 0"
    and batch_law: "valid x \<Longrightarrow> aligned x p \<Longrightarrow> p < unat (event_total (prog x)) \<Longrightarrow>
      0 < unat (batch (prog x) (event_total (prog x) - of_nat p)) \<and>
      unat (batch (prog x) (event_total (prog x) - of_nat p)) \<le> room \<and>
      p + unat (batch (prog x) (event_total (prog x) - of_nat p)) \<le> unat (event_total (prog x)) \<and>
      aligned x (p + unat (batch (prog x) (event_total (prog x) - of_nat p)))"
    and writer_law: "valid x \<Longrightarrow> aligned x p \<Longrightarrow> p < unat (event_total (prog x)) \<Longrightarrow>
      length old = unat (batch (prog x) (event_total (prog x) - of_nat p)) \<Longrightarrow>
      fst (written (event_writer_from (prog x) (of_nat p)) old 0 ()) = map (vals x) [p..<p + length old]"
    and handler_law: "valid x \<Longrightarrow> n \<le> unat (drain (prog x)) \<Longrightarrow> advance (prog x) (of_nat n)
      (deliver (handler_from (prog x) first) (first + of_nat k) (map (vals x) [k..<k + n]) (expected x first k)) =
      expected x first (k + n)"
    and progress_law: "valid x \<Longrightarrow> progress_of (prog x) (expected x first k) = of_nat k"
begin

text \<open>In a run after the stream \<open>log0\<close>, \<open>p\<close> values are published and consumer \<open>i\<close> has had \<open>ks ! i\<close>.\<close>

definition at :: "'c \<Rightarrow> 'ev list \<Rightarrow> ('s, 'h) client \<Rightarrow> nat \<Rightarrow> nat list \<Rightarrow> bool" where
  "at x log0 c p ks \<longleftrightarrow> aligned x p \<and> p \<le> unat (event_total (prog x)) \<and>
     models (cl_stream c) (log0 @ map (vals x) [0..<p]) (map (\<lambda>k. length log0 + k) ks) \<and>
     cl_published c = of_nat p \<and>
     cl_handlers c = map (expected x (base + of_nat (length log0))) ks"

lemma at_shape:
  assumes "at x log0 c p ks"
  shows "length ks = consumer_total" "\<And>k. k \<in> set ks \<Longrightarrow> k \<le> p \<and> p \<le> k + room" "unat (of_nat p :: u64) = p"
proof -
  have "models (cl_stream c) (log0 @ map (vals x) [0..<p]) (map (\<lambda>k. length log0 + k) ks)"
    and p: "p \<le> unat (event_total (prog x))"
    using assms by (auto simp: at_def)
  then show "length ks = consumer_total" "\<And>k. k \<in> set ks \<Longrightarrow> k \<le> p \<and> p \<le> k + room"
    using models_shape by fastforce+
  show "unat (of_nat p :: u64) = p" using p by (rule unat_of_nat_le64)
qed

lemma publish_attempt_at:
  assumes v: "valid x" and at: "at x log0 c p ks" and p: "p < unat (event_total (prog x))"
  shows "\<exists>acc c' p'. publish_attempt publish (prog x) c = Inr (acc, c') \<and> at x log0 c' p' ks \<and>
    (if acc then p < p' \<and> p' = p + unat (batch (prog x) (event_total (prog x) - of_nat p))
     else p' = p \<and> (\<exists>k \<in> set ks. k < p) \<and>
       (\<exists>k \<in> set ks. k + room < p + unat (batch (prog x) (event_total (prog x) - of_nat p))))"
proof -
  let ?count = "batch (prog x) (event_total (prog x) - of_nat p)"
  have al: "aligned x p" and m: "models (cl_stream c) (log0 @ map (vals x) [0..<p]) (map (\<lambda>k. length log0 + k) ks)"
    and pub: "cl_published c = of_nat p" using at by (auto simp: at_def)
  note b = batch_law [OF v al p]
  obtain acc s' w' old where run: "publish (cl_stream c) ?count (event_writer_from (prog x) (of_nat p)) () = Inr (acc, s', w')"
    and old: "length old = unat ?count"
    and acc: "acc \<longleftrightarrow> room_for room (log0 @ map (vals x) [0..<p]) (map (\<lambda>k. length log0 + k) ks) (unat ?count)"
    and res: "if acc then models s' ((log0 @ map (vals x) [0..<p]) @
        fst (written (event_writer_from (prog x) (of_nat p)) old 0 ())) (map (\<lambda>k. length log0 + k) ks) \<and>
        w' = snd (written (event_writer_from (prog x) (of_nat p)) old 0 ())
      else models s' (log0 @ map (vals x) [0..<p]) (map (\<lambda>k. length log0 + k) ks) \<and> w' = ()"
    using publish_law [OF m] by blast
  have turn: "publish_attempt publish (prog x) c = Inr (acc, c\<lparr>cl_stream := s',
      cl_published := (if acc then of_nat p + ?count else of_nat p)\<rparr>)"
    by (simp add: publish_attempt_def pub run Let_def)
  show ?thesis
  proof (cases acc)
    case True
    have "models s' (log0 @ map (vals x) [0..<p + unat ?count]) (map (\<lambda>k. length log0 + k) ks)"
      using res True writer_law [OF v al p old] old upt_add_eq_append [of 0 p "unat ?count"] by simp
    then show ?thesis using turn True at b
      by (intro exI [of _ True] exI [of _ "c\<lparr>cl_stream := s', cl_published := of_nat p + ?count\<rparr>"]
          exI [of _ "p + unat ?count"]) (simp add: at_def)
  next
    case False
    then obtain k where "k \<in> set ks" "k + room < p + unat ?count" using acc by (auto simp: room_for_def not_le)
    then have "(\<exists>k \<in> set ks. k < p) \<and> (\<exists>k \<in> set ks. k + room < p + unat ?count)"
      using b by (intro conjI bexI [of _ k]) auto
    moreover have "models s' (log0 @ map (vals x) [0..<p]) (map (\<lambda>k. length log0 + k) ks)" using res False by simp
    ultimately show ?thesis using turn False at
      by (intro exI [of _ False] exI [of _ "c\<lparr>cl_stream := s', cl_published := of_nat p\<rparr>"] exI [of _ p]) (simp add: at_def)
  qed
qed

lemma publish_turn_at:
  assumes v: "valid x" and at: "at x log0 c p ks"
  shows "\<exists>c' p'. publish_turn publish (prog x) c = Inr c' \<and> at x log0 c' p' ks \<and> p \<le> p' \<and>
    (p < unat (event_total (prog x)) \<longrightarrow> p < p' \<or> (\<exists>k \<in> set ks. k < p))"
proof (cases "p < unat (event_total (prog x))")
  case False
  then show ?thesis using at at_shape(3) [OF at]
    by (intro exI [of _ c] exI [of _ p]) (auto simp: publish_turn_def at_def word_nat)
next
  case True
  obtain acc c' p' where "publish_attempt publish (prog x) c = Inr (acc, c')" "at x log0 c' p' ks"
    "if acc then p < p' \<and> p' = p + unat (batch (prog x) (event_total (prog x) - of_nat p))
        else p' = p \<and> (\<exists>k \<in> set ks. k < p) \<and>
          (\<exists>k \<in> set ks. k + room < p + unat (batch (prog x) (event_total (prog x) - of_nat p)))"
    using publish_attempt_at [OF v at True] by blast
  moreover have "cl_published c < event_total (prog x)"
    using True at at_shape(3) [OF at] by (simp add: at_def word_nat)
  ultimately show ?thesis by (intro exI [of _ c'] exI [of _ p']) (auto simp: publish_turn_def split: if_splits)
qed

lemma consume_turn_at:
  assumes v: "valid x" and at: "at x log0 c p ks" and i: "i < consumer_total"
  shows "\<exists>c' k. consume_turn consume (prog x) (base + of_nat (length log0)) i c = Inr c' \<and>
    at x log0 c' p (ks[i := k]) \<and> ks ! i \<le> k \<and> (ks ! i < p \<longrightarrow> ks ! i < k)"
proof (cases "ks ! i < unat (event_total (prog x))")
  case False
  have i': "i < length ks" using i at_shape(1) [OF at] by simp
  then have "\<not> ks ! i < p" using False at by (auto simp: at_def)
  moreover have "cl_handlers c ! i = expected x (base + of_nat (length log0)) (ks ! i)"
    using at i' by (simp add: at_def)
  moreover have "unat (of_nat (ks ! i) :: u64) = ks ! i"
    using at_shape(2) [OF at nth_mem [OF i']] at by (intro unat_of_nat_le64 [of _ "event_total (prog x)"]) (simp add: at_def)
  ultimately show ?thesis using False at progress_law [OF v]
    by (intro exI [of _ c] exI [of _ "ks ! i"]) (simp add: consume_turn_def word_nat)
next
  case True
  let ?first = "base + of_nat (length log0) :: u64" and ?log = "log0 @ map (vals x) [0..<p]"
  let ?cs = "map (\<lambda>k. length log0 + k) ks"
  have i': "i < length ks" using i at_shape(1) [OF at] by simp
  have m: "models (cl_stream c) ?log ?cs" and h: "cl_handlers c = map (expected x ?first) ks"
    and p: "p \<le> unat (event_total (prog x))" and kp: "ks ! i \<le> p"
    using at at_shape(2) [OF at nth_mem [OF i']] by (auto simp: at_def)
  have ki: "unat (of_nat (ks ! i) :: u64) = ks ! i" using kp p by (intro unat_of_nat_le64 [of _ "event_total (prog x)"]) simp
  obtain n s' where run: "consume (cl_stream c) i (drain (prog x)) (handler_from (prog x) ?first) (cl_handlers c ! i) =
      Inr (of_nat n, s', deliver (handler_from (prog x) ?first) (base + of_nat (?cs ! i))
        (take n (drop (?cs ! i) ?log)) (cl_handlers c ! i))"
    and n: "?cs ! i + n \<le> length ?log" "n \<le> unat (drain (prog x))" "n = 0 \<longleftrightarrow> drain (prog x) = 0 \<or> ?cs ! i = length ?log"
    and m': "models s' ?log (?cs[i := ?cs ! i + n])"
    using consume_law [OF m i] by blast
  have csi: "?cs ! i = length log0 + ks ! i" using i' by simp
  have part: "take n (drop (?cs ! i) ?log) = map (vals x) [ks ! i..<ks ! i + n]"
    using n(1) unfolding csi by (simp add: drop_map take_map)
  have "cl_handlers c ! i = expected x ?first (ks ! i)" "base + of_nat (?cs ! i) = ?first + of_nat (ks ! i)"
    using i' by (simp_all add: h)
  then have "advance (prog x) (of_nat n) (deliver (handler_from (prog x) ?first) (base + of_nat (?cs ! i))
      (take n (drop (?cs ! i) ?log)) (cl_handlers c ! i)) = expected x ?first (ks ! i + n)"
    using handler_law [OF v n(2), of ?first "ks ! i"] by (simp only: part)
  then have turn: "consume_turn consume (prog x) ?first i c = Inr (c\<lparr>cl_stream := s',
      cl_handlers := (cl_handlers c)[i := expected x ?first (ks ! i + n)]\<rparr>)"
    using run True progress_law [OF v, of ?first "ks ! i"] i'
    by (simp add: consume_turn_def word_nat h ki)
  have "at x log0 (c\<lparr>cl_stream := s', cl_handlers := (cl_handlers c)[i := expected x ?first (ks ! i + n)]\<rparr>) p
      (ks[i := ks ! i + n])"
    using at m' i' by (simp add: at_def map_update add.assoc)
  moreover have "ks ! i < p \<longrightarrow> 0 < n" using n(3) i' drain_law [OF v] by auto
  ultimately show ?thesis using turn by (intro exI conjI) auto
qed

text \<open>No schedule of turns fails, and each keeps the run where the laws say it is.\<close>

lemma run_turns_at:
  assumes v: "valid x" and at: "at x log0 c p ks" and ts: "\<forall>t \<in> set ts. turn_ok consumer_total t"
  shows "\<exists>c' p' ks'. run_turns publish consume (prog x) (base + of_nat (length log0)) ts c = Inr c' \<and>
    at x log0 c' p' ks' \<and> p \<le> p' \<and> list_all2 (\<le>) ks ks'"
  using at ts
proof (induction ts arbitrary: c p ks)
  case Nil
  then show ?case by (intro exI [of _ c] exI [of _ p] exI [of _ ks]) (simp add: list_all2_refl)
next
  case (Cons t ts)
  obtain c1 p1 ks1 where step: "(case t of Producer_turn \<Rightarrow> publish_turn publish (prog x) c
      | Consumer_turn i \<Rightarrow> consume_turn consume (prog x) (base + of_nat (length log0)) i c) = Inr c1"
    and at1: "at x log0 c1 p1 ks1" "p \<le> p1" "list_all2 (\<le>) ks ks1"
  proof (cases t)
    case Producer_turn
    then show ?thesis using publish_turn_at [OF v Cons.prems(1)] that by (fastforce intro: list_all2_refl)
  next
    case (Consumer_turn i)
    then have i: "i < consumer_total" using Cons.prems(2) by (simp add: turn_ok_def)
    obtain c' k where "consume_turn consume (prog x) (base + of_nat (length log0)) i c = Inr c'"
      "at x log0 c' p (ks[i := k])" "ks ! i \<le> k"
      using consume_turn_at [OF v Cons.prems(1) i] by blast
    moreover from this(3) have "list_all2 (\<le>) ks (ks[i := k])" by (rule list_all2_raise)
    ultimately show ?thesis using Consumer_turn that [of c' p "ks[i := k]"] by simp
  qed
  obtain c' p' ks' where "run_turns publish consume (prog x) (base + of_nat (length log0)) ts c1 = Inr c'"
    "at x log0 c' p' ks'" "p1 \<le> p'" "list_all2 (\<le>) ks1 ks'"
    using Cons.IH [OF at1(1)] Cons.prems(2) by auto
  then show ?case using step at1(2,3) list_all2_trans [of "(\<le>)" "(\<le>)" "(\<le>)" ks ks1 ks']
    by (intro exI [of _ c'] exI [of _ p'] exI [of _ ks']) auto
qed

lemma finished_at:
  assumes v: "valid x" and at: "at x log0 c p ks"
  shows "finished (prog x) c \<longleftrightarrow> p = unat (event_total (prog x)) \<and> (\<forall>k \<in> set ks. k = p)"
proof -
  let ?n = "unat (event_total (prog x))"
  have p: "p \<le> ?n" "unat (of_nat p :: u64) = p" using at at_shape(3) [OF at] by (auto simp: at_def)
  have k: "k \<le> p \<and> unat (of_nat k :: u64) = k" if "k \<in> set ks" for k
    using at_shape(2) [OF at that] p(1) unat_of_nat_le64 [of k "event_total (prog x)"] by auto
  have "finished (prog x) c \<longleftrightarrow> ?n \<le> p \<and> (\<forall>k \<in> set ks. ?n \<le> k)"
    using at k p(2) progress_law [OF v] by (auto simp: finished_def at_def word_nat not_less)
  then show ?thesis using p(1) k by fastforce
qed


text \<open>When every consumer gets a turn, each that is behind takes an event.\<close>

lemma consumers_round_at:
  assumes v: "valid x" and at: "at x log0 c p ks"
  shows "\<exists>c' ks'. run_turns publish consume (prog x) (base + of_nat (length log0)) (map Consumer_turn [0..<consumer_total]) c =
      Inr c' \<and> at x log0 c' p ks' \<and> sum_list ks \<le> sum_list ks' \<and> ((\<exists>k \<in> set ks. k < p) \<longrightarrow> sum_list ks < sum_list ks')"
proof -
  let ?run = "run_turns publish consume (prog x) (base + of_nat (length log0))"
  have "\<exists>c' ks'. ?run (map Consumer_turn [0..<j]) c = Inr c' \<and> at x log0 c' p ks' \<and> list_all2 (\<le>) ks ks' \<and>
      (\<forall>i < j. ks ! i < p \<longrightarrow> ks ! i < ks' ! i)" if "j \<le> consumer_total" for j
    using that
  proof (induction j)
    case 0
    then show ?case using at by (intro exI [of _ c] exI [of _ ks]) (simp add: list_all2_refl)
  next
    case (Suc j)
    then obtain c1 ks1 where run1: "?run (map Consumer_turn [0..<j]) c = Inr c1" "at x log0 c1 p ks1"
      and le1: "list_all2 (\<le>) ks ks1" and up1: "\<forall>i < j. ks ! i < p \<longrightarrow> ks ! i < ks1 ! i"
      by auto
    obtain c2 k where run2: "consume_turn consume (prog x) (base + of_nat (length log0)) j c1 = Inr c2"
      "at x log0 c2 p (ks1[j := k])" "ks1 ! j \<le> k" "ks1 ! j < p \<longrightarrow> ks1 ! j < k"
      using consume_turn_at [OF v run1(2), of j] Suc.prems by auto
    have len: "length ks1 = consumer_total" "length ks = consumer_total"
      using at_shape(1) [OF run1(2)] at_shape(1) [OF at] by simp_all
    have "ks ! j \<le> ks1 ! j" using list_all2_nthD [OF le1, of j] Suc.prems len by simp
    then have "\<forall>i < Suc j. ks ! i < p \<longrightarrow> ks ! i < ks1[j := k] ! i"
      using up1 run2(3,4) Suc.prems len by (auto simp: less_Suc_eq nth_list_update)
    moreover have "list_all2 (\<le>) ks (ks1[j := k])"
      using list_all2_trans [OF order_trans le1 list_all2_raise [OF run2(3)]] .
    ultimately show ?case using run1(1) run2(1,2)
      by (intro exI [of _ c2] exI [of _ "ks1[j := k]"]) (simp add: run_turns_append)
  qed
  from this [OF order_refl] obtain c' ks' where run: "?run (map Consumer_turn [0..<consumer_total]) c = Inr c'"
      "at x log0 c' p ks'" "list_all2 (\<le>) ks ks'" "\<forall>i < consumer_total. ks ! i < p \<longrightarrow> ks ! i < ks' ! i"
    by blast
  moreover have "sum_list ks < sum_list ks'" if "\<exists>k \<in> set ks. k < p"
    using that run(3,4) at_shape(1) [OF at] sum_list_all2_less [OF run(3)] by (auto simp: in_set_conv_nth)
  ultimately show ?thesis using sum_list_all2_le [OF run(3)] by blast
qed

text \<open>
  As long as a run is not finished, a round in which every thread gets a turn makes
  progress: the producer publishes, or a consumer is behind and takes an event.
\<close>

lemma fair_round_at:
  assumes v: "valid x" and at: "at x log0 c p ks" and open': "\<not> finished (prog x) c"
  shows "\<exists>c' p' ks'. run_turns publish consume (prog x) (base + of_nat (length log0)) (fair_round consumer_total) c =
      Inr c' \<and> at x log0 c' p' ks' \<and> p + sum_list ks < p' + sum_list ks'"
proof -
  let ?run = "run_turns publish consume (prog x) (base + of_nat (length log0))"
  obtain c1 p1 where turn: "publish_turn publish (prog x) c = Inr c1" and at1: "at x log0 c1 p1 ks" "p \<le> p1"
    and prog: "p < unat (event_total (prog x)) \<longrightarrow> p < p1 \<or> (\<exists>k \<in> set ks. k < p)"
    using publish_turn_at [OF v at] by blast
  obtain c' ks' where round: "?run (map Consumer_turn [0..<consumer_total]) c1 = Inr c'" "at x log0 c' p1 ks'"
    "sum_list ks \<le> sum_list ks'" "(\<exists>k \<in> set ks. k < p1) \<longrightarrow> sum_list ks < sum_list ks'"
    using consumers_round_at [OF v at1(1)] by blast
  have "p < p1 \<or> (\<exists>k \<in> set ks. k < p)"
  proof (cases "p < unat (event_total (prog x))")
    case False
    then have "p = unat (event_total (prog x))" using at by (auto simp: at_def)
    then obtain k where "k \<in> set ks" "k \<noteq> p" using open' finished_at [OF v at] by blast
    then show ?thesis using at_shape(2) [OF at, of k] by force
  qed (use prog in blast)
  then have "p + sum_list ks < p1 + sum_list ks'"
    using at1(2) round(3,4) by (fastforce dest: less_le_trans [OF _ at1(2)])
  then show ?thesis using round(1,2)
    by (intro exI [of _ c'] exI [of _ p1] exI [of _ ks']) (simp add: fair_round_def turn)
qed

text \<open>Enough rounds finish a run, whatever the state it is in.\<close>

lemma fair_rounds_finish:
  assumes v: "valid x" and at: "at x log0 c p ks"
  shows "\<exists>m c' p' ks'. run_turns publish consume (prog x) (base + of_nat (length log0))
      (concat (replicate m (fair_round consumer_total))) c = Inr c' \<and> finished (prog x) c' \<and>
    at x log0 c' p' ks' \<and> m \<le> Suc consumer_total * unat (event_total (prog x)) - (p + sum_list ks)"
  using at
proof (induction "Suc consumer_total * unat (event_total (prog x)) - (p + sum_list ks)" arbitrary: c p ks
    rule: less_induct)
  case less
  let ?run = "run_turns publish consume (prog x) (base + of_nat (length log0))"
  let ?bound = "Suc consumer_total * unat (event_total (prog x))"
  show ?case
  proof (cases "finished (prog x) c")
    case True
    then show ?thesis using less.prems
      by (intro exI [of _ 0] exI [of _ c] exI [of _ p] exI [of _ ks]) simp
  next
    case False
    obtain c1 p1 ks1 where one: "?run (fair_round consumer_total) c = Inr c1" "at x log0 c1 p1 ks1"
      and more: "p + sum_list ks < p1 + sum_list ks1"
      using fair_round_at [OF v less.prems False] by blast
    have "k \<le> unat (event_total (prog x))" if "k \<in> set ks1" for k
      using at_shape(2) [OF one(2) that] one(2) by (auto simp: at_def)
    then have "sum_list ks1 \<le> length ks1 * unat (event_total (prog x))"
      using sum_list_mono [of ks1 id "\<lambda>_. unat (event_total (prog x))"] by (simp add: sum_list_triv)
    then have le: "p1 + sum_list ks1 \<le> ?bound" using at_shape(1) [OF one(2)] one(2) by (simp add: at_def)
    obtain m c' p' ks' where rest: "?run (concat (replicate m (fair_round consumer_total))) c1 = Inr c'"
      "finished (prog x) c'" "at x log0 c' p' ks'" "m \<le> ?bound - (p1 + sum_list ks1)"
      using less.hyps [OF _ one(2)] more le by (meson diff_less_mono2 less_le_trans)
    then show ?thesis using one(1) more le
      by (intro exI [of _ "Suc m"] exI [of _ c'] exI [of _ p'] exI [of _ ks']) (simp add: run_turns_append)
  qed
qed

text \<open>
  A run on a drained stream: on every schedule it ends, if at all, with every consumer in the
  state the whole stream leads to, and enough fair rounds end it.
\<close>

definition run :: "'c \<Rightarrow> 'ev list \<Rightarrow> 's \<Rightarrow> 'h \<Rightarrow> turn list \<Rightarrow> run_error + ('s, 'h) client" where
  "run x log0 s h0 ts = run_program publish consume (prog x) (base + of_nat (length log0)) ts s
     (replicate consumer_total h0)"

definition run_done :: "'c \<Rightarrow> 'ev list \<Rightarrow> ('s, 'h) client \<Rightarrow> bool" where
  "run_done x log0 c \<longleftrightarrow> (let n = unat (event_total (prog x)) in
     cl_handlers c = replicate consumer_total (expected x (base + of_nat (length log0)) n) \<and>
     models (cl_stream c) (log0 @ map (vals x) [0..<n]) (replicate consumer_total (length log0 + n)))"

definition run_start :: "'c \<Rightarrow> 'ev list \<Rightarrow> 's \<Rightarrow> 'h \<Rightarrow> bool" where
  "run_start x log0 s h0 \<longleftrightarrow> valid x \<and> aligned x 0 \<and>
     models s log0 (replicate consumer_total (length log0)) \<and> h0 = expected x (base + of_nat (length log0)) 0"

lemma run_start_at:
  assumes "run_start x log0 s h0"
  shows "at x log0 \<lparr>cl_stream = s, cl_published = 0, cl_handlers = replicate consumer_total h0\<rparr> 0
    (replicate consumer_total 0)"
  using assms by (simp add: at_def run_start_def)

lemma run_done_at:
  assumes v: "valid x" and at: "at x log0 c p ks" and fin: "finished (prog x) c"
  shows "run_done x log0 c"
proof -
  have p: "p = unat (event_total (prog x))" "\<forall>k \<in> set ks. k = p" using finished_at [OF v at] fin by auto
  then have "ks = replicate consumer_total p" using at_shape(1) [OF at] by (simp add: replicate_eqI)
  then show ?thesis using at p(1) by (simp add: at_def run_done_def)
qed

lemma run_result:
  assumes start: "run_start x log0 s h0" and ts: "\<forall>t \<in> set ts. turn_ok consumer_total t"
  shows "run x log0 s h0 ts = Inl Still_running \<or> (\<exists>c. run x log0 s h0 ts = Inr c \<and> run_done x log0 c)"
proof -
  have v: "valid x" using start by (simp add: run_start_def)
  show ?thesis using run_turns_at [OF v run_start_at [OF start] ts] run_done_at [OF v]
    by (auto simp: run_def run_program_def)
qed

lemma run_finishes:
  assumes start: "run_start x log0 s h0"
  shows "\<exists>m c. m \<le> Suc consumer_total * unat (event_total (prog x)) \<and>
    run x log0 s h0 (concat (replicate m (fair_round consumer_total))) = Inr c \<and> run_done x log0 c"
proof -
  have v: "valid x" using start by (simp add: run_start_def)
  obtain m c p ks where "run_turns publish consume (prog x) (base + of_nat (length log0))
      (concat (replicate m (fair_round consumer_total)))
      \<lparr>cl_stream = s, cl_published = 0, cl_handlers = replicate consumer_total h0\<rparr> = Inr c"
    and "finished (prog x) c" "at x log0 c p ks" "m \<le> Suc consumer_total * unat (event_total (prog x))"
    using fair_rounds_finish [OF v run_start_at [OF start]] by auto
  then show ?thesis using run_done_at [OF v]
    by (intro exI [of _ m] exI [of _ c]) (simp add: run_def run_program_def)
qed

end

end
