(* ===== verification/Disruptor_Concurrent.thy ===== *)
theory Disruptor_Concurrent
  imports Stream_Spec
begin

text \<open>
  The publication and consumption protocol at the granularity of its shared-memory
  accesses: one producer thread and one thread per consumer, interleaved one access at a
  time. Every atomic cursor is kept as its modification order, and a load may return any
  entry that is not older than the newest one the loading thread has seen: an acquire load
  of another thread's cursor is allowed to be stale, as the C++ memory model allows. Slot
  accesses are plain.

  Where an operation of the class stands between two accesses is its program counter. The
  producer's steps are those of \<open>try_publish_batch\<close> (of the class or of its producer
  handle: they make the same accesses), the consumers' those of \<open>consume_available\<close>. The
  fields whose names begin with \<open>g_\<close> are ghosts: no guard reads them.
\<close>

unbundle bit_operations_syntax

section \<open>Threads and memory\<close>

datatype producer_pc =
    P_ready
  | P_blocker size_t
  | P_scan size_t nat size_t nat
  | P_write size_t nat

datatype consumer_pc = C_ready | C_read size_t nat

record consumer_thread =
  c_next :: u64
  c_cached :: u64
  c_seen :: nat
  c_pc :: consumer_pc

record 'ev machine =
  ring :: "'ev list"
  pub_order :: "u64 list"
  con_order :: "u64 list list"
  p_next :: u64
  p_avail :: size_t
  p_blk :: nat
  p_pc :: producer_pc
  p_seen :: "nat list"
  threads :: "consumer_thread list"
  g_log :: "'ev list"
  g_batch :: "'ev list"
  g_pubs :: "nat list"
  g_curs :: "nat list list"
  g_recv :: "('ev \<times> u64) list list"

definition slot :: "size_t \<Rightarrow> u64 \<Rightarrow> nat" where
  "slot cap sequence = unat (sequence AND (cap - 1))"

definition may_load :: "u64 list \<Rightarrow> nat \<Rightarrow> nat \<Rightarrow> bool" where
  "may_load order seen j \<longleftrightarrow> seen \<le> j \<and> j < length order"

definition init_machine :: "size_t \<Rightarrow> nat \<Rightarrow> 'ev \<Rightarrow> u64 \<Rightarrow> 'ev machine" where
  "init_machine cap n dflt p =
     \<lparr>ring = replicate (unat cap) dflt, pub_order = [p], con_order = replicate n [p],
      p_next = p, p_avail = cap, p_blk = 0, p_pc = P_ready, p_seen = replicate n 0,
      threads = replicate n \<lparr>c_next = p, c_cached = p, c_seen = 0, c_pc = C_ready\<rparr>,
      g_log = [], g_batch = [], g_pubs = [0], g_curs = replicate n [0], g_recv = replicate n []\<rparr>"

section \<open>Steps\<close>

text \<open>
  A batch that fits the cached room goes straight to its writes; any other one first asks
  the consumer that blocked last and then all the others. The event a writer leaves in a
  slot is arbitrary. A consumer handle takes up the rest of its cached range without a
  load; otherwise, and on the indexed path always, it loads the publication cursor.
\<close>

inductive machine_step :: "size_t \<Rightarrow> 'ev machine \<Rightarrow> 'ev machine \<Rightarrow> bool" for cap where
  publish_cached:
    "p_pc m = P_ready \<Longrightarrow> 0 < count \<Longrightarrow> count \<le> cap \<Longrightarrow> count \<le> p_avail m \<Longrightarrow>
     machine_step cap m (m\<lparr>p_pc := P_write count 0\<rparr>)"
| publish_rescan:
    "p_pc m = P_ready \<Longrightarrow> 0 < count \<Longrightarrow> count \<le> cap \<Longrightarrow> count > p_avail m \<Longrightarrow>
     machine_step cap m (m\<lparr>p_pc := P_blocker count\<rparr>)"
| load_blocker:
    "p_pc m = P_blocker count \<Longrightarrow>
     may_load (con_order m ! p_blk m) (p_seen m ! p_blk m) j \<Longrightarrow>
     lag = p_next m - con_order m ! p_blk m ! j \<Longrightarrow>
     machine_step cap m (m\<lparr>p_seen := (p_seen m)[p_blk m := j],
       p_pc := (if lag > cap - count then P_ready else P_scan count 0 lag (p_blk m))\<rparr>)"
| scan_skip:
    "p_pc m = P_scan count i g gi \<Longrightarrow> i < length (threads m) \<Longrightarrow> i = p_blk m \<Longrightarrow>
     machine_step cap m (m\<lparr>p_pc := P_scan count (Suc i) g gi\<rparr>)"
| scan_reject:
    "p_pc m = P_scan count i g gi \<Longrightarrow> i < length (threads m) \<Longrightarrow> i \<noteq> p_blk m \<Longrightarrow>
     may_load (con_order m ! i) (p_seen m ! i) j \<Longrightarrow> lag = p_next m - con_order m ! i ! j \<Longrightarrow>
     lag > cap - count \<Longrightarrow>
     machine_step cap m (m\<lparr>p_seen := (p_seen m)[i := j], p_blk := i, p_pc := P_ready\<rparr>)"
| scan_accept:
    "p_pc m = P_scan count i g gi \<Longrightarrow> i < length (threads m) \<Longrightarrow> i \<noteq> p_blk m \<Longrightarrow>
     may_load (con_order m ! i) (p_seen m ! i) j \<Longrightarrow> lag = p_next m - con_order m ! i ! j \<Longrightarrow>
     lag \<le> cap - count \<Longrightarrow>
     machine_step cap m (m\<lparr>p_seen := (p_seen m)[i := j],
       p_pc := (if lag > g then P_scan count (Suc i) lag i else P_scan count (Suc i) g gi)\<rparr>)"
| scan_done:
    "p_pc m = P_scan count i g gi \<Longrightarrow> i = length (threads m) \<Longrightarrow>
     machine_step cap m (m\<lparr>p_blk := gi, p_avail := cap - g, p_pc := P_write count 0\<rparr>)"
| write_slot:
    "p_pc m = P_write count k \<Longrightarrow> k < unat count \<Longrightarrow>
     machine_step cap m (m\<lparr>ring := (ring m)[slot cap (p_next m + of_nat k) := e],
       g_batch := g_batch m @ [e], p_pc := P_write count (Suc k)\<rparr>)"
| publish_release:
    "p_pc m = P_write count k \<Longrightarrow> k = unat count \<Longrightarrow>
     machine_step cap m (m\<lparr>p_next := p_next m + count, p_avail := p_avail m - count,
       pub_order := pub_order m @ [p_next m + count], p_pc := P_ready,
       g_log := g_log m @ g_batch m, g_batch := [], g_pubs := g_pubs m @ [length (g_log m) + unat count]\<rparr>)"
| take_cached:
    "i < length (threads m) \<Longrightarrow> t = threads m ! i \<Longrightarrow> c_pc t = C_ready \<Longrightarrow> max_count \<noteq> 0 \<Longrightarrow>
     avail = c_cached t - c_next t \<Longrightarrow> avail \<noteq> 0 \<Longrightarrow>
     machine_step cap m (m\<lparr>threads := (threads m)[i :=
       t\<lparr>c_pc := C_read (if avail < max_count then avail else max_count) 0\<rparr>]\<rparr>)"
| load_published:
    "i < length (threads m) \<Longrightarrow> t = threads m ! i \<Longrightarrow> c_pc t = C_ready \<Longrightarrow> max_count \<noteq> 0 \<Longrightarrow>
     may_load (pub_order m) (c_seen t) j \<Longrightarrow> avail = pub_order m ! j - c_next t \<Longrightarrow>
     machine_step cap m (m\<lparr>threads := (threads m)[i :=
       t\<lparr>c_seen := j, c_cached := pub_order m ! j,
         c_pc := (if avail = 0 then C_ready
                  else C_read (if avail < max_count then avail else max_count) 0)\<rparr>]\<rparr>)"
| read_slot:
    "i < length (threads m) \<Longrightarrow> t = threads m ! i \<Longrightarrow> c_pc t = C_read count k \<Longrightarrow> k < unat count \<Longrightarrow>
     machine_step cap m (m\<lparr>threads := (threads m)[i := t\<lparr>c_pc := C_read count (Suc k)\<rparr>],
       g_recv := (g_recv m)[i := g_recv m ! i @
         [(ring m ! slot cap (c_next t + of_nat k), c_next t + of_nat k)]]\<rparr>)"
| consume_release:
    "i < length (threads m) \<Longrightarrow> t = threads m ! i \<Longrightarrow> c_pc t = C_read count k \<Longrightarrow> k = unat count \<Longrightarrow>
     machine_step cap m (m\<lparr>threads := (threads m)[i := t\<lparr>c_next := c_next t + count, c_pc := C_ready\<rparr>],
       con_order := (con_order m)[i := con_order m ! i @ [c_next t + count]],
       g_curs := (g_curs m)[i := g_curs m ! i @ [last (g_curs m ! i) + unat count]]\<rparr>)"

inductive_cases machine_stepE: "machine_step cap m m'"

inductive machine_reachable :: "size_t \<Rightarrow> 'ev machine \<Rightarrow> 'ev machine \<Rightarrow> bool" for cap m0 where
  start: "machine_reachable cap m0 m0"
| step: "machine_reachable cap m0 m \<Longrightarrow> machine_step cap m m' \<Longrightarrow> machine_reachable cap m0 m'"

section \<open>The invariant\<close>

definition seen_pos :: "'ev machine \<Rightarrow> nat \<Rightarrow> nat" where
  "seen_pos m i = g_curs m ! i ! (p_seen m ! i)"

definition cur :: "'ev machine \<Rightarrow> nat \<Rightarrow> nat" where
  "cur m i = last (g_curs m ! i)"

definition stream :: "'ev machine \<Rightarrow> 'ev list" where
  "stream m = g_log m @ g_batch m"

fun progress :: "consumer_pc \<Rightarrow> nat" where
  "progress C_ready = 0"
| "progress (C_read count k) = k"

fun claimed :: "consumer_pc \<Rightarrow> nat" where
  "claimed C_ready = 0"
| "claimed (C_read count k) = unat count"

definition shape_ok :: "size_t \<Rightarrow> 'ev machine \<Rightarrow> bool" where
  "shape_ok cap m \<longleftrightarrow> template_ok cap (length (threads m)) \<and> length (ring m) = unat cap \<and>
     length (con_order m) = length (threads m) \<and> length (p_seen m) = length (threads m) \<and>
     length (g_curs m) = length (threads m) \<and> length (g_recv m) = length (threads m) \<and>
     p_blk m < length (threads m)"

definition pub_ok :: "u64 \<Rightarrow> 'ev machine \<Rightarrow> bool" where
  "pub_ok base m \<longleftrightarrow> g_pubs m \<noteq> [] \<and> sorted (g_pubs m) \<and> last (g_pubs m) = length (g_log m) \<and>
     pub_order m = map (\<lambda>p. base + of_nat p) (g_pubs m) \<and> p_next m = base + of_nat (length (g_log m))"

definition con_ok :: "u64 \<Rightarrow> size_t \<Rightarrow> 'ev machine \<Rightarrow> nat \<Rightarrow> bool" where
  "con_ok base cap m i \<longleftrightarrow> g_curs m ! i \<noteq> [] \<and> sorted (g_curs m ! i) \<and>
     con_order m ! i = map (\<lambda>p. base + of_nat p) (g_curs m ! i) \<and>
     p_seen m ! i < length (g_curs m ! i) \<and>
     length (g_log m) + unat (p_avail m) \<le> seen_pos m i + unat cap"

definition producer_pc_ok :: "size_t \<Rightarrow> 'ev machine \<Rightarrow> bool" where
  "producer_pc_ok cap m \<longleftrightarrow> (case p_pc m of
     P_ready \<Rightarrow> g_batch m = []
   | P_blocker count \<Rightarrow> g_batch m = [] \<and> count \<le> cap
   | P_scan count i g gi \<Rightarrow> g_batch m = [] \<and> count \<le> cap \<and> i \<le> length (threads m) \<and>
       gi < length (threads m) \<and> g \<le> cap - count \<and>
       (\<forall>j < length (threads m). j < i \<or> j = p_blk m \<longrightarrow> length (g_log m) \<le> seen_pos m j + unat g)
   | P_write count k \<Rightarrow> k \<le> unat count \<and> count \<le> p_avail m \<and> length (g_batch m) = k)"

definition slots_ok :: "u64 \<Rightarrow> size_t \<Rightarrow> 'ev machine \<Rightarrow> bool" where
  "slots_ok base cap m \<longleftrightarrow> (\<forall>p < length (stream m). length (stream m) \<le> p + unat cap \<longrightarrow>
     ring m ! slot cap (base + of_nat p) = stream m ! p)"

definition thread_ok :: "u64 \<Rightarrow> 'ev machine \<Rightarrow> nat \<Rightarrow> bool" where
  "thread_ok base m i \<longleftrightarrow> (let t = threads m ! i in
     c_next t = base + of_nat (cur m i) \<and> c_seen t < length (g_pubs m) \<and>
     c_cached t = base + of_nat (g_pubs m ! c_seen t) \<and>
     progress (c_pc t) \<le> claimed (c_pc t) \<and> cur m i + claimed (c_pc t) \<le> g_pubs m ! c_seen t \<and>
     g_recv m ! i = map (\<lambda>p. (g_log m ! p, base + of_nat p)) [0..<cur m i + progress (c_pc t)])"

text \<open>Everything but what the producer's program counter promises.\<close>

definition memory_ok :: "u64 \<Rightarrow> size_t \<Rightarrow> 'ev machine \<Rightarrow> bool" where
  "memory_ok base cap m \<longleftrightarrow> shape_ok cap m \<and> pub_ok base m \<and> slots_ok base cap m \<and>
     (\<forall>i < length (threads m). con_ok base cap m i \<and> thread_ok base m i)"

definition machine_ok :: "u64 \<Rightarrow> size_t \<Rightarrow> 'ev machine \<Rightarrow> bool" where
  "machine_ok base cap m \<longleftrightarrow> memory_ok base cap m \<and> producer_pc_ok cap m"

lemma init_machine_ok:
  "template_ok cap n \<Longrightarrow> machine_ok p cap (init_machine cap n dflt p)"
  by (auto simp: machine_ok_def memory_ok_def shape_ok_def pub_ok_def producer_pc_ok_def slots_ok_def
      con_ok_def thread_ok_def init_machine_def stream_def seen_pos_def cur_def template_ok_def)

section \<open>Consequences of the invariant\<close>

lemma memory_okD:
  assumes "memory_ok base cap m"
  shows "shape_ok cap m" "pub_ok base m" "slots_ok base cap m"
    and "\<And>i. i < length (threads m) \<Longrightarrow> con_ok base cap m i"
    and "\<And>i. i < length (threads m) \<Longrightarrow> thread_ok base m i"
  using assms by (auto simp: memory_ok_def)

lemma shape_okD:
  assumes "shape_ok cap m"
  shows "template_ok cap (length (threads m))" "length (ring m) = unat cap"
    and "length (con_order m) = length (threads m)" "length (p_seen m) = length (threads m)"
    and "length (g_curs m) = length (threads m)" "length (g_recv m) = length (threads m)"
    and "p_blk m < length (threads m)"
  using assms by (auto simp: shape_ok_def)

lemma seen_pos_le_cur: "con_ok base cap m i \<Longrightarrow> seen_pos m i \<le> cur m i"
  by (simp add: con_ok_def seen_pos_def cur_def sorted_nth_le_last)

lemma published_le_log: "pub_ok base m \<Longrightarrow> j < length (g_pubs m) \<Longrightarrow> g_pubs m ! j \<le> length (g_log m)"
  using sorted_nth_le_last [of "g_pubs m" j] by (simp add: pub_ok_def)

lemma cur_le_log: "pub_ok base m \<Longrightarrow> thread_ok base m i \<Longrightarrow> cur m i \<le> length (g_log m)"
  using published_le_log [of base m "c_seen (threads m ! i)"]
  by (auto simp: thread_ok_def Let_def)

lemma log_le_cur: "con_ok base cap m i \<Longrightarrow> length (g_log m) + unat (p_avail m) \<le> cur m i + unat cap"
  using seen_pos_le_cur [of base cap m i] by (simp add: con_ok_def)

text \<open>What a possibly stale load of a consumer cursor tells the producer.\<close>

lemma load_lag:
  assumes "memory_ok base cap m" "i < length (threads m)"
    and "may_load (con_order m ! i) (p_seen m ! i) j"
  shows "j < length (g_curs m ! i)" "seen_pos m i \<le> g_curs m ! i ! j"
    and "length (g_log m) = g_curs m ! i ! j + unat (p_next m - con_order m ! i ! j)"
proof -
  note ok = memory_okD(2) [OF assms(1)] memory_okD(4,5) [OF assms(1,2)]
  have order: "con_order m ! i = map (\<lambda>p. base + of_nat p) (g_curs m ! i)"
    and sorted: "sorted (g_curs m ! i)" using ok(2) by (auto simp: con_ok_def)
  show j: "j < length (g_curs m ! i)" using assms(3) by (simp add: may_load_def order)
  show le: "seen_pos m i \<le> g_curs m ! i ! j"
    using assms(3) j sorted by (simp add: seen_pos_def may_load_def sorted_nth_mono)
  have "g_curs m ! i ! j \<le> cur m i" using sorted j by (simp add: cur_def sorted_nth_le_last)
  then have log: "g_curs m ! i ! j \<le> length (g_log m)" using cur_le_log [OF ok(1,3)] by simp
  have "length (g_log m) \<le> g_curs m ! i ! j + unat cap" using ok(2) le by (simp add: con_ok_def)
  then have "length (g_log m) - g_curs m ! i ! j < 2 ^ 64" using unat_lt_2p64 [of cap] by linarith
  then have "unat (of_nat (length (g_log m) - g_curs m ! i ! j) :: u64) = length (g_log m) - g_curs m ! i ! j"
    by (rule unat_of_nat64)
  moreover have "p_next m - con_order m ! i ! j = of_nat (length (g_log m) - g_curs m ! i ! j)"
    using ok(1) log j by (simp add: pub_ok_def order distance_of_nat)
  ultimately show "length (g_log m) = g_curs m ! i ! j + unat (p_next m - con_order m ! i ! j)"
    using log by simp
qed

text \<open>What a possibly stale load of the publication cursor, or its cached value, tells a consumer.\<close>

lemma load_available:
  assumes "memory_ok base cap m" "i < length (threads m)"
    and "j < length (g_pubs m)" "c_seen (threads m ! i) \<le> j"
  shows "g_pubs m ! j = cur m i + unat (base + of_nat (g_pubs m ! j) - c_next (threads m ! i))"
proof -
  note ok = memory_okD(2) [OF assms(1)] memory_okD(4,5) [OF assms(1,2)]
  have "cur m i \<le> g_pubs m ! c_seen (threads m ! i)" using ok(3) by (simp add: thread_ok_def Let_def)
  also have "\<dots> \<le> g_pubs m ! j" using ok(1) assms(3,4) by (simp add: pub_ok_def sorted_nth_mono)
  finally have le: "cur m i \<le> g_pubs m ! j" .
  have "g_pubs m ! j \<le> cur m i + unat cap"
    using published_le_log [OF ok(1) assms(3)] log_le_cur [OF ok(2)] by simp
  then have "g_pubs m ! j - cur m i < 2 ^ 64" using unat_lt_2p64 [of cap] by linarith
  then have "unat (of_nat (g_pubs m ! j - cur m i) :: u64) = g_pubs m ! j - cur m i"
    by (rule unat_of_nat64)
  moreover have "c_next (threads m ! i) = base + of_nat (cur m i)"
    using ok(3) by (simp add: thread_ok_def Let_def)
  ultimately show ?thesis using le by (simp add: distance_of_nat)
qed

section \<open>Every step keeps the invariant\<close>

lemma cur_frame [simp]:
  "cur (m\<lparr>p_pc := x\<rparr>) i = cur m i" "cur (m\<lparr>p_seen := s\<rparr>) i = cur m i"
  "cur (m\<lparr>p_blk := b\<rparr>) i = cur m i" "cur (m\<lparr>p_avail := a\<rparr>) i = cur m i"
  by (simp_all add: cur_def)

lemma thread_ok_frame [simp]:
  "thread_ok base (m\<lparr>p_pc := x\<rparr>) i = thread_ok base m i"
  "thread_ok base (m\<lparr>p_seen := s\<rparr>) i = thread_ok base m i"
  "thread_ok base (m\<lparr>p_blk := b\<rparr>) i = thread_ok base m i"
  "thread_ok base (m\<lparr>p_avail := a\<rparr>) i = thread_ok base m i"
  by (simp_all add: thread_ok_def)

lemma memory_ok_pc [simp]: "memory_ok base cap (m\<lparr>p_pc := x\<rparr>) = memory_ok base cap m"
  by (simp add: memory_ok_def shape_ok_def pub_ok_def slots_ok_def con_ok_def stream_def seen_pos_def)

lemma seen_pos_pc [simp]: "seen_pos (m\<lparr>p_pc := x\<rparr>) i = seen_pos m i"
  by (simp add: seen_pos_def)

lemma memory_ok_load:
  assumes "memory_ok base cap m" "i < length (threads m)"
    and "may_load (con_order m ! i) (p_seen m ! i) j"
  shows "memory_ok base cap (m\<lparr>p_seen := (p_seen m)[i := j]\<rparr>)"
    and "seen_pos (m\<lparr>p_seen := (p_seen m)[i := j]\<rparr>) i = g_curs m ! i ! j"
    and "\<And>k. k \<noteq> i \<Longrightarrow> seen_pos (m\<lparr>p_seen := (p_seen m)[i := j]\<rparr>) k = seen_pos m k"
proof -
  note load = load_lag [OF assms] and shape = shape_okD [OF memory_okD(1) [OF assms(1)]]
  let ?m = "m\<lparr>p_seen := (p_seen m)[i := j]\<rparr>"
  show pos: "seen_pos ?m i = g_curs m ! i ! j" using assms(2) shape by (simp add: seen_pos_def)
  show other: "seen_pos ?m k = seen_pos m k" if "k \<noteq> i" for k using that by (simp add: seen_pos_def)
  have con: "con_ok base cap ?m k" if k: "k < length (threads m)" for k
  proof (cases "k = i")
    case True
    then show ?thesis using memory_okD(4) [OF assms(1) k] load(1,2) pos assms(2) shape
      by (simp add: con_ok_def)
  next
    case False
    then show ?thesis using memory_okD(4) [OF assms(1) k] other [OF False] by (simp add: con_ok_def)
  qed
  show "memory_ok base cap ?m"
    using con assms(1)
    by (simp add: memory_ok_def shape_ok_def pub_ok_def slots_ok_def stream_def)
qed

lemma memory_ok_room:
  assumes "memory_ok base cap m" "b < length (threads m)"
    and "\<And>i. i < length (threads m) \<Longrightarrow> length (g_log m) + unat a \<le> seen_pos m i + unat cap"
  shows "memory_ok base cap (m\<lparr>p_blk := b, p_avail := a\<rparr>)"
  using assms
  by (simp add: memory_ok_def shape_ok_def pub_ok_def slots_ok_def con_ok_def stream_def seen_pos_def)

lemma memory_ok_blk:
  "memory_ok base cap m \<Longrightarrow> b < length (threads m) \<Longrightarrow> memory_ok base cap (m\<lparr>p_blk := b\<rparr>)"
  by (simp add: memory_ok_def shape_ok_def pub_ok_def slots_ok_def con_ok_def stream_def seen_pos_def)

lemma batch_le_avail: "producer_pc_ok cap m \<Longrightarrow> length (g_batch m) \<le> unat (p_avail m)"
  by (auto simp: producer_pc_ok_def word_le_nat_alt split: producer_pc.splits)

lemma load_blocker_ok:
  assumes ok: "machine_ok base cap m" and pc: "p_pc m = P_blocker count"
    and load: "may_load (con_order m ! p_blk m) (p_seen m ! p_blk m) j"
    and lag: "lag = p_next m - con_order m ! p_blk m ! j"
  shows "machine_ok base cap (m\<lparr>p_seen := (p_seen m)[p_blk m := j],
           p_pc := (if lag > cap - count then P_ready else P_scan count 0 lag (p_blk m))\<rparr>)"
proof -
  have mem: "memory_ok base cap m" and blk: "p_blk m < length (threads m)"
    using ok shape_okD(7) [OF memory_okD(1)] by (auto simp: machine_ok_def)
  note seen = memory_ok_load [OF mem blk load] and dist = load_lag [OF mem blk load]
  have "g_batch m = []" "count \<le> cap" using ok pc by (auto simp: machine_ok_def producer_pc_ok_def)
  then show ?thesis using seen(1,2) dist(3) blk
    by (auto simp: machine_ok_def producer_pc_ok_def lag)
qed

lemma scan_load_ok:
  assumes ok: "machine_ok base cap m" and pc: "p_pc m = P_scan count i g gi"
    and i: "i < length (threads m)" "i \<noteq> p_blk m"
    and load: "may_load (con_order m ! i) (p_seen m ! i) j" and lag: "lag = p_next m - con_order m ! i ! j"
  shows "lag > cap - count \<Longrightarrow> machine_ok base cap (m\<lparr>p_seen := (p_seen m)[i := j], p_blk := i, p_pc := P_ready\<rparr>)"
    and "lag \<le> cap - count \<Longrightarrow> machine_ok base cap (m\<lparr>p_seen := (p_seen m)[i := j],
           p_pc := (if lag > g then P_scan count (Suc i) lag i else P_scan count (Suc i) g gi)\<rparr>)"
proof -
  have mem: "memory_ok base cap m" using ok by (simp add: machine_ok_def)
  note seen = memory_ok_load [OF mem i(1) load] and dist = load_lag [OF mem i(1) load]
  have old: "g_batch m = []" "count \<le> cap" "gi < length (threads m)" "g \<le> cap - count"
    and lags: "\<And>k. k < length (threads m) \<Longrightarrow> k < i \<or> k = p_blk m \<Longrightarrow> length (g_log m) \<le> seen_pos m k + unat g"
    using ok pc by (auto simp: machine_ok_def producer_pc_ok_def)
  show "machine_ok base cap (m\<lparr>p_seen := (p_seen m)[i := j], p_blk := i, p_pc := P_ready\<rparr>)"
    if "lag > cap - count"
    using memory_ok_blk [OF seen(1), of i] i(1) old(1) by (simp add: machine_ok_def producer_pc_ok_def)
  assume fits: "lag \<le> cap - count"
  have new: "length (g_log m) \<le> seen_pos (m\<lparr>p_seen := (p_seen m)[i := j]\<rparr>) k + unat x"
    if "k < length (threads m)" "k < Suc i \<or> k = p_blk m" "g \<le> x" "lag \<le> x" for k x
  proof (cases "k = i")
    case True
    then show ?thesis using seen(2) dist(3) \<open>lag \<le> x\<close> by (simp add: lag word_le_nat_alt)
  next
    case False
    then show ?thesis using seen(3) [OF False] lags [of k] that by (fastforce simp: word_le_nat_alt)
  qed
  show "machine_ok base cap (m\<lparr>p_seen := (p_seen m)[i := j],
     p_pc := (if lag > g then P_scan count (Suc i) lag i else P_scan count (Suc i) g gi)\<rparr>)"
    using seen(1) old i fits new [of _ g] new [of _ lag]
    by (simp add: machine_ok_def producer_pc_ok_def not_less)
qed

lemma scan_done_ok:
  assumes ok: "machine_ok base cap m" and pc: "p_pc m = P_scan count i g gi" and i: "i = length (threads m)"
  shows "machine_ok base cap (m\<lparr>p_blk := gi, p_avail := cap - g, p_pc := P_write count 0\<rparr>)"
proof -
  have mem: "memory_ok base cap m" using ok by (simp add: machine_ok_def)
  have old: "g_batch m = []" "count \<le> cap" "gi < length (threads m)" "g \<le> cap - count"
    and lags: "\<And>k. k < length (threads m) \<Longrightarrow> length (g_log m) \<le> seen_pos m k + unat g"
    using ok pc i by (auto simp: machine_ok_def producer_pc_ok_def)
  have sub: "unat (cap - count) = unat cap - unat count" using old(2) by (rule unat_sub_le)
  then have g: "g \<le> cap" "unat g + unat count \<le> unat cap" using old(2,4) by (simp_all add: word_le_nat_alt)
  have avail: "unat (cap - g) = unat cap - unat g" using g(1) by (rule unat_sub_le)
  have "count \<le> cap - g" using g avail by (simp add: word_le_nat_alt)
  moreover have "memory_ok base cap (m\<lparr>p_blk := gi, p_avail := cap - g\<rparr>)"
    using lags g(2) by (intro memory_ok_room [OF mem old(3)]) (fastforce simp: avail)
  ultimately show ?thesis using old(1) by (simp add: machine_ok_def producer_pc_ok_def)
qed

lemma write_slot_ok:
  assumes ok: "machine_ok base cap m" and pc: "p_pc m = P_write count k" and k: "k < unat count"
  shows "machine_ok base cap (m\<lparr>ring := (ring m)[slot cap (p_next m + of_nat k) := e],
           g_batch := g_batch m @ [e], p_pc := P_write count (Suc k)\<rparr>)" (is "machine_ok base cap ?m")
proof -
  have mem: "memory_ok base cap m" using ok by (simp add: machine_ok_def)
  note shape = shape_okD [OF memory_okD(1) [OF mem]]
  have pcok: "count \<le> p_avail m" "length (g_batch m) = k"
    using ok pc by (auto simp: machine_ok_def producer_pc_ok_def)
  have here: "p_next m + of_nat k = base + of_nat (length (stream m))"
    using memory_okD(2) [OF mem] pcok(2) by (simp add: pub_ok_def stream_def)
  have "slots_ok base cap ?m"
    unfolding slots_ok_def
  proof (intro allI impI)
    fix p assume p: "p < length (stream ?m)" "length (stream ?m) \<le> p + unat cap"
    have snoc: "stream (m\<lparr>ring := r, g_batch := g_batch m @ [e], p_pc := x\<rparr>) = stream m @ [e]" for r x
      by (simp add: stream_def)
    have in_ring: "slot cap s < length (ring m)" for s
      using mask_less [OF shape(1)] shape(2) by (simp add: slot_def)
    show "ring ?m ! slot cap (base + of_nat p) = stream ?m ! p"
    proof (cases "p = length (stream m)")
      case True
      then show ?thesis using in_ring by (simp add: here snoc)
    next
      case False
      then have less: "p < length (stream m)" using p(1) by (simp add: snoc)
      then have "slot cap (base + of_nat p) \<noteq> slot cap (base + of_nat (length (stream m)))"
        using mask_inj [OF shape(1), of base p "length (stream m)"] p(2)
        by (auto simp: slot_def snoc)
      then have "ring ?m ! slot cap (base + of_nat p) = ring m ! slot cap (base + of_nat p)"
        by (simp add: here)
      also have "\<dots> = stream m ! p" using memory_okD(3) [OF mem] less p(2) by (simp add: slots_ok_def snoc)
      finally show ?thesis using less by (simp add: snoc nth_append)
    qed
  qed
  moreover have "thread_ok base ?m i = thread_ok base m i" for i by (simp add: thread_ok_def cur_def)
  ultimately have "memory_ok base cap ?m" using mem
    by (simp add: memory_ok_def shape_ok_def pub_ok_def con_ok_def seen_pos_def)
  then show ?thesis using pcok k by (simp add: machine_ok_def producer_pc_ok_def)
qed

lemma publish_release_ok:
  assumes ok: "machine_ok base cap m" and pc: "p_pc m = P_write count k" and k: "k = unat count"
  shows "machine_ok base cap (m\<lparr>p_next := p_next m + count, p_avail := p_avail m - count,
           pub_order := pub_order m @ [p_next m + count], p_pc := P_ready,
           g_log := g_log m @ g_batch m, g_batch := [],
           g_pubs := g_pubs m @ [length (g_log m) + unat count]\<rparr>)" (is "machine_ok base cap ?m")
proof -
  have mem: "memory_ok base cap m" using ok by (simp add: machine_ok_def)
  have pcok: "count \<le> p_avail m" "length (g_batch m) = unat count"
    using ok pc k by (auto simp: machine_ok_def producer_pc_ok_def)
  have avail: "unat (p_avail m - count) = unat (p_avail m) - unat count" "unat count \<le> unat (p_avail m)"
    using unat_sub_le [OF pcok(1)] pcok(1) by (simp_all add: word_le_nat_alt)
  have "pub_ok base ?m" using memory_okD(2) [OF mem] pcok(2) by (auto simp: pub_ok_def intro!: sorted_snoc)
  moreover have "con_ok base cap ?m i" if "i < length (threads m)" for i
    using memory_okD(4) [OF mem that] avail pcok(2) by (simp add: con_ok_def seen_pos_def)
  moreover have "thread_ok base ?m i" if i: "i < length (threads m)" for i
  proof -
    have t: "thread_ok base m i" and pub: "pub_ok base m" using memory_okD(2,5) [OF mem] i by auto
    let ?t = "threads m ! i"
    have "cur m i + progress (c_pc ?t) \<le> g_pubs m ! c_seen ?t" "c_seen ?t < length (g_pubs m)"
      using t by (auto simp: thread_ok_def Let_def)
    then have "cur m i + progress (c_pc ?t) \<le> length (g_log m)"
      using published_le_log [OF pub] by (meson order_trans)
    then have "map (\<lambda>p. ((g_log m @ g_batch m) ! p, base + of_nat p)) [0..<cur m i + progress (c_pc ?t)] =
        map (\<lambda>p. (g_log m ! p, base + of_nat p)) [0..<cur m i + progress (c_pc ?t)]"
      by (intro map_cong) (auto simp: nth_append)
    moreover have "cur ?m i = cur m i" by (simp add: cur_def)
    ultimately show ?thesis using t by (simp add: thread_ok_def Let_def nth_append)
  qed
  ultimately have "memory_ok base cap ?m" using mem
    by (simp add: memory_ok_def shape_ok_def slots_ok_def stream_def)
  then show ?thesis by (simp add: machine_ok_def producer_pc_ok_def)
qed

text \<open>Steps of a consumer touch one thread record and, at their release, its own cursor.\<close>

lemma memory_ok_thread:
  assumes "memory_ok base cap m" "i < length (threads m)"
    and "thread_ok base (m\<lparr>threads := (threads m)[i := t], g_recv := (g_recv m)[i := r]\<rparr>) i"
  shows "memory_ok base cap (m\<lparr>threads := (threads m)[i := t], g_recv := (g_recv m)[i := r]\<rparr>)"
proof -
  let ?m = "m\<lparr>threads := (threads m)[i := t], g_recv := (g_recv m)[i := r]\<rparr>"
  have "thread_ok base ?m k" if "k < length (threads m)" for k
    using assms(3) memory_okD(5) [OF assms(1) that] by (cases "k = i") (simp_all add: thread_ok_def cur_def)
  then show ?thesis using assms(1)
    by (simp add: memory_ok_def shape_ok_def pub_ok_def slots_ok_def con_ok_def stream_def seen_pos_def)
qed

lemma producer_pc_ok_threads:
  assumes "producer_pc_ok cap m"
  shows "producer_pc_ok cap (m\<lparr>threads := (threads m)[i := t]\<rparr>)"
    and "producer_pc_ok cap (m\<lparr>threads := (threads m)[i := t], g_recv := r\<rparr>)"
  using assms by (auto simp: producer_pc_ok_def seen_pos_def split: producer_pc.splits)

lemma take_ok:
  assumes ok: "machine_ok base cap m" and i: "i < length (threads m)" and pc: "c_pc (threads m ! i) = C_ready"
    and j: "j < length (g_pubs m)" "c_seen (threads m ! i) \<le> j"
    and avail: "avail = base + of_nat (g_pubs m ! j) - c_next (threads m ! i)" and count: "count \<le> avail"
  shows "machine_ok base cap (m\<lparr>threads := (threads m)[i := (threads m ! i)
           \<lparr>c_seen := j, c_cached := base + of_nat (g_pubs m ! j), c_pc := C_read count 0\<rparr>]\<rparr>)"
    and "machine_ok base cap (m\<lparr>threads := (threads m)[i := (threads m ! i)
           \<lparr>c_seen := j, c_cached := base + of_nat (g_pubs m ! j), c_pc := C_ready\<rparr>]\<rparr>)"
proof -
  have mem: "memory_ok base cap m" and pcok: "producer_pc_ok cap m" using ok by (auto simp: machine_ok_def)
  note load = load_available [OF mem i j]
  have t: "thread_ok base m i" by (rule memory_okD(5) [OF mem i])
  have *: "machine_ok base cap (m\<lparr>threads := (threads m)[i := (threads m ! i)
      \<lparr>c_seen := j, c_cached := base + of_nat (g_pubs m ! j), c_pc := x\<rparr>]\<rparr>)"
    if "progress x = 0" "claimed x \<le> unat avail" for x
  proof -
    let ?t = "(threads m ! i)\<lparr>c_seen := j, c_cached := base + of_nat (g_pubs m ! j), c_pc := x\<rparr>"
    have "thread_ok base (m\<lparr>threads := (threads m)[i := ?t], g_recv := (g_recv m)[i := g_recv m ! i]\<rparr>) i"
      using t that load pc j i shape_okD(6) [OF memory_okD(1) [OF mem]]
      by (simp add: thread_ok_def Let_def cur_def avail)
    then have "memory_ok base cap (m\<lparr>threads := (threads m)[i := ?t], g_recv := (g_recv m)[i := g_recv m ! i]\<rparr>)"
      by (rule memory_ok_thread [OF mem i])
    then show ?thesis using producer_pc_ok_threads(1) [OF pcok] by (simp add: machine_ok_def)
  qed
  show "machine_ok base cap (m\<lparr>threads := (threads m)[i := (threads m ! i)
      \<lparr>c_seen := j, c_cached := base + of_nat (g_pubs m ! j), c_pc := C_read count 0\<rparr>]\<rparr>)"
    using count by (intro *) (simp_all add: word_le_nat_alt)
  show "machine_ok base cap (m\<lparr>threads := (threads m)[i := (threads m ! i)
      \<lparr>c_seen := j, c_cached := base + of_nat (g_pubs m ! j), c_pc := C_ready\<rparr>]\<rparr>)"
    by (intro *) simp_all
qed

lemma read_slot_ok:
  assumes ok: "machine_ok base cap m" and i: "i < length (threads m)" and t: "t = threads m ! i"
    and pc: "c_pc t = C_read count k" and k: "k < unat count"
  shows "machine_ok base cap (m\<lparr>threads := (threads m)[i := t\<lparr>c_pc := C_read count (Suc k)\<rparr>],
           g_recv := (g_recv m)[i := g_recv m ! i @
             [(ring m ! slot cap (c_next t + of_nat k), c_next t + of_nat k)]]\<rparr>)"
proof -
  have mem: "memory_ok base cap m" and pcok: "producer_pc_ok cap m" using ok by (auto simp: machine_ok_def)
  have th: "thread_ok base m i" by (rule memory_okD(5) [OF mem i])
  then have next': "c_next t = base + of_nat (cur m i)"
    and claim: "cur m i + unat count \<le> g_pubs m ! c_seen t" "c_seen t < length (g_pubs m)"
    using pc by (auto simp: thread_ok_def Let_def t)
  then have log: "cur m i + k < length (g_log m)"
    using published_le_log [OF memory_okD(2) [OF mem], of "c_seen t"] k by simp
  have "length (stream m) \<le> (cur m i + k) + unat cap"
    using log_le_cur [OF memory_okD(4) [OF mem i]] batch_le_avail [OF pcok] by (simp add: stream_def)
  then have "ring m ! slot cap (base + of_nat (cur m i + k)) = g_log m ! (cur m i + k)"
    using memory_okD(3) [OF mem] log
    by (auto simp: slots_ok_def stream_def nth_append simp del: of_nat_add)
  then have event: "[(ring m ! slot cap (c_next t + of_nat k), c_next t + of_nat k)] =
      [(g_log m ! (cur m i + k), base + of_nat (cur m i + k))]"
    by (simp add: next' add.assoc)
  have "thread_ok base (m\<lparr>threads := (threads m)[i := t\<lparr>c_pc := C_read count (Suc k)\<rparr>],
      g_recv := (g_recv m)[i := g_recv m ! i @
        [(ring m ! slot cap (c_next t + of_nat k), c_next t + of_nat k)]]\<rparr>) i"
    unfolding event
    using th i k pc shape_okD(6) [OF memory_okD(1) [OF mem]]
    by (simp add: thread_ok_def Let_def cur_def flip: t)
  then show ?thesis using memory_ok_thread [OF mem i] producer_pc_ok_threads(2) [OF pcok]
    by (simp add: machine_ok_def)
qed

lemma consume_release_ok:
  assumes ok: "machine_ok base cap m" and i: "i < length (threads m)" and t: "t = threads m ! i"
    and pc: "c_pc t = C_read count k" and k: "k = unat count"
  shows "machine_ok base cap
     (m\<lparr>threads := (threads m)[i := t\<lparr>c_next := c_next t + count, c_pc := C_ready\<rparr>],
        con_order := (con_order m)[i := con_order m ! i @ [c_next t + count]],
        g_curs := (g_curs m)[i := g_curs m ! i @ [last (g_curs m ! i) + unat count]]\<rparr>)"
    (is "machine_ok base cap ?m")
proof -
  have mem: "memory_ok base cap m" and pcok: "producer_pc_ok cap m" using ok by (auto simp: machine_ok_def)
  note shape = shape_okD [OF memory_okD(1) [OF mem]]
  have th: "thread_ok base m i" and co: "con_ok base cap m i" using memory_okD(4,5) [OF mem i] by auto
  have pos: "seen_pos ?m l = seen_pos m l" if "l < length (threads m)" for l
    using memory_okD(4) [OF mem that] that shape
    by (cases "l = i") (simp_all add: seen_pos_def con_ok_def nth_append)
  have "con_ok base cap ?m l" if l: "l < length (threads m)" for l
  proof (cases "l = i")
    case True
    have "c_next t = base + of_nat (last (g_curs m ! i))" using th by (simp add: thread_ok_def Let_def t cur_def)
    then show ?thesis using True co pos [OF i] shape i
      by (auto simp: con_ok_def intro!: sorted_snoc)
  next
    case False
    then show ?thesis using memory_okD(4) [OF mem l] pos [OF l] by (simp add: con_ok_def)
  qed
  moreover have "thread_ok base ?m l" if l: "l < length (threads m)" for l
  proof (cases "l = i")
    case True
    then show ?thesis using th i pc k shape by (simp add: thread_ok_def Let_def cur_def flip: t)
  next
    case False
    then show ?thesis using memory_okD(5) [OF mem l] by (simp add: thread_ok_def cur_def)
  qed
  ultimately have "memory_ok base cap ?m" using mem
    by (simp add: memory_ok_def shape_ok_def pub_ok_def slots_ok_def stream_def)
  moreover have "producer_pc_ok cap ?m" using pcok pos
    by (auto simp: producer_pc_ok_def split: producer_pc.splits)
  ultimately show ?thesis by (simp add: machine_ok_def)
qed

lemma machine_step_ok:
  assumes "machine_step cap m m'" "machine_ok base cap m"
  shows "machine_ok base cap m'"
  using assms
proof (cases rule: machine_step.cases)
  case (take_cached i t max_count avail)
  let ?count = "if avail < max_count then avail else max_count"
  have mem: "memory_ok base cap m" using assms(2) by (simp add: machine_ok_def)
  have cached: "base + of_nat (g_pubs m ! c_seen t) = c_cached t" and seen: "c_seen t < length (g_pubs m)"
    using memory_okD(5) [OF mem take_cached(2)] take_cached(3) by (auto simp: thread_ok_def Let_def)
  have "machine_ok base cap (m\<lparr>threads := (threads m)[i := (threads m ! i)
      \<lparr>c_seen := c_seen t, c_cached := base + of_nat (g_pubs m ! c_seen t), c_pc := C_read ?count 0\<rparr>]\<rparr>)"
  proof (rule take_ok(1) [OF assms(2) take_cached(2) _ seen])
    show "avail = base + of_nat (g_pubs m ! c_seen t) - c_next (threads m ! i)"
      using take_cached(3,6) cached by simp
  qed (use take_cached(3,4) in \<open>simp_all add: not_less\<close>)
  moreover have "t\<lparr>c_seen := c_seen t, c_cached := c_cached t, c_pc := x\<rparr> = t\<lparr>c_pc := x\<rparr>" for x
    by (cases t) simp
  ultimately show ?thesis by (simp only: take_cached(1) cached take_cached(3) [symmetric])
next
  case (load_published i t max_count j avail)
  have mem: "memory_ok base cap m" using assms(2) by (simp add: machine_ok_def)
  have order: "pub_order m = map (\<lambda>p. base + of_nat p) (g_pubs m)"
    using memory_okD(2) [OF mem] by (simp add: pub_ok_def)
  then have j: "j < length (g_pubs m)" "pub_order m ! j = base + of_nat (g_pubs m ! j)"
    using load_published(6) by (auto simp: may_load_def)
  have seen: "c_seen (threads m ! i) \<le> j" using load_published(3,6) by (simp add: may_load_def)
  have pc: "c_pc (threads m ! i) = C_ready" using load_published(3,4) by simp
  have avail: "avail = base + of_nat (g_pubs m ! j) - c_next (threads m ! i)"
    using load_published(3,7) j(2) by simp
  note take = take_ok [OF assms(2) load_published(2) pc j(1) seen avail]
  show ?thesis
  proof (cases "avail = 0")
    case True
    then show ?thesis using take(2) [OF word_zero_le]
      by (simp only: load_published(1) j(2) load_published(3) if_True simp_thms)
  next
    case False
    have "(if avail < max_count then avail else max_count) \<le> avail" by (simp add: not_less)
    then show ?thesis using take(1) False
      by (simp only: load_published(1) j(2) load_published(3) if_False simp_thms)
  qed
next
  case (publish_cached count)
  then show ?thesis using assms(2) by (simp add: machine_ok_def producer_pc_ok_def)
next
  case (publish_rescan count)
  then show ?thesis using assms(2) by (simp add: machine_ok_def producer_pc_ok_def)
next
  case (scan_skip count i g gi)
  then show ?thesis using assms(2) by (auto simp: machine_ok_def producer_pc_ok_def less_Suc_eq)
next
  case (scan_reject count i g gi j lag)
  then show ?thesis using scan_load_ok(1) [OF assms(2) scan_reject(2-6)] by blast
next
  case (scan_accept count i g gi j lag)
  then show ?thesis using scan_load_ok(2) [OF assms(2) scan_accept(2-6)] by blast
qed (simp_all only: load_blocker_ok scan_done_ok write_slot_ok publish_release_ok
      read_slot_ok consume_release_ok)

lemma reachable_machine_ok:
  assumes "machine_reachable cap (init_machine cap n dflt p) m" "template_ok cap n"
  shows "machine_ok p cap m"
  using assms(1)
proof (induction rule: machine_reachable.induct)
  case start
  then show ?case using assms(2) by (rule init_machine_ok)
next
  case (step m m')
  then show ?case using machine_step_ok by blast
qed

section \<open>Race freedom and delivery\<close>

lemma machine_no_race:
  assumes "machine_ok base cap m" "p_pc m = P_write count k" "k < unat count"
    and "i < length (threads m)" "c_pc (threads m ! i) = C_read c l" "l < unat c"
  shows "slot cap (p_next m + of_nat k) \<noteq> slot cap (c_next (threads m ! i) + of_nat l)"
proof
  assume same: "slot cap (p_next m + of_nat k) = slot cap (c_next (threads m ! i) + of_nat l)"
  have mem: "memory_ok base cap m" and pcok: "producer_pc_ok cap m" using assms(1) by (auto simp: machine_ok_def)
  have th: "thread_ok base m i" and co: "con_ok base cap m i" and pub: "pub_ok base m"
    using memory_okD [OF mem] assms(4) by auto
  have "cur m i + unat c \<le> g_pubs m ! c_seen (threads m ! i)" "c_seen (threads m ! i) < length (g_pubs m)"
    using th assms(5) by (auto simp: thread_ok_def Let_def)
  then have read: "cur m i + l < length (g_log m)"
    using published_le_log [OF pub, of "c_seen (threads m ! i)"] assms(6) by simp
  have "unat count \<le> unat (p_avail m)"
    using pcok assms(2) by (simp add: producer_pc_ok_def word_le_nat_alt)
  then have ahead: "length (g_log m) + k < cur m i + l + unat cap"
    using log_le_cur [OF co] assms(3) by simp
  have "p_next m + of_nat k = base + of_nat (length (g_log m) + k)"
    "c_next (threads m ! i) + of_nat l = base + of_nat (cur m i + l)"
    using pub th by (simp_all add: pub_ok_def thread_ok_def Let_def)
  with same have "length (g_log m) + k = cur m i + l"
    using mask_inj [OF shape_okD(1) [OF memory_okD(1) [OF mem]], of base "length (g_log m) + k" "cur m i + l"]
      read ahead by (simp add: slot_def)
  with read show False by simp
qed

lemma machine_delivery:
  assumes "machine_ok base cap m" "i < length (threads m)"
  shows "\<exists>n \<le> length (g_log m). g_recv m ! i = map (\<lambda>q. (g_log m ! q, base + of_nat q)) [0..<n]"
proof -
  have mem: "memory_ok base cap m" using assms(1) by (simp add: machine_ok_def)
  have th: "thread_ok base m i" using memory_okD(5) [OF mem assms(2)] .
  let ?t = "threads m ! i"
  have "cur m i + progress (c_pc ?t) \<le> g_pubs m ! c_seen ?t" "c_seen ?t < length (g_pubs m)"
    using th by (auto simp: thread_ok_def Let_def)
  then have "cur m i + progress (c_pc ?t) \<le> length (g_log m)"
    using published_le_log [OF memory_okD(2) [OF mem]] by (meson order_trans)
  then show ?thesis using th by (auto simp: thread_ok_def Let_def)
qed

lemma machine_step_threads: "machine_step cap m m' \<Longrightarrow> length (threads m') = length (threads m)"
  by (auto elim: machine_stepE)

lemma reachable_threads:
  "machine_reachable cap (init_machine cap n dflt p) m \<Longrightarrow> length (threads m) = n"
  by (induction rule: machine_reachable.induct) (simp_all add: init_machine_def machine_step_threads)

text \<open>A run in which one event is published through a ring of two slots and then read.\<close>

definition published_one :: "nat machine" where
  "published_one = (init_machine 2 1 0 7)\<lparr>ring := [0, 5], pub_order := [7, 8], p_next := 8, p_avail := 1,
     g_log := [5], g_pubs := [0, 1]\<rparr>"

definition overlapped :: "nat machine" where
  "overlapped = published_one\<lparr>p_pc := P_write 1 0,
     threads := [\<lparr>c_next = 7, c_cached = 8, c_seen = 1, c_pc = C_read 1 0\<rparr>]\<rparr>"

definition received_one :: "nat machine" where
  "received_one = overlapped\<lparr>threads := [\<lparr>c_next = 7, c_cached = 8, c_seen = 1, c_pc = C_read 1 1\<rparr>],
     g_recv := [[(5, 7)]]\<rparr>"

lemma replicate_two_slots: "replicate 2 x = [x, x]"
  by (simp add: numeral_2_eq_2)

lemmas two_slot_machine = init_machine_def replicate_two_slots published_one_def overlapped_def received_one_def

lemma overlapped_reachable: "machine_reachable 2 (init_machine 2 1 0 7) overlapped"
proof -
  let ?m0 = "init_machine 2 1 0 7 :: nat machine"
  have s1: "machine_step 2 ?m0 (?m0\<lparr>p_pc := P_write 1 0\<rparr>)"
    by (rule machine_step.publish_cached) (simp_all add: two_slot_machine)
  have s2: "machine_step 2 (?m0\<lparr>p_pc := P_write 1 0\<rparr>)
      (?m0\<lparr>ring := [0, 5], g_batch := [5], p_pc := P_write 1 1\<rparr>)"
    using machine_step.write_slot [of "?m0\<lparr>p_pc := P_write 1 0\<rparr>" 1 0 2 5]
    by (simp add: two_slot_machine slot_def )
  have s3: "machine_step 2 (?m0\<lparr>ring := [0, 5], g_batch := [5], p_pc := P_write 1 1\<rparr>) published_one"
    using machine_step.publish_release [of "?m0\<lparr>ring := [0, 5], g_batch := [5], p_pc := P_write 1 1\<rparr>" 1 1 2]
    by (simp add: two_slot_machine )
  have s4: "machine_step 2 published_one (published_one\<lparr>p_pc := P_write 1 0\<rparr>)"
    by (rule machine_step.publish_cached) (simp_all add: two_slot_machine)
  have s5: "machine_step 2 (published_one\<lparr>p_pc := P_write 1 0\<rparr>) overlapped"
    using machine_step.load_published [of 0 "published_one\<lparr>p_pc := P_write 1 0\<rparr>" _ 1 1 1 2]
    by (simp add: two_slot_machine may_load_def )
  show ?thesis
    by (rule machine_reachable.step [OF _ s5], rule machine_reachable.step [OF _ s4],
        rule machine_reachable.step [OF _ s3], rule machine_reachable.step [OF _ s2],
        rule machine_reachable.step [OF _ s1], rule machine_reachable.start)
qed

lemma received_one_reachable: "machine_reachable 2 (init_machine 2 1 0 7) received_one"
proof (rule machine_reachable.step [OF overlapped_reachable])
  show "machine_step 2 overlapped received_one"
    using machine_step.read_slot [of 0 overlapped _ 1 0 2]
    by (simp add: two_slot_machine slot_def )
qed

text \<open>C1: In every interleaving of the producer's and the consumers' memory accesses, with
  every load of another thread's cursor as stale as the memory model permits, the slot the
  producer is about to write is never a slot some consumer is about to read.\<close>

theorem concurrent_race_freedom:
  assumes "template_ok cap n" "machine_reachable cap (init_machine cap n dflt p) m"
    and "p_pc m = P_write count k" "k < unat count"
    and "i < n" "c_pc (threads m ! i) = C_read c l" "l < unat c"
  shows "slot cap (p_next m + of_nat k) \<noteq> slot cap (c_next (threads m ! i) + of_nat l)"
  using machine_no_race [OF reachable_machine_ok [OF assms(2,1)] assms(3,4) _ assms(6,7)]
    reachable_threads [OF assms(2)] assms(5) by simp

theorem concurrent_race_freedom_witness:
  "slot 2 (8 + of_nat 0) \<noteq> slot 2 (7 + of_nat 0)"
  using concurrent_race_freedom [of 2 1 0 7 overlapped 1 0 0 1 0] overlapped_reachable
  by (simp add: template_ok_def overlapped_def published_one_def init_machine_def)

text \<open>C2: In every such interleaving, what a consumer's handler has been given is a prefix of
  the stream of published events, in order and without gap, duplicate or torn event, each
  with its own consecutive sequence, whatever the initial position and however often the
  64-bit cursors have wrapped.\<close>

theorem concurrent_delivery:
  assumes "template_ok cap n" "machine_reachable cap (init_machine cap n dflt p) m" "i < n"
  shows "\<exists>k \<le> length (g_log m). g_recv m ! i = map (\<lambda>q. (g_log m ! q, p + of_nat q)) [0..<k]"
  using machine_delivery [OF reachable_machine_ok [OF assms(2,1)]] reachable_threads [OF assms(2)] assms(3)
  by simp

theorem concurrent_delivery_witness:
  "\<exists>k \<le> 1. [(5 :: nat, 7 :: u64)] = map (\<lambda>q. ([5] ! q, 7 + of_nat q)) [0..<k]"
  using concurrent_delivery [of 2 1 0 7 received_one 0] received_one_reachable
  by (simp add: template_ok_def overlapped_def published_one_def init_machine_def received_one_def)

text \<open>C30: In every such interleaving, the producer never runs more than the ring's capacity
  ahead of the slowest consumer, counting the batch it is writing: the cached capacity it
  spends without looking at a consumer is never more than there really is.\<close>

theorem concurrent_capacity:
  assumes "template_ok cap n" "machine_reachable cap (init_machine cap n dflt p) m" "i < n"
  shows "length (stream m) \<le> last (g_curs m ! i) + unat cap"
proof -
  have ok: "machine_ok p cap m" using reachable_machine_ok [OF assms(2,1)] .
  then have "con_ok p cap m i"
    using assms(3) reachable_threads [OF assms(2)] by (simp add: machine_ok_def memory_ok_def)
  then show ?thesis
    using log_le_cur [of p cap m i] batch_le_avail [of cap m] ok
    by (simp add: stream_def cur_def machine_ok_def)
qed

theorem concurrent_capacity_witness: "length [5 :: nat] \<le> last [0] + unat (2 :: size_t)"
  using concurrent_capacity [of 2 1 0 7 overlapped 0] overlapped_reachable
  by (simp add: template_ok_def overlapped_def published_one_def init_machine_def stream_def)

end
