(* ===== verification/Concurrent_Refinement.thy ===== *)
theory Concurrent_Refinement
  imports Stream_Client Disruptor_Concurrent
begin

text \<open>
  The code's operations among the concurrent machine's behaviours: whatever a call of a handle
  does, from any state the handles may be in, the machine does in steps of its own in which
  every load reads the newest value. The two models of the class thus agree wherever no other
  thread interferes.
\<close>

section \<open>A machine between two calls\<close>

text \<open>Every thread remembers entries of the modification orders that exist.\<close>

definition loads_ok :: "'ev machine \<Rightarrow> nat list \<Rightarrow> bool" where
  "loads_ok m seen \<longleftrightarrow> length seen = length (threads m) \<and>
     (\<forall>i < length (threads m). seen ! i < length (con_order m ! i))"

definition at_rest :: "'ev endpoint \<Rightarrow> 'ev machine \<Rightarrow> bool" where
  "at_rest s m \<longleftrightarrow> (let d = ep_object s; h = ep_producer s in
     ring m = events d \<and> p_next m = handle_next_to_publish h \<and> p_avail m = handle_available_before_rescan h \<and>
     p_blk m = handle_blocking_consumer h \<and> p_pc m = P_ready \<and> g_batch m = [] \<and>
     pub_order m \<noteq> [] \<and> last (pub_order m) = published d \<and>
     length (threads m) = consumer_count d \<and> length (con_order m) = consumer_count d \<and>
     length (g_recv m) = consumer_count d \<and> loads_ok m (p_seen m) \<and>
     (\<forall>i < consumer_count d. last (con_order m ! i) = consumers d ! i \<and>
        (let t = threads m ! i; c = ep_consumers s ! i in
         c_next t = next_position c \<and> c_cached t = cached_published_position c \<and>
         c_seen t < length (pub_order m) \<and> c_pc t = C_ready)))"

lemma machine_reachable_trans:
  "machine_reachable cap m1 m2 \<Longrightarrow> machine_reachable cap m0 m1 \<Longrightarrow> machine_reachable cap m0 m2"
  by (induction rule: machine_reachable.induct) (auto intro: machine_reachable.step)

lemma machine_step_then:
  "machine_step cap m0 m1 \<Longrightarrow> machine_reachable cap m1 m2 \<Longrightarrow> machine_reachable cap m0 m2"
  by (rule machine_reachable_trans) (auto intro: machine_reachable.intros)

lemma machine_one_step: "machine_step cap m0 m1 \<Longrightarrow> machine_reachable cap m0 m1"
  by (rule machine_step_then [OF _ machine_reachable.start])

lemma newest_load:
  assumes "seen < length order"
  shows "may_load order seen (length order - 1)" "order ! (length order - 1) = last order"
    "length order - 1 < length order"
  using assms by (cases order; auto simp: may_load_def last_conv_nth)+

lemma loads_ok_newest:
  "loads_ok m seen \<Longrightarrow> i < length (threads m) \<Longrightarrow> loads_ok m (seen[i := length (con_order m ! i) - 1])"
  by (auto simp: loads_ok_def nth_list_update)

section \<open>Publication\<close>

text \<open>Where the scan of the consumers leaves the machine.\<close>

definition scan_end :: "size_t \<Rightarrow> size_t \<Rightarrow> 'ev machine \<Rightarrow> nat list \<Rightarrow> nat + size_t \<times> nat \<Rightarrow> 'ev machine" where
  "scan_end cap count m seen r =
     (case r of Inl j \<Rightarrow> m\<lparr>p_seen := seen, p_blk := j, p_pc := P_ready\<rparr>
      | Inr (g, gi) \<Rightarrow> m\<lparr>p_seen := seen, p_blk := gi, p_avail := cap - g, p_pc := P_write count 0\<rparr>)"

lemma scan_end_frame [simp]:
  "scan_end cap count (m\<lparr>p_pc := x\<rparr>) seen r = scan_end cap count m seen r"
  "scan_end cap count (m\<lparr>p_seen := s\<rparr>) seen r = scan_end cap count m seen r"
  by (auto simp: scan_end_def split: sum.splits)

lemma loads_ok_frame [simp]:
  "loads_ok (m\<lparr>p_pc := x\<rparr>) seen = loads_ok m seen" "loads_ok (m\<lparr>p_seen := s\<rparr>) seen = loads_ok m seen"
  by (simp_all add: loads_ok_def)

lemma same_pc: "p_pc m = x \<Longrightarrow> m\<lparr>p_pc := x\<rparr> = m"
  by (cases m) simp

text \<open>The scan, with the newest position of each consumer.\<close>

lemma scan_run:
  assumes "p_pc m = P_scan count i g gi" "i \<le> length (threads m)" "loads_ok m (p_seen m)"
    and "\<And>j. j < length (threads m) \<Longrightarrow> last (con_order m ! j) = cs ! j"
  shows "\<exists>seen. loads_ok m seen \<and> machine_reachable cap m (scan_end cap count m seen
    (scan_consumers cs (p_next m) (cap - count) (p_blk m) [i..<length (threads m)] g gi))"
  using assms
proof (induction "length (threads m) - i" arbitrary: m i g gi)
  case 0
  then have i: "i = length (threads m)" by simp
  have "machine_step cap m (scan_end cap count m (p_seen m) (Inr (g, gi)))"
    using machine_step.scan_done [OF "0.prems"(1) i] by (simp add: scan_end_def)
  then show ?case using 0 i by (intro exI [of _ "p_seen m"]) (auto intro: machine_one_step)
next
  case (Suc k)
  let ?n = "length (threads m)"
  let ?scan = "\<lambda>is. scan_consumers cs (p_next m) (cap - count) (p_blk m) is"
  have i: "i < ?n" using Suc.hyps(2) by simp
  then have split: "[i..<?n] = i # [Suc i..<?n]" by (rule upt_conv_Cons)
  have rest: "\<exists>seen. loads_ok m seen \<and> machine_reachable cap (m\<lparr>p_seen := s, p_pc := P_scan count (Suc i) g gi\<rparr>)
      (scan_end cap count m seen (?scan [Suc i..<?n] g gi))" if "loads_ok m s" for s g gi
    using Suc.hyps(1) [of "m\<lparr>p_seen := s, p_pc := P_scan count (Suc i) g gi\<rparr>" "Suc i" g gi] Suc.hyps(2) Suc.prems(4) i that
    by simp
  show ?case
  proof (cases "i = p_blk m")
    case True
    have "machine_step cap m (m\<lparr>p_seen := p_seen m, p_pc := P_scan count (Suc i) g gi\<rparr>)"
      using machine_step.scan_skip [OF Suc.prems(1) i True] by simp
    moreover have "?scan [i..<?n] g gi = ?scan [Suc i..<?n] g gi" unfolding split using True by simp
    ultimately show ?thesis using rest [OF Suc.prems(3), of g gi] by (metis machine_step_then)
  next
    case False
    let ?j = "length (con_order m ! i) - 1" and ?lag = "p_next m - cs ! i"
    have "p_seen m ! i < length (con_order m ! i)" using Suc.prems(3) i by (simp add: loads_ok_def)
    note load = newest_load [OF this]
    have lag: "?lag = p_next m - con_order m ! i ! ?j" using load(2) Suc.prems(4) [OF i] by simp
    have ok: "loads_ok m ((p_seen m)[i := ?j])" using Suc.prems(3) i by (rule loads_ok_newest)
    show ?thesis
    proof (cases "?lag > cap - count")
      case True
      then have "?scan [i..<?n] g gi = Inl i" using False by (simp add: split Let_def)
      moreover have "machine_step cap m (scan_end cap count m ((p_seen m)[i := ?j]) (Inl i))"
        using machine_step.scan_reject [OF Suc.prems(1) i False load(1) lag True] by (simp add: scan_end_def)
      ultimately show ?thesis using ok by (auto intro: machine_one_step)
    next
      case below: False
      let ?g = "if ?lag > g then ?lag else g" and ?gi = "if ?lag > g then i else gi"
      have step: "machine_step cap m (m\<lparr>p_seen := (p_seen m)[i := ?j], p_pc := P_scan count (Suc i) ?g ?gi\<rparr>)"
        using machine_step.scan_accept [OF Suc.prems(1) i False load(1) lag below [unfolded not_less]]
        by (cases "?lag > g") (simp_all only: if_True if_False)
      have eq: "?scan [i..<?n] g gi = ?scan [Suc i..<?n] ?g ?gi" using False below by (simp add: split Let_def)
      show ?thesis unfolding eq using rest [OF ok, of ?g ?gi] machine_step_then [OF step] by blast
    qed
  qed
qed

text \<open>The whole check of the room for a batch.\<close>

lemma room_run:
  assumes "p_pc m = P_ready" "0 < count" "count \<le> cap" "loads_ok m (p_seen m)" "p_blk m < length (threads m)"
    and last: "\<And>j. j < length (threads m) \<Longrightarrow> last (con_order m ! j) = cs ! j"
    and res: "(if count > p_avail m then rescan cap cs (length (threads m)) (p_next m) (p_avail m) (p_blk m) count
      else (True, p_avail m, p_blk m)) = (room, avail', blk')"
  shows "\<exists>seen. loads_ok m seen \<and> machine_reachable cap m
    (m\<lparr>p_seen := seen, p_blk := blk', p_avail := avail', p_pc := (if room then P_write count 0 else P_ready)\<rparr>)"
proof (cases "p_avail m < count")
  case False
  then have "machine_step cap m (m\<lparr>p_pc := P_write count 0\<rparr>)"
    by (intro machine_step.publish_cached [OF assms(1-3)]) simp
  moreover have "m\<lparr>p_seen := p_seen m, p_blk := p_blk m, p_avail := p_avail m, p_pc := P_write count 0\<rparr> = m\<lparr>p_pc := P_write count 0\<rparr>"
    by (cases m) simp
  ultimately show ?thesis using False res assms(4)
    by (intro exI [of _ "p_seen m"]) (auto intro: machine_one_step)
next
  case more: True
  let ?b = "p_blk m" and ?m1 = "m\<lparr>p_pc := P_blocker count\<rparr>"
  let ?j = "length (con_order m ! ?b) - 1" and ?lag = "p_next m - cs ! ?b"
  have one: "machine_step cap m ?m1" by (rule machine_step.publish_rescan [OF assms(1-3) more])
  have "p_seen m ! ?b < length (con_order m ! ?b)" using assms(4,5) by (simp add: loads_ok_def)
  note load = newest_load [OF this]
  have ok: "loads_ok m ((p_seen m)[?b := ?j])" using assms(4,5) by (rule loads_ok_newest)
  let ?m2 = "m\<lparr>p_seen := (p_seen m)[?b := ?j],
      p_pc := (if ?lag > cap - count then P_ready else P_scan count 0 ?lag ?b)\<rparr>"
  have "machine_step cap ?m1 ?m2"
    using machine_step.load_blocker [of ?m1 count ?j ?lag cap] load last [OF assms(5)]
    by (cases "cap - count < ?lag") simp_all
  note to2 = machine_step_then [OF one machine_step_then [OF this]]
  show ?thesis
  proof (cases "?lag > cap - count")
    case True
    have "m\<lparr>p_seen := s, p_blk := p_blk m, p_avail := p_avail m, p_pc := P_ready\<rparr> = m\<lparr>p_seen := s, p_pc := P_ready\<rparr>" for s
      by (cases m) simp
    then show ?thesis using True more res ok to2 [OF machine_reachable.start]
      by (intro exI [of _ "(p_seen m)[?b := ?j]"]) (auto simp: rescan_def Let_def)
  next
    case False
    let ?scan = "scan_consumers cs (p_next m) (cap - count) ?b [0..<length (threads m)] ?lag ?b"
    obtain seen where seen: "loads_ok m seen" and run: "machine_reachable cap ?m2 (scan_end cap count m seen ?scan)"
      using scan_run [of ?m2 count 0 ?lag ?b cs cap] False last ok by auto
    have "m\<lparr>p_seen := seen, p_blk := i, p_avail := p_avail m, p_pc := P_ready\<rparr> = m\<lparr>p_seen := seen, p_blk := i, p_pc := P_ready\<rparr>" for i
      by (cases m) simp
    then have "scan_end cap count m seen ?scan =
        m\<lparr>p_seen := seen, p_blk := blk', p_avail := avail', p_pc := (if room then P_write count 0 else P_ready)\<rparr>"
      using False more res by (auto simp: rescan_def scan_end_def Let_def split: sum.splits)
    then show ?thesis using seen to2 [OF run] by auto
  qed
qed

text \<open>The writes and the release of the publication cursor.\<close>

lemma write_run:
  assumes "p_pc m = P_write count k" "k \<le> unat count"
  shows "\<exists>es. length es = unat count - k \<and> machine_reachable cap m
    (m\<lparr>ring := fst (write_slots writer (\<lambda>i. slot cap (p_next m + of_nat i)) [k..<unat count] (ring m, w)),
       g_batch := g_batch m @ es, p_pc := P_write count (unat count)\<rparr>)"
  using assms
proof (induction "unat count - k" arbitrary: m k w)
  case 0
  then have "k = unat count" by simp
  moreover have "m\<lparr>ring := ring m, g_batch := g_batch m, p_pc := P_write count k\<rparr> = m" using 0 by (cases m) simp
  ultimately show ?case by (intro exI [of _ "[]"]) (simp add: machine_reachable.start)
next
  case (Suc r)
  then have k: "k < unat count" and r: "r = unat count - Suc k" by simp_all
  let ?s = "slot cap (p_next m + of_nat k)"
  obtain e w' where wr: "writer (ring m ! ?s) (of_nat k) w = (e, w')" by fastforce
  let ?m = "m\<lparr>ring := (ring m)[?s := e], g_batch := g_batch m @ [e], p_pc := P_write count (Suc k)\<rparr>"
  have step: "machine_step cap m ?m" by (rule machine_step.write_slot [OF Suc.prems(1) k])
  obtain es where es: "length es = unat count - Suc k" and run: "machine_reachable cap ?m
    (?m\<lparr>ring := fst (write_slots writer (\<lambda>i. slot cap (p_next m + of_nat i)) [Suc k..<unat count] ((ring m)[?s := e], w')),
       g_batch := (g_batch m @ [e]) @ es, p_pc := P_write count (unat count)\<rparr>)"
    using Suc.hyps(1) [of "Suc k" ?m w', OF r] k by auto
  have "write_slots writer (\<lambda>i. slot cap (p_next m + of_nat i)) [k..<unat count] (ring m, w) =
      write_slots writer (\<lambda>i. slot cap (p_next m + of_nat i)) [Suc k..<unat count] ((ring m)[?s := e], w')"
    using wr by (simp add: upt_conv_Cons [OF k])
  then show ?case using es k machine_step_then [OF step run] by (intro exI [of _ "e # es"]) simp
qed

text \<open>A call of the producer handle.\<close>

lemma publish_run:
  assumes models: "handle_models b base cap n s log cs" and rest: "at_rest s m"
    and run: "handle_publish b s count writer w = Inr (accepted, s', w')"
  shows "\<exists>m' es. machine_reachable cap m m' \<and> at_rest s' m' \<and> g_log m' = g_log m @ es \<and> g_recv m' = g_recv m \<and>
    length es = (if accepted then unat count else 0)"
proof -
  let ?d = "ep_object s" and ?h = "ep_producer s"
  have ok: "ring_ok ?d" "capacity ?d = cap" "consumer_count ?d = n" "owner_live ?h" "handle_blocking_consumer ?h < n"
      "\<not> (b = Debug \<and> \<not> (owner_live ?h \<and> producer_state ?d = Handle))"
    using models by (auto simp: handle_models_def Let_def producer_ok_def cursor_ok_def)
  have tmpl: "template_ok (capacity ?d) n" using ok(1,3) by (simp add: ring_ok_def)
  note r = rest [unfolded at_rest_def Let_def]
  show ?thesis
  proof (cases "count = 0 \<or> count > cap")
    case True
    then have "producer_try_publish_batch b ?d ?h count writer w = Inr (count = 0, ?d, ?h, w)"
      unfolding producer_try_publish_batch_def using ok(2,6) by auto
    then have "accepted = (count = 0)" "s' = s" using run by (auto simp: handle_publish_def)
    then show ?thesis using rest by (intro exI [of _ m] exI [of _ "[]"]) (auto intro: machine_reachable.start)
  next
    case False
    then have cnt: "count \<noteq> 0" "0 < count" "count \<le> cap" by (auto simp: word_neq_0_conv)
    obtain room avail' blk' where res: "(if count > handle_available_before_rescan ?h
        then rescan (capacity ?d) (consumers ?d) (consumer_count ?d) (handle_next_to_publish ?h)
          (handle_available_before_rescan ?h) (handle_blocking_consumer ?h) count
        else (True, handle_available_before_rescan ?h, handle_blocking_consumer ?h)) = (room, avail', blk')"
      by (metis prod_cases3)
    obtain evs w1 where wr: "write_slots writer (\<lambda>i. event_at ?d (handle_next_to_publish ?h + of_nat i)) [0..<unat count]
        (events ?d, w) = (evs, w1)" by fastforce
    note op = producer_batch_unfold [OF ok(6,4) tmpl cnt(1) _ res wr, unfolded ok(2), OF cnt(3)]
    have res': "(if count > p_avail m then rescan cap (consumers ?d) (length (threads m)) (p_next m) (p_avail m) (p_blk m) count
        else (True, p_avail m, p_blk m)) = (room, avail', blk')"
    proof -
      have "p_next m = handle_next_to_publish ?h" "p_avail m = handle_available_before_rescan ?h"
        "p_blk m = handle_blocking_consumer ?h" "length (threads m) = consumer_count ?d" using r by simp_all
      then show ?thesis using res ok(2) by (simp only:)
    qed
    have pre: "p_pc m = P_ready" "loads_ok m (p_seen m)" "p_blk m < length (threads m)"
      "\<And>j. j < length (threads m) \<Longrightarrow> last (con_order m ! j) = consumers ?d ! j"
      using r ok(3,5) by simp_all
    obtain seen where seen: "loads_ok m seen" and reach: "machine_reachable cap m
        (m\<lparr>p_seen := seen, p_blk := blk', p_avail := avail', p_pc := (if room then P_write count 0 else P_ready)\<rparr>)"
      using room_run [OF pre(1) cnt(2,3) pre(2-4) res'] by blast
    show ?thesis
    proof (cases room)
      case no: False
      have "accepted = False" "s' = s\<lparr>ep_producer := ?h\<lparr>handle_available_before_rescan := avail',
          handle_blocking_consumer := blk'\<rparr>\<rparr>"
        using run op no by (auto simp: handle_publish_def)
      then show ?thesis using reach seen r no
        by (intro exI [of _ "m\<lparr>p_seen := seen, p_blk := blk', p_avail := avail', p_pc := P_ready\<rparr>"] exI [of _ "[]"])
          (auto simp: at_rest_def Let_def loads_ok_def)
    next
      case yes: True
      let ?m1 = "m\<lparr>p_seen := seen, p_blk := blk', p_avail := avail', p_pc := P_write count 0\<rparr>"
      have "slot cap (p_next m + of_nat i) = event_at ?d (handle_next_to_publish ?h + of_nat i)" for i
        using r ok(2) by (simp add: slot_def event_at_def)
      then have evs: "fst (write_slots writer (\<lambda>i. slot cap (p_next m + of_nat i)) [0..<unat count] (ring m, w)) = evs"
        using wr r by simp
      have "g_batch m = []" using r by simp
      then obtain es where es: "length es = unat count" and reach2: "machine_reachable cap ?m1
          (?m1\<lparr>ring := evs, g_batch := es, p_pc := P_write count (unat count)\<rparr>)"
        using write_run [of ?m1 count 0 cap writer w] evs by auto
      let ?m2 = "?m1\<lparr>ring := evs, g_batch := es, p_pc := P_write count (unat count)\<rparr>"
      let ?m3 = "?m2\<lparr>p_next := p_next m + count, p_avail := avail' - count, pub_order := pub_order m @ [p_next m + count],
          p_pc := P_ready, g_log := g_log m @ es, g_batch := [], g_pubs := g_pubs m @ [length (g_log m) + unat count]\<rparr>"
      have "machine_step cap ?m2 ?m3" using machine_step.publish_release [of ?m2 count "unat count" cap] by simp
      then have all: "machine_reachable cap m ?m3"
        using reach reach2 yes by (auto intro: machine_reachable.step machine_reachable_trans)
      have "accepted" "s' = s\<lparr>ep_object := debug_store b Handle ((debug_store b Handle_publishing ?d)
            \<lparr>events := evs, published := handle_next_to_publish ?h + count\<rparr>),
          ep_producer := ?h\<lparr>handle_available_before_rescan := avail', handle_blocking_consumer := blk',
            handle_next_to_publish := handle_next_to_publish ?h + count, handle_available_before_rescan := avail' - count\<rparr>\<rparr>"
        using run op yes by (auto simp: handle_publish_def)
      then have "at_rest s' ?m3" using r seen by (auto simp: at_rest_def Let_def loads_ok_def debug_store_def less_Suc_eq)
      then show ?thesis using all es \<open>accepted\<close> by (intro exI [of _ ?m3] exI [of _ es]) auto
    qed
  qed
qed

section \<open>Consumption\<close>

lemma read_run:
  assumes "i < length (threads m)" "i < length (g_recv m)" "c_pc (threads m ! i) = C_read count k" "k \<le> unat count"
  shows "machine_reachable cap m (m\<lparr>threads := (threads m)[i := (threads m ! i)\<lparr>c_pc := C_read count (unat count)\<rparr>],
    g_recv := (g_recv m)[i := g_recv m ! i @ map (\<lambda>q. (ring m ! slot cap (c_next (threads m ! i) + of_nat q),
      c_next (threads m ! i) + of_nat q)) [k..<unat count]]\<rparr>)"
  using assms
proof (induction "unat count - k" arbitrary: m k)
  case 0
  then have "k = unat count" by simp
  moreover from this have "(threads m)[i := (threads m ! i)\<lparr>c_pc := C_read count (unat count)\<rparr>] = threads m"
    using 0 by (metis consumer_thread.surjective consumer_thread.update_convs(4) list_update_id)
  moreover have "m\<lparr>threads := threads m, g_recv := g_recv m\<rparr> = m" by (cases m) simp
  ultimately show ?case by (simp add: machine_reachable.start)
next
  case (Suc r)
  let ?t = "threads m ! i"
  have k: "k < unat count" and r: "r = unat count - Suc k" using Suc by simp_all
  let ?e = "(ring m ! slot cap (c_next ?t + of_nat k), c_next ?t + of_nat k)"
  let ?m = "m\<lparr>threads := (threads m)[i := ?t\<lparr>c_pc := C_read count (Suc k)\<rparr>], g_recv := (g_recv m)[i := g_recv m ! i @ [?e]]\<rparr>"
  have step: "machine_step cap m ?m" by (rule machine_step.read_slot [OF Suc.prems(1) refl Suc.prems(3) k])
  from Suc.hyps(1) [OF r, of ?m] Suc.prems k show ?case
    by (intro machine_step_then [OF step]) (simp add: upt_conv_Cons [OF k])
qed

lemma count_le_capacity:
  assumes "ring_ok d" "represents base d log cs" "consumer_handle_ok d c"
  defines "avail \<equiv> cached_published_position (if cached_published_position c = next_position c
    then c\<lparr>cached_published_position := published d\<rparr> else c) - next_position c"
  shows "(if avail < max_count then avail else max_count) \<le> capacity d"
proof -
  let ?i = "handle_index c"
  have c: "?i < consumer_count d" "next_position c = consumers d ! ?i"
    "unat (cached_published_position c - next_position c) \<le> unat (published d - next_position c)"
    using assms(3) by (auto simp: consumer_handle_ok_def)
  have len: "?i < length cs" using assms(1) c(1) represents_consumers [OF assms(2)] by (simp add: ring_ok_def)
  then have at: "consumers d ! ?i = base + of_nat (cs ! ?i)" "cs ! ?i \<in> set cs" using assms(2) by (auto simp: represents_def)
  have "unat (published d - next_position c) = length log - cs ! ?i"
    using represents_lag [OF assms(2) at(2)] by (simp add: c(2) at(1))
  also have "\<dots> \<le> unat (capacity d)" using assms(2) at(2) by (fastforce simp: represents_def)
  finally have "unat avail \<le> unat (capacity d)" using c(3) by (auto simp: avail_def)
  then show ?thesis by (auto simp: word_nat)
qed

lemma read_slots_fold:
  "read_slots handler f first evs is h =
     foldl (\<lambda>h (e, q). handler e q h) h (map (\<lambda>i. (evs ! f i, first + of_nat i)) is)"
  by (induction "is" arbitrary: h) simp_all

lemma at_rest_consumer:
  assumes rest: "at_rest s m" and i: "i < consumer_count (ep_object s)"
    and len: "length (ep_consumers s) = consumer_count (ep_object s)"
      "length (consumers (ep_object s)) = consumer_count (ep_object s)" "length recv = length (g_recv m)"
    and order: "last order = q" "length (con_order m ! i) \<le> length order"
    and t: "c_next t = next_position c" "c_cached t = cached_published_position c"
      "c_seen t < length (pub_order m)" "c_pc t = C_ready"
  shows "at_rest (s\<lparr>ep_object := (ep_object s)\<lparr>consumers := (consumers (ep_object s))[i := q]\<rparr>,
      ep_consumers := (ep_consumers s)[i := c]\<rparr>)
    (m\<lparr>g_recv := recv, threads := (threads m)[i := t], con_order := (con_order m)[i := order], g_curs := curs\<rparr>)"
proof -
  note r = rest [unfolded at_rest_def Let_def]
  have n: "length (threads m) = consumer_count (ep_object s)" "length (con_order m) = consumer_count (ep_object s)"
    using r by simp_all
  have "p_seen m ! j < length ((con_order m)[i := order] ! j)" if "j < consumer_count (ep_object s)" for j
    using r that order(2) n i by (cases "j = i") (auto simp: loads_ok_def dest: less_le_trans)
  moreover have "last ((con_order m)[i := order] ! j) = (consumers (ep_object s))[i := q] ! j"
    if "j < consumer_count (ep_object s)" for j
    using r that order(1) n i len by (cases "j = i") auto
  moreover have "c_next ((threads m)[i := t] ! j) = next_position ((ep_consumers s)[i := c] ! j) \<and>
      c_cached ((threads m)[i := t] ! j) = cached_published_position ((ep_consumers s)[i := c] ! j) \<and>
      c_seen ((threads m)[i := t] ! j) < length (pub_order m) \<and> c_pc ((threads m)[i := t] ! j) = C_ready"
    if "j < consumer_count (ep_object s)" for j
    using r that t n i len by (cases "j = i") auto
  ultimately show ?thesis using r len by (simp add: at_rest_def Let_def loads_ok_def)
qed

text \<open>A call of a consumer handle; what it hands to its handler is what the thread receives.\<close>

lemma consume_run:
  assumes models: "handle_models b base cap n s log cs" and rest: "at_rest s m" and i: "i < n"
    and run: "handle_consume s i max_count handler h = Inr (k, s', h')"
  shows "\<exists>m' es. machine_reachable cap m m' \<and> at_rest s' m' \<and> g_log m' = g_log m \<and>
    g_recv m' = (g_recv m)[i := g_recv m ! i @ es] \<and> length es = unat k \<and>
    h' = foldl (\<lambda>h (e, q). handler e q h) h es"
proof -
  let ?d = "ep_object s" and ?c = "ep_consumers s ! i" and ?t = "threads m ! i"
  have ok: "ring_ok ?d" "represents base ?d log cs" "capacity ?d = cap" "consumer_count ?d = n"
      "consumer_handle_ok ?d ?c" "handle_index ?c = i" "length (ep_consumers s) = n"
    using models i by (auto simp: handle_models_def Let_def)
  have live: "consumer_owner_live ?c" using ok(5) by (simp add: consumer_handle_ok_def)
  have tmpl: "template_ok (capacity ?d) n" using ok(1,4) by (simp add: ring_ok_def)
  note r = rest [unfolded at_rest_def Let_def]
  have th: "i < length (threads m)" "i < length (g_recv m)" "c_next ?t = next_position ?c"
      "c_cached ?t = cached_published_position ?c" "c_seen ?t < length (pub_order m)" "c_pc ?t = C_ready"
      "i < length (con_order m)"
    using r i ok(4) by simp_all
  define c1 where "c1 = (if cached_published_position ?c = next_position ?c
    then ?c\<lparr>cached_published_position := published ?d\<rparr> else ?c)"
  define avail where "avail = cached_published_position c1 - next_position ?c"
  define count where "count = (if avail < max_count then avail else max_count)"
  have consumers: "length (consumers ?d) = n" using ok(1,4) by (simp add: ring_ok_def)
  let ?j = "length (pub_order m) - 1"
  note load = newest_load [OF th(5)]
  have pub: "pub_order m ! ?j = published ?d" using load(2) r by simp
  show ?thesis
  proof (cases "max_count = 0 \<or> avail = 0")
    case idle: True
    have op: "handle_consume s i max_count handler h =
        Inr (0, s\<lparr>ep_consumers := (ep_consumers s)[i := if max_count = 0 then ?c else c1]\<rparr>, h)"
      using idle live by (auto simp: handle_consume_def consumer_consume_available_def c1_def avail_def Let_def)
    show ?thesis
    proof (cases "max_count = 0")
      case True
      then have "s' = s" "k = 0" "h' = h" using run op by simp_all
      then show ?thesis using rest by (intro exI [of _ m] exI [of _ "[]"]) (simp add: machine_reachable.start)
    next
      case False
      then have a: "published ?d = next_position ?c" "cached_published_position ?c = next_position ?c"
        "c1 = ?c\<lparr>cached_published_position := published ?d\<rparr>"
        using idle by (auto simp: avail_def c1_def split: if_splits)
      let ?m = "m\<lparr>threads := (threads m)[i := ?t\<lparr>c_seen := ?j, c_cached := published ?d, c_pc := C_ready\<rparr>]\<rparr>"
      have "machine_step cap m ?m"
        using machine_step.load_published [OF th(1) refl th(6) False load(1) refl, of cap] pub th(3) a(1) by simp
      moreover have "at_rest s' ?m"
        using at_rest_consumer [OF rest, of i "g_recv m" "con_order m ! i" "consumers ?d ! i"
            "?t\<lparr>c_seen := ?j, c_cached := published ?d, c_pc := C_ready\<rparr>" c1 "g_curs m"]
          r run op a(3) False load(3) ok(4,7) i consumers th by simp
      ultimately show ?thesis using run op False
        by (intro exI [of _ ?m] exI [of _ "[]"]) (auto intro: machine_one_step)
    qed
  next
    case False
    then have busy: "max_count \<noteq> 0" "avail \<noteq> 0" by auto
    have le: "count \<le> capacity ?d" using count_le_capacity [OF ok(1,2,5), of max_count] 
      unfolding count_def avail_def c1_def by simp
    note op = consumer_consume_unfold [OF busy(1) live tmpl, of handler h, folded c1_def, folded avail_def, folded count_def,
        OF busy(2) le]
    let ?new = "map (\<lambda>q. (ring m ! slot cap (next_position ?c + of_nat q), next_position ?c + of_nat q)) [0..<unat count]"
    define seen where "seen = (if cached_published_position ?c = next_position ?c then ?j else c_seen ?t)"
    have seen: "seen < length (pub_order m)" using th(5) load(3) by (simp add: seen_def)
    let ?t1 = "?t\<lparr>c_seen := seen, c_cached := cached_published_position c1, c_pc := C_read count 0\<rparr>"
    let ?m1 = "m\<lparr>threads := (threads m)[i := ?t1]\<rparr>"
    let ?m2 = "m\<lparr>threads := (threads m)[i := ?t1\<lparr>c_pc := C_read count (unat count)\<rparr>],
      g_recv := (g_recv m)[i := g_recv m ! i @ ?new]\<rparr>"
    let ?m3 = "?m2\<lparr>threads := (threads m)[i := ?t1\<lparr>c_next := next_position ?c + count, c_pc := C_ready\<rparr>],
      con_order := (con_order m)[i := con_order m ! i @ [next_position ?c + count]],
      g_curs := (g_curs m)[i := g_curs m ! i @ [last (g_curs m ! i) + unat count]]\<rparr>"
    have one: "machine_step cap m ?m1"
    proof (cases "cached_published_position ?c = next_position ?c")
      case True
      then have av: "avail = pub_order m ! ?j - c_next ?t" using pub th(3) by (simp add: avail_def c1_def)
      show ?thesis
        using machine_step.load_published [OF th(1) refl th(6) busy(1) load(1) av, of cap] busy(2) pub True
        by (simp add: c1_def count_def seen_def)
    next
      case False
      have "?t\<lparr>c_seen := c_seen ?t, c_cached := cached_published_position ?c, c_pc := C_read count 0\<rparr> =
          ?t\<lparr>c_pc := C_read count 0\<rparr>" using th(4) by (cases ?t) simp
      moreover have av: "avail = c_cached ?t - c_next ?t" using False th(3,4) by (simp add: avail_def c1_def)
      ultimately show ?thesis
        using machine_step.take_cached [OF th(1) refl th(6) busy(1) av busy(2)] False by (simp add: c1_def count_def seen_def)
    qed
    have two: "machine_reachable cap ?m1 ?m2"
      using read_run [of i ?m1 count 0 cap] th by simp
    have three: "machine_step cap ?m2 ?m3"
      using machine_step.consume_release [of i ?m2 _ count "unat count" cap] th by simp
    have all: "machine_reachable cap m ?m3"
      by (rule machine_reachable.step [OF machine_reachable_trans [OF two machine_one_step [OF one]] three])
    have "handle_consume s i max_count handler h = Inr (count,
        s\<lparr>ep_object := ?d\<lparr>consumers := (consumers ?d)[i := next_position ?c + count]\<rparr>,
          ep_consumers := (ep_consumers s)[i := c1\<lparr>next_position := next_position ?c + count\<rparr>]\<rparr>,
        read_slots handler (\<lambda>q. event_at ?d (next_position ?c + of_nat q)) (next_position ?c) (events ?d) [0..<unat count] h)"
      using op ok(6) by (simp add: handle_consume_def)
    then have "k = count" "h' = read_slots handler (\<lambda>q. event_at ?d (next_position ?c + of_nat q)) (next_position ?c) (events ?d)
        [0..<unat count] h"
      and s': "s' = s\<lparr>ep_object := ?d\<lparr>consumers := (consumers ?d)[i := next_position ?c + count]\<rparr>,
        ep_consumers := (ep_consumers s)[i := c1\<lparr>next_position := next_position ?c + count\<rparr>]\<rparr>"
      using run by simp_all
    moreover have "slot cap q = event_at ?d q" for q using ok(3) by (simp add: slot_def event_at_def)
    ultimately have "h' = foldl (\<lambda>h (e, q). handler e q h) h ?new" "length ?new = unat k"
      using r by (simp_all add: read_slots_fold)
    moreover have "at_rest s' ?m3"
      unfolding s' using at_rest_consumer [OF rest, of i "(g_recv m)[i := g_recv m ! i @ ?new]"
          "con_order m ! i @ [next_position ?c + count]" "next_position ?c + count"
          "?t1\<lparr>c_next := next_position ?c + count, c_pc := C_ready\<rparr>" "c1\<lparr>next_position := next_position ?c + count\<rparr>"]
        seen ok(4,7) i th consumers by simp
    ultimately show ?thesis using all by (intro exI [of _ ?m3] exI [of _ ?new]) simp
  qed
qed

section \<open>Whole programs\<close>

lemma new_endpoint_rests:
  assumes "template_ok cap n" "new_endpoint b cap n dflt p = Inr s"
  shows "at_rest s (init_machine cap n dflt p)"
proof -
  have "s = \<lparr>ep_object = debug_store b Handle (single_producer_disruptor cap n dflt p),
      ep_producer = \<lparr>owner_live = True, handle_next_to_publish = p, handle_available_before_rescan = cap,
        handle_blocking_consumer = 0\<rparr>,
      ep_consumers = map (make_consumer (debug_store b Handle (single_producer_disruptor cap n dflt p))) [0..<n]\<rparr>"
    using assms(2) by (auto simp: new_endpoint_def make_producer_def single_producer_disruptor_def split: if_splits)
  then show ?thesis
    by (auto simp: at_rest_def Let_def init_machine_def loads_ok_def single_producer_disruptor_def
        debug_store_def make_consumer_def)
qed

text \<open>A state of the handles that some run of the machine comes to rest in.\<close>

definition attained :: "build \<Rightarrow> size_t \<Rightarrow> nat \<Rightarrow> 'ev \<Rightarrow> u64 \<Rightarrow> 'ev endpoint \<Rightarrow> bool" where
  "attained b cap n dflt p s \<longleftrightarrow> (\<exists>log cs m. handle_models b p cap n s log cs \<and>
     machine_reachable cap (init_machine cap n dflt p) m \<and> at_rest s m)"

lemma attained_publish:
  assumes "attained b cap n dflt p s" "handle_publish b s count writer w = Inr (accepted, s', w')"
  shows "attained b cap n dflt p s'"
proof -
  obtain log cs m where models: "handle_models b p cap n s log cs"
    and m: "machine_reachable cap (init_machine cap n dflt p) m" "at_rest s m"
    using assms(1) by (auto simp: attained_def)
  have "\<exists>log'. handle_models b p cap n s' log' cs"
    using handles.publish_law [OF models, of count writer w] assms(2) by (auto split: if_splits)
  moreover obtain m' where "machine_reachable cap m m'" "at_rest s' m'"
    using publish_run [OF models m(2) assms(2)] by blast
  ultimately show ?thesis using machine_reachable_trans [OF _ m(1)] by (auto simp: attained_def)
qed

lemma attained_consume:
  assumes "attained b cap n dflt p s" "i < n" "handle_consume s i max_count handler h = Inr (k, s', h')"
  shows "attained b cap n dflt p s'"
proof -
  obtain log cs m where models: "handle_models b p cap n s log cs"
    and m: "machine_reachable cap (init_machine cap n dflt p) m" "at_rest s m"
    using assms(1) by (auto simp: attained_def)
  have "\<exists>cs'. handle_models b p cap n s' log cs'"
    using handles.consume_law [OF models assms(2), of max_count handler h] assms(3) by auto
  moreover obtain m' where "machine_reachable cap m m'" "at_rest s' m'"
    using consume_run [OF models m(2) assms(2,3)] by blast
  ultimately show ?thesis using machine_reachable_trans [OF _ m(1)] by (auto simp: attained_def)
qed

lemma attained_turns:
  assumes "run_turns (handle_publish b) handle_consume prog first turns c = Inr c'"
    and "attained b cap n dflt p (cl_stream c)" "\<forall>t \<in> set turns. turn_ok n t"
  shows "attained b cap n dflt p (cl_stream c')"
  using assms
proof (induction turns arbitrary: c)
  case (Cons t turns)
  obtain c1 where step: "(case t of Producer_turn \<Rightarrow> publish_turn (handle_publish b) prog c
      | Consumer_turn i \<Rightarrow> consume_turn handle_consume prog first i c) = Inr c1"
    and rest: "run_turns (handle_publish b) handle_consume prog first turns c1 = Inr c'"
    using Cons.prems(1) by (auto split: sum.splits)
  have "attained b cap n dflt p (cl_stream c1)"
  proof (cases t)
    case Producer_turn
    then show ?thesis using step Cons.prems(2) attained_publish
      by (auto simp: publish_turn_def publish_attempt_def Let_def split: if_splits sum.splits)
  next
    case (Consumer_turn i)
    then have "i < n" using Cons.prems(3) by (simp add: turn_ok_def)
    then show ?thesis using Consumer_turn step Cons.prems(2) attained_consume
      by (auto simp: consume_turn_def split: if_splits sum.splits)
  qed
  then show ?case using Cons.IH [OF rest] Cons.prems(3) by simp
qed simp

text \<open>C3: The concurrent machine includes the code: whatever state the handles of a new object are in
  after any loops over them, on any schedule of their calls, with any writers and handlers, some
  run of the machine's single accesses comes to rest in it, with the same slots, shared cursors
  and caches in every thread.\<close>

theorem handle_programs_are_runs:
  assumes "template_ok cap n" "new_endpoint b cap n dflt p = Inr s" "\<forall>t \<in> set turns. turn_ok n t"
    and "run_turns (handle_publish b) handle_consume prog first turns
      \<lparr>cl_stream = s, cl_published = 0, cl_handlers = hs\<rparr> = Inr c"
  shows "\<exists>m. machine_reachable cap (init_machine cap n dflt p) m \<and> at_rest (cl_stream c) m"
proof -
  obtain s0 where "new_endpoint b cap n dflt p = Inr s0" "handle_models b p cap n s0 [] (replicate n 0)"
    using new_handle_models [OF assms(1), of b dflt p] by blast
  then have "attained b cap n dflt p s"
    using new_endpoint_rests [OF assms(1,2)] assms(2) machine_reachable.start unfolding attained_def by fastforce
  then show ?thesis using attained_turns [OF assms(4) _ assms(3)] by (auto simp: attained_def)
qed

theorem handle_programs_are_runs_witness:
  "\<exists>s c m. new_endpoint Debug 4 1 (0 :: nat) 7 = Inr s \<and>
    run_turns (handle_publish Debug) handle_consume
      \<lparr>event_total = 6, batch = (\<lambda>_. 2), event_writer_from = (\<lambda>q e i w. (unat (q + i), w)), drain = 4,
       handler_from = (\<lambda>_ _ _ h. h), progress_of = (\<lambda>h. h), advance = (\<lambda>n h. h + n)\<rparr> 7
      [Producer_turn, Producer_turn, Producer_turn, Consumer_turn 0]
      \<lparr>cl_stream = s, cl_published = 0, cl_handlers = [0]\<rparr> = Inr c \<and>
    machine_reachable 4 (init_machine 4 1 0 7) m \<and> at_rest (cl_stream c) m"
proof -
  let ?prog = "\<lparr>event_total = 6, batch = (\<lambda>_. 2), event_writer_from = (\<lambda>q e i w. (unat (q + i), w)), drain = 4,
      handler_from = (\<lambda>_ _ _ h. h), progress_of = (\<lambda>h. h), advance = (\<lambda>n h. h + n)\<rparr> :: (nat, u64) stream_program"
  let ?turns = "[Producer_turn, Producer_turn, Producer_turn, Consumer_turn 0]"
  have tmpl: "template_ok 4 1" by code_simp
  have "case new_endpoint Debug 4 1 (0 :: nat) 7 of Inl _ \<Rightarrow> False
    | Inr s \<Rightarrow> (case run_turns (handle_publish Debug) handle_consume ?prog 7 ?turns
        \<lparr>cl_stream = s, cl_published = 0, cl_handlers = [0]\<rparr> of Inl _ \<Rightarrow> False | Inr _ \<Rightarrow> True)"
    by code_simp
  then obtain s c where "new_endpoint Debug 4 1 (0 :: nat) 7 = Inr s" "run_turns (handle_publish Debug) handle_consume ?prog 7 ?turns
      \<lparr>cl_stream = s, cl_published = 0, cl_handlers = [0]\<rparr> = Inr c"
    by (auto split: sum.splits)
  then show ?thesis using handle_programs_are_runs [OF tmpl, of Debug 0 7 s ?turns ?prog 7 "[0]" c] by (auto simp: turn_ok_def)
qed

end
