(* ===== verification/Spin_Wait.thy ===== *)
theory Spin_Wait
  imports Prelude
begin

text \<open>
  The wait policies of \<open>spin_wait.hpp\<close>, the empty policy the wait-strategy benchmark adds to
  them, and their shared contract: what the \<open>k\<close>-th unsuccessful poll since the last reset
  does. A policy's only effect is a hint to the processor or the scheduler, so \<open>wait\<close>
  returns the hints it issues and the policy's new state.
\<close>

section \<open>The policies\<close>

datatype hint = Pause | Yield

definition busy_spin_wait_wait :: "unit \<Rightarrow> hint list \<times> unit" where
  "busy_spin_wait_wait s = ([Pause], s)"

definition busy_spin_wait_reset :: "unit \<Rightarrow> unit" where
  "busy_spin_wait_reset s = s"

definition yield_wait_wait :: "unit \<Rightarrow> hint list \<times> unit" where
  "yield_wait_wait s = ([Yield], s)"

definition yield_wait_reset :: "unit \<Rightarrow> unit" where
  "yield_wait_reset s = s"

definition empty_spin_wait_wait :: "unit \<Rightarrow> hint list \<times> unit" where
  "empty_spin_wait_wait s = ([], s)"

definition empty_spin_wait_reset :: "unit \<Rightarrow> unit" where
  "empty_spin_wait_reset s = s"

record adaptive_spin_wait =
  pause_count :: size_t

definition new_adaptive_spin_wait :: adaptive_spin_wait where
  "new_adaptive_spin_wait = \<lparr>pause_count = 0\<rparr>"

definition adaptive_wait :: "size_t \<Rightarrow> adaptive_spin_wait \<Rightarrow> hint list \<times> adaptive_spin_wait" where
  "adaptive_wait PauseLimit s =
     (if pause_count s < PauseLimit
      then ([Pause], s\<lparr>pause_count := pause_count s + 1\<rparr>)
      else ([Yield], s))"

definition adaptive_reset :: "adaptive_spin_wait \<Rightarrow> adaptive_spin_wait" where
  "adaptive_reset s = s\<lparr>pause_count := 0\<rparr>"

definition is_yielding :: "size_t \<Rightarrow> adaptive_spin_wait \<Rightarrow> bool" where
  "is_yielding PauseLimit s \<longleftrightarrow> pause_count s = PauseLimit"

section \<open>The client loop\<close>

text \<open>
  The loops that use a policy: each attempt either succeeds, and the policy is reset, or
  fails, and the policy waits once.
\<close>

fun poll_loop :: "('s \<Rightarrow> hint list \<times> 's) \<Rightarrow> ('s \<Rightarrow> 's) \<Rightarrow> bool list \<Rightarrow> 's \<Rightarrow> hint list \<times> 's" where
  "poll_loop wait reset [] s = ([], s)"
| "poll_loop wait reset (success # attempts) s =
     (if success then poll_loop wait reset attempts (reset s)
      else let (hs, s1) = wait s; (hs', s2) = poll_loop wait reset attempts s1 in (hs @ hs', s2))"

text \<open>The hints of the same attempts by the contract alone, \<open>k\<close> failures after a reset.\<close>

fun hints_of :: "(nat \<Rightarrow> hint list) \<Rightarrow> nat \<Rightarrow> bool list \<Rightarrow> hint list" where
  "hints_of hint k [] = []"
| "hints_of hint k (success # attempts) =
     (if success then hints_of hint 0 attempts else hint k @ hints_of hint (Suc k) attempts)"

fun failures :: "nat \<Rightarrow> bool list \<Rightarrow> nat" where
  "failures k [] = k"
| "failures k (success # attempts) = failures (if success then 0 else Suc k) attempts"

lemma hints_of_append:
  "hints_of hint k (xs @ ys) = hints_of hint k xs @ hints_of hint (failures k xs) ys"
  by (induction xs arbitrary: k) auto

lemma failures_append: "failures k (xs @ ys) = failures (failures k xs) ys"
  by (induction xs arbitrary: k) auto

lemma failures_failures: "failures k (replicate n False) = k + n"
  by (induction n arbitrary: k) auto

lemma hints_of_failures: "hints_of hint k (replicate n False) = concat (map hint [k..<k + n])"
proof (induction n arbitrary: k)
  case (Suc n)
  have "[k..<k + Suc n] = k # [Suc k..<Suc k + n]" by (simp add: upt_conv_Cons del: upt_Suc)
  then show ?case using Suc.IH [of "Suc k"] by (simp del: upt_Suc)
qed simp

section \<open>The contract\<close>

text \<open>
  \<open>after s k\<close> says that a policy's state is one \<open>k\<close> unsuccessful polls after a reset can
  lead to; \<open>hint k\<close> is what the next one does.
\<close>

locale wait_policy =
  fixes wait :: "'s \<Rightarrow> hint list \<times> 's" and reset :: "'s \<Rightarrow> 's"
    and after :: "'s \<Rightarrow> nat \<Rightarrow> bool" and hint :: "nat \<Rightarrow> hint list"
  assumes wait_hint: "after s k \<Longrightarrow> fst (wait s) = hint k"
    and wait_after: "after s k \<Longrightarrow> after (snd (wait s)) (Suc k)"
    and reset_after: "after s k \<Longrightarrow> after (reset s) 0"
begin

lemma poll_loop_hints:
  "after s k \<Longrightarrow> fst (poll_loop wait reset attempts s) = hints_of hint k attempts \<and>
     after (snd (poll_loop wait reset attempts s)) (failures k attempts)"
proof (induction attempts arbitrary: s k)
  case (Cons success attempts)
  show ?case
  proof (cases success)
    case True
    then show ?thesis using Cons.IH [OF reset_after [OF Cons.prems]] by simp
  next
    case False
    then show ?thesis
      using Cons.IH [OF wait_after [OF Cons.prems]] wait_hint [OF Cons.prems]
      by (auto split: prod.splits)
  qed
qed simp

text \<open>What came before the last success does not show in the idle period after it.\<close>

lemma idle_period:
  assumes "after s k"
  shows "fst (poll_loop wait reset (attempts @ True # replicate n False) s) =
      hints_of hint k attempts @ concat (map hint [0..<n])"
    and "after (snd (poll_loop wait reset (attempts @ True # replicate n False) s)) n"
  using poll_loop_hints [OF assms, of "attempts @ True # replicate n False"]
  by (simp_all add: hints_of_append failures_append hints_of_failures failures_failures)

end

definition adaptive_after :: "size_t \<Rightarrow> adaptive_spin_wait \<Rightarrow> nat \<Rightarrow> bool" where
  "adaptive_after limit s k \<longleftrightarrow> unat (pause_count s) = min k (unat limit)"

definition adaptive_hint :: "size_t \<Rightarrow> nat \<Rightarrow> hint list" where
  "adaptive_hint limit k = (if k < unat limit then [Pause] else [Yield])"

interpretation busy: wait_policy busy_spin_wait_wait busy_spin_wait_reset "\<lambda>s k. True" "\<lambda>k. [Pause]"
  by unfold_locales (auto simp: busy_spin_wait_wait_def)

interpretation yield: wait_policy yield_wait_wait yield_wait_reset "\<lambda>s k. True" "\<lambda>k. [Yield]"
  by unfold_locales (auto simp: yield_wait_wait_def)

interpretation empty: wait_policy empty_spin_wait_wait empty_spin_wait_reset "\<lambda>s k. True" "\<lambda>k. []"
  by unfold_locales (auto simp: empty_spin_wait_wait_def)

interpretation adaptive: wait_policy "adaptive_wait limit" adaptive_reset "adaptive_after limit" "adaptive_hint limit"
  for limit
proof unfold_locales
  fix s k assume after: "adaptive_after limit s k"
  show "fst (adaptive_wait limit s) = adaptive_hint limit k"
    using after by (auto simp: adaptive_wait_def adaptive_hint_def adaptive_after_def word_nat)
  show "adaptive_after limit (snd (adaptive_wait limit s)) (Suc k)"
  proof (cases "pause_count s < limit")
    case True
    then have "unat (pause_count s) + unat (1 :: u64) < 2 ^ 64"
      using unat_lt_2p64 [of limit] unfolding u64_less_unat unsigned_1 by linarith
    then have "unat (pause_count s + 1) = unat (pause_count s) + 1"
      using unat_add_no_wrap by fastforce
    then show ?thesis using True after by (auto simp: adaptive_wait_def adaptive_after_def word_nat)
  next
    case False
    then show ?thesis using after by (auto simp: adaptive_wait_def adaptive_after_def word_nat)
  qed
  show "adaptive_after limit (adaptive_reset s) 0" by (simp add: adaptive_reset_def adaptive_after_def)
qed

section \<open>Properties\<close>

text \<open>C29: Whatever polls came before, the adaptive policy answers an idle period after a
  success with exactly \<open>PauseLimit\<close> PAUSE instructions, one per unsuccessful poll, and a
  yield for each further one; its counter never passes the limit and it reports that it
  yields exactly from the limit on.\<close>

theorem adaptive_idle_period:
  assumes "poll_loop (adaptive_wait limit) adaptive_reset (attempts @ True # replicate n False)
    new_adaptive_spin_wait = (hs, s)"
  shows "(\<exists>earlier. hs = earlier @ replicate (min n (unat limit)) Pause @ replicate (n - unat limit) Yield) \<and>
    pause_count s \<le> limit \<and> (is_yielding limit s \<longleftrightarrow> unat limit \<le> n)"
proof -
  have new: "adaptive_after limit new_adaptive_spin_wait 0"
    by (simp add: adaptive_after_def new_adaptive_spin_wait_def)
  have idle: "concat (map (adaptive_hint limit) [0..<n]) =
      replicate (min n (unat limit)) Pause @ replicate (n - unat limit) Yield"
    by (induction n) (auto simp: adaptive_hint_def min_def Suc_diff_le replicate_append_same
        simp flip: replicate_Suc)
  note loop = adaptive.idle_period [OF new, of attempts n, unfolded assms, unfolded fst_conv snd_conv]
  have count: "unat (pause_count s) = min n (unat limit)"
    using loop(2) by (simp add: adaptive_after_def)
  have "is_yielding limit s \<longleftrightarrow> unat limit \<le> n"
    using count by (auto simp: is_yielding_def word_unat_eq_iff)
  then show ?thesis using loop(1) count by (simp add: idle word_nat)
qed

theorem adaptive_idle_period_witness:
  "\<exists>earlier. [Pause, Pause, Pause, Yield] = earlier @ replicate (min 3 (unat 2)) Pause @ replicate (3 - unat (2 :: size_t)) Yield"
proof -
  have "poll_loop (adaptive_wait 2) adaptive_reset ([False] @ True # replicate 3 False) new_adaptive_spin_wait =
      ([Pause, Pause, Pause, Yield], \<lparr>pause_count = 2\<rparr>)"
    by code_simp
  from adaptive_idle_period [OF this] show ?thesis by simp
qed

text \<open>A busy-spinning client executes one PAUSE for each unsuccessful poll, a yielding one
  one yield, an empty one nothing, whatever the order of successes and failures.\<close>

theorem stateless_policies:
  "fst (poll_loop busy_spin_wait_wait busy_spin_wait_reset attempts ()) =
     replicate (count_list attempts False) Pause \<and>
   fst (poll_loop yield_wait_wait yield_wait_reset attempts ()) =
     replicate (count_list attempts False) Yield \<and>
   fst (poll_loop empty_spin_wait_wait empty_spin_wait_reset attempts ()) = []"
proof -
  have const: "hints_of (\<lambda>k. [h]) k attempts = replicate (count_list attempts False) h" for h k
    by (induction attempts arbitrary: k) auto
  have none: "hints_of (\<lambda>k. []) k attempts = []" for k by (induction attempts arbitrary: k) auto
  show ?thesis
    using busy.poll_loop_hints [OF TrueI, of attempts "()" 0] yield.poll_loop_hints [OF TrueI, of attempts "()" 0]
      empty.poll_loop_hints [OF TrueI, of attempts "()" 0]
    by (simp add: const none)
qed

end
