(* ===== verification/Sockets.thy ===== *)
theory Sockets
  imports Spin_Wait
begin

text \<open>
  The primitives of \<open>low_latency_sockets.hpp\<close>. The kernel is a parameter: a record of the
  system calls, each a function of the state of the world and of its arguments that returns
  \<open>Inl\<close> errno or \<open>Inr\<close> what the call delivers, and the next state of the world; the clock and
  a caller's stop predicate are functions of the same state. Retry loops that only the
  kernel can end are partial functions: \<open>None\<close> is not returning.
\<close>

unbundle bit_operations_syntax

section \<open>The system interface\<close>

text \<open>Linux's values on x86-64; \<open>EWOULDBLOCK\<close> is \<open>EAGAIN\<close>.\<close>

definition EINTR :: int where "EINTR = 4"
definition EAGAIN :: int where "EAGAIN = 11"
definition EWOULDBLOCK :: int where "EWOULDBLOCK = 11"
definition EINVAL :: int where "EINVAL = 22"
definition EPIPE :: int where "EPIPE = 32"
definition EPROTO :: int where "EPROTO = 71"
definition EMSGSIZE :: int where "EMSGSIZE = 90"

definition MSG_TRUNC :: u32 where "MSG_TRUNC = 0x20"
definition MSG_DONTWAIT :: u32 where "MSG_DONTWAIT = 0x40"
definition MSG_NOSIGNAL :: u32 where "MSG_NOSIGNAL = 0x4000"

definition IPPROTO_TCP :: int where "IPPROTO_TCP = 6"
definition TCP_NODELAY :: int where "TCP_NODELAY = 1"
definition TCP_QUICKACK :: int where "TCP_QUICKACK = 12"
definition SOL_SOCKET :: int where "SOL_SOCKET = 1"
definition SO_BUSY_POLL :: int where "SO_BUSY_POLL = 46"

definition sizeof_int :: nat where "sizeof_int = 4"
definition int_max :: int where "int_max = 2 ^ 31 - 1"

text \<open>An error code of the generic category; 0 is no error.\<close>

type_synonym error_code = int

record sockaddr_in =
  sin_family :: u16
  sin_port :: u16
  sin_addr :: u32

definition no_address :: sockaddr_in where
  "no_address = \<lparr>sin_family = 0, sin_port = 0, sin_addr = 0\<rparr>"

definition sizeof_sockaddr_in :: nat where "sizeof_sockaddr_in = 16"

text \<open>What \<open>recvmsg\<close> delivers: its return value, the bytes it wrote, and the message header.\<close>

record message =
  msg_wire :: nat
  msg_bytes :: "u8 list"
  msg_peer :: sockaddr_in
  msg_namelen :: nat
  msg_out_flags :: u32

record 'k socket_api =
  sys_getsockopt :: "'k \<Rightarrow> int \<Rightarrow> int \<Rightarrow> int \<Rightarrow> (int + int \<times> nat) \<times> 'k"
  sys_setsockopt :: "'k \<Rightarrow> int \<Rightarrow> int \<Rightarrow> int \<Rightarrow> int \<Rightarrow> (int + unit) \<times> 'k"
  sys_send :: "'k \<Rightarrow> int \<Rightarrow> u8 list \<Rightarrow> u32 \<Rightarrow> (int + nat) \<times> 'k"
  sys_sendto :: "'k \<Rightarrow> int \<Rightarrow> u8 list \<Rightarrow> u32 \<Rightarrow> sockaddr_in \<Rightarrow> (int + nat) \<times> 'k"
  sys_recv :: "'k \<Rightarrow> int \<Rightarrow> nat \<Rightarrow> u32 \<Rightarrow> (int + u8 list) \<times> 'k"
  sys_recvmsg :: "'k \<Rightarrow> int \<Rightarrow> nat \<Rightarrow> u32 \<Rightarrow> (int + message) \<times> 'k"

section \<open>Results\<close>

datatype stream_receive_state = Complete | Stopped | Peer_closed | Error

record stream_receive_result =
  sr_state :: stream_receive_state
  bytes_received :: nat
  sr_error :: error_code

definition receive_complete :: "stream_receive_result \<Rightarrow> bool" where
  "receive_complete r \<longleftrightarrow> sr_state r = Complete"

record send_result =
  bytes_sent :: nat
  send_error :: error_code

definition send_complete :: "send_result \<Rightarrow> nat \<Rightarrow> bool" where
  "send_complete r expected_bytes \<longleftrightarrow> send_error r = 0 \<and> bytes_sent r = expected_bytes"

datatype datagram_receive_state = Received | Not_ready | Dg_stopped | Dg_error

record datagram_receive_result =
  dg_state :: datagram_receive_state
  wire_bytes :: nat
  peer :: sockaddr_in
  peer_length :: nat
  message_flags :: u32
  dg_error :: error_code

definition new_datagram_result :: datagram_receive_result where
  "new_datagram_result = \<lparr>dg_state = Received, wire_bytes = 0, peer = no_address, peer_length = 0,
     message_flags = 0, dg_error = 0\<rparr>"

definition datagram_received :: "datagram_receive_result \<Rightarrow> bool" where
  "datagram_received r \<longleftrightarrow> dg_state r = Received"

definition truncated :: "datagram_receive_result \<Rightarrow> nat \<Rightarrow> bool" where
  "truncated r buffer_bytes \<longleftrightarrow> datagram_received r \<and>
     (message_flags r AND MSG_TRUNC \<noteq> 0 \<or> wire_bytes r > buffer_bytes)"

text \<open>The value or the error; \<open>value_or\<close> as the class has it.\<close>

type_synonym 'v socket_option_result = "error_code + 'v"

definition value_or :: "'v socket_option_result \<Rightarrow> 'v \<Rightarrow> 'v" where
  "value_or r fallback = (case r of Inr v \<Rightarrow> v | Inl _ \<Rightarrow> fallback)"

section \<open>Socket options\<close>

definition integer_socket_option :: "'k socket_api \<Rightarrow> int \<Rightarrow> int \<Rightarrow> int \<Rightarrow> 'k \<Rightarrow> int socket_option_result \<times> 'k" where
  "integer_socket_option api descriptor level option_name k =
     (case sys_getsockopt api k descriptor level option_name of
        (Inl errno, k') \<Rightarrow> (Inl errno, k')
      | (Inr (v, len), k') \<Rightarrow> (if len \<noteq> sizeof_int then Inl EPROTO else Inr v, k'))"

definition set_integer_socket_option :: "'k socket_api \<Rightarrow> int \<Rightarrow> int \<Rightarrow> int \<Rightarrow> int \<Rightarrow> 'k \<Rightarrow>
    unit socket_option_result \<times> 'k" where
  "set_integer_socket_option api descriptor level option_name v k =
     (case sys_setsockopt api k descriptor level option_name v of
        (Inl errno, k') \<Rightarrow> (Inl errno, k')
      | (Inr _, k') \<Rightarrow> (Inr (), k'))"

definition tcp_no_delay :: "'k socket_api \<Rightarrow> int \<Rightarrow> 'k \<Rightarrow> bool socket_option_result \<times> 'k" where
  "tcp_no_delay api descriptor k =
     (case integer_socket_option api descriptor IPPROTO_TCP TCP_NODELAY k of
        (Inl e, k') \<Rightarrow> (Inl e, k')
      | (Inr observed, k') \<Rightarrow> (Inr (observed \<noteq> 0), k'))"

definition configure_tcp_no_delay :: "'k socket_api \<Rightarrow> int \<Rightarrow> bool \<Rightarrow> 'k \<Rightarrow> bool socket_option_result \<times> 'k" where
  "configure_tcp_no_delay api descriptor enabled k =
     (case set_integer_socket_option api descriptor IPPROTO_TCP TCP_NODELAY (if enabled then 1 else 0) k of
        (Inl e, k1) \<Rightarrow> (Inl e, k1)
      | (Inr _, k1) \<Rightarrow>
          (case tcp_no_delay api descriptor k1 of
             (Inl e, k2) \<Rightarrow> (Inl e, k2)
           | (Inr observed, k2) \<Rightarrow> (if observed \<noteq> enabled then Inl EPROTO else Inr observed, k2)))"

definition rearm_tcp_quick_ack :: "'k socket_api \<Rightarrow> int \<Rightarrow> 'k \<Rightarrow> unit socket_option_result \<times> 'k" where
  "rearm_tcp_quick_ack api descriptor k = set_integer_socket_option api descriptor IPPROTO_TCP TCP_QUICKACK 1 k"

text \<open>Durations in microseconds are integers (\<open>std::chrono::microseconds\<close> counts in 64 bits).\<close>

definition busy_poll_budget :: "'k socket_api \<Rightarrow> int \<Rightarrow> 'k \<Rightarrow> int socket_option_result \<times> 'k" where
  "busy_poll_budget api descriptor k =
     (case integer_socket_option api descriptor SOL_SOCKET SO_BUSY_POLL k of
        (Inl e, k') \<Rightarrow> (Inl e, k')
      | (Inr observed, k') \<Rightarrow> (if observed < 0 then Inl EPROTO else Inr observed, k'))"

definition configure_busy_poll_budget :: "'k socket_api \<Rightarrow> int \<Rightarrow> int \<Rightarrow> 'k \<Rightarrow> int socket_option_result \<times> 'k" where
  "configure_busy_poll_budget api descriptor requested k =
     (if requested < 0 \<or> requested > int_max then (Inl EINVAL, k)
      else case set_integer_socket_option api descriptor SOL_SOCKET SO_BUSY_POLL requested k of
        (Inl e, k1) \<Rightarrow> (Inl e, k1)
      | (Inr _, k1) \<Rightarrow>
          (case busy_poll_budget api descriptor k1 of
             (Inl e, k2) \<Rightarrow> (Inl e, k2)
           | (Inr observed, k2) \<Rightarrow> (if observed \<noteq> requested then Inl EPROTO else Inr observed, k2)))"

section \<open>Streams\<close>

text \<open>The loop of \<open>send_all\<close>, \<open>sent\<close> bytes into the span.\<close>

partial_function (option) send_all_loop :: "'k socket_api \<Rightarrow> int \<Rightarrow> u8 list \<Rightarrow> nat \<Rightarrow> 'k \<Rightarrow>
    (send_result \<times> 'k) option" where
  [code]: "send_all_loop api descriptor bytes sent k =
     (if sent < length bytes
      then case sys_send api k descriptor (drop sent bytes) MSG_NOSIGNAL of
          (Inr n, k') \<Rightarrow>
            if n > 0 then send_all_loop api descriptor bytes (sent + n) k'
            else Some (\<lparr>bytes_sent = sent, send_error = EPIPE\<rparr>, k')
        | (Inl errno, k') \<Rightarrow>
            if errno = EINTR then send_all_loop api descriptor bytes sent k'
            else Some (\<lparr>bytes_sent = sent, send_error = errno\<rparr>, k')
      else Some (\<lparr>bytes_sent = sent, send_error = 0\<rparr>, k))"

definition send_all :: "'k socket_api \<Rightarrow> int \<Rightarrow> u8 list \<Rightarrow> 'k \<Rightarrow> (send_result \<times> 'k) option" where
  "send_all api descriptor bytes k = send_all_loop api descriptor bytes 0 k"

text \<open>A receive writes into the caller's buffer at an offset.\<close>

definition write_at :: "'a list \<Rightarrow> nat \<Rightarrow> 'a list \<Rightarrow> 'a list" where
  "write_at buffer offset bytes = take offset buffer @ bytes @ drop (offset + length bytes) buffer"

definition stream_result :: "stream_receive_state \<Rightarrow> nat \<Rightarrow> error_code \<Rightarrow> stream_receive_result" where
  "stream_result s n e = \<lparr>sr_state = s, bytes_received = n, sr_error = e\<rparr>"

partial_function (option) receive_exact_blocking_loop :: "'k socket_api \<Rightarrow> int \<Rightarrow> nat \<Rightarrow> u8 list \<Rightarrow> 'k \<Rightarrow>
    (stream_receive_result \<times> u8 list \<times> 'k) option" where
  [code]: "receive_exact_blocking_loop api descriptor n buffer k =
     (if n < length buffer
      then case sys_recv api k descriptor (length buffer - n) 0 of
          (Inr bytes, k') \<Rightarrow>
            if bytes \<noteq> []
            then receive_exact_blocking_loop api descriptor (n + length bytes) (write_at buffer n bytes) k'
            else Some (stream_result Peer_closed n 0, buffer, k')
        | (Inl errno, k') \<Rightarrow>
            if errno = EINTR then receive_exact_blocking_loop api descriptor n buffer k'
            else Some (stream_result Error n errno, buffer, k')
      else Some (stream_result Complete n 0, buffer, k))"

definition receive_exact_blocking :: "'k socket_api \<Rightarrow> int \<Rightarrow> u8 list \<Rightarrow> 'k \<Rightarrow>
    (stream_receive_result \<times> u8 list \<times> 'k) option" where
  "receive_exact_blocking api descriptor buffer k = receive_exact_blocking_loop api descriptor 0 buffer k"

text \<open>
  The busy-spinning receive also returns the hints its wait policy issued. The stop predicate
  may have effects of its own.
\<close>

partial_function (option) receive_exact_busy_spin_loop :: "'k socket_api \<Rightarrow> int \<Rightarrow> ('k \<Rightarrow> bool \<times> 'k) \<Rightarrow>
    nat \<Rightarrow> u8 list \<Rightarrow> hint list \<Rightarrow> 'k \<Rightarrow> (stream_receive_result \<times> u8 list \<times> hint list \<times> 'k) option" where
  [code]: "receive_exact_busy_spin_loop api descriptor stop_requested n buffer hs k =
     (if n < length buffer
      then case sys_recv api k descriptor (length buffer - n) MSG_DONTWAIT of
          (Inr bytes, k1) \<Rightarrow>
            if bytes \<noteq> []
            then receive_exact_busy_spin_loop api descriptor stop_requested (n + length bytes)
                   (write_at buffer n bytes) hs k1
            else Some (stream_result Peer_closed n 0, buffer, hs, k1)
        | (Inl errno, k1) \<Rightarrow>
            if errno = EINTR
            then case stop_requested k1 of (stop, k2) \<Rightarrow>
              if stop then Some (stream_result Stopped n 0, buffer, hs, k2)
              else receive_exact_busy_spin_loop api descriptor stop_requested n buffer hs k2
            else if errno = EAGAIN \<or> errno = EWOULDBLOCK
            then case stop_requested k1 of (stop, k2) \<Rightarrow>
              if stop then Some (stream_result Stopped n 0, buffer, hs, k2)
              else receive_exact_busy_spin_loop api descriptor stop_requested n buffer
                     (hs @ fst (busy_spin_wait_wait ())) k2
            else Some (stream_result Error n errno, buffer, hs, k1)
      else Some (stream_result Complete n 0, buffer, hs, k))"

definition receive_exact_busy_spin :: "'k socket_api \<Rightarrow> int \<Rightarrow> u8 list \<Rightarrow> ('k \<Rightarrow> bool \<times> 'k) \<Rightarrow> 'k \<Rightarrow>
    (stream_receive_result \<times> u8 list \<times> hint list \<times> 'k) option" where
  "receive_exact_busy_spin api descriptor buffer stop_requested k =
     receive_exact_busy_spin_loop api descriptor stop_requested 0 buffer [] k"

text \<open>The deadline predicate; \<open>now\<close> reads the clock.\<close>

definition deadline_passed :: "('k \<Rightarrow> int \<times> 'k) \<Rightarrow> int \<Rightarrow> 'k \<Rightarrow> bool \<times> 'k" where
  "deadline_passed now deadline k = (case now k of (t, k') \<Rightarrow> (t \<ge> deadline, k'))"

definition receive_exact_busy_spin_until :: "'k socket_api \<Rightarrow> int \<Rightarrow> u8 list \<Rightarrow> ('k \<Rightarrow> int \<times> 'k) \<Rightarrow> int \<Rightarrow> 'k \<Rightarrow>
    (stream_receive_result \<times> u8 list \<times> hint list \<times> 'k) option" where
  "receive_exact_busy_spin_until api descriptor buffer now deadline k =
     receive_exact_busy_spin api descriptor buffer (deadline_passed now deadline) k"

section \<open>Datagrams\<close>

text \<open>The \<open>do ... while\<close> loop of the two datagram sends, over the call it repeats.\<close>

partial_function (option) retry_interrupted_send :: "('k \<Rightarrow> (int + nat) \<times> 'k) \<Rightarrow> 'k \<Rightarrow> ((int + nat) \<times> 'k) option" where
  [code]: "retry_interrupted_send call k =
     (case call k of
        (Inl errno, k') \<Rightarrow> if errno = EINTR then retry_interrupted_send call k' else Some (Inl errno, k')
      | (Inr n, k') \<Rightarrow> Some (Inr n, k'))"

definition datagram_send_result :: "nat \<Rightarrow> int + nat \<Rightarrow> send_result" where
  "datagram_send_result whole outcome =
     (case outcome of
        Inl errno \<Rightarrow> \<lparr>bytes_sent = 0, send_error = errno\<rparr>
      | Inr sent \<Rightarrow> \<lparr>bytes_sent = sent, send_error = (if sent \<noteq> whole then EMSGSIZE else 0)\<rparr>)"

definition send_connected_datagram :: "'k socket_api \<Rightarrow> int \<Rightarrow> u8 list \<Rightarrow> 'k \<Rightarrow> (send_result \<times> 'k) option" where
  "send_connected_datagram api descriptor bytes k =
     map_option (\<lambda>(outcome, k'). (datagram_send_result (length bytes) outcome, k'))
       (retry_interrupted_send (\<lambda>k. sys_send api k descriptor bytes MSG_NOSIGNAL) k)"

definition send_datagram_to :: "'k socket_api \<Rightarrow> int \<Rightarrow> u8 list \<Rightarrow> sockaddr_in \<Rightarrow> 'k \<Rightarrow> (send_result \<times> 'k) option" where
  "send_datagram_to api descriptor bytes destination k =
     map_option (\<lambda>(outcome, k'). (datagram_send_result (length bytes) outcome, k'))
       (retry_interrupted_send (\<lambda>k. sys_sendto api k descriptor bytes MSG_NOSIGNAL destination) k)"

partial_function (option) receive_datagram_once :: "'k socket_api \<Rightarrow> int \<Rightarrow> u8 list \<Rightarrow> u32 \<Rightarrow> bool \<Rightarrow> 'k \<Rightarrow>
    (datagram_receive_result \<times> u8 list \<times> 'k) option" where
  [code]: "receive_datagram_once api descriptor buffer flags retry_interrupted k =
     (case sys_recvmsg api k descriptor (length buffer) (flags OR MSG_TRUNC) of
        (Inr m, k') \<Rightarrow> Some (new_datagram_result\<lparr>dg_state := Received, wire_bytes := msg_wire m,
            peer := msg_peer m, peer_length := msg_namelen m, message_flags := msg_out_flags m\<rparr>,
          write_at buffer 0 (msg_bytes m), k')
      | (Inl errno, k') \<Rightarrow>
          if errno = EINTR \<and> retry_interrupted
          then receive_datagram_once api descriptor buffer flags retry_interrupted k'
          else if flags AND MSG_DONTWAIT \<noteq> 0 \<and> (errno = EAGAIN \<or> errno = EWOULDBLOCK)
          then Some (new_datagram_result\<lparr>dg_state := Not_ready\<rparr>, buffer, k')
          else Some (new_datagram_result\<lparr>dg_state := Dg_error, dg_error := errno\<rparr>, buffer, k'))"

definition receive_datagram_blocking :: "'k socket_api \<Rightarrow> int \<Rightarrow> u8 list \<Rightarrow> 'k \<Rightarrow>
    (datagram_receive_result \<times> u8 list \<times> 'k) option" where
  "receive_datagram_blocking api descriptor buffer k = receive_datagram_once api descriptor buffer 0 True k"

definition try_receive_datagram :: "'k socket_api \<Rightarrow> int \<Rightarrow> u8 list \<Rightarrow> 'k \<Rightarrow>
    (datagram_receive_result \<times> u8 list \<times> 'k) option" where
  "try_receive_datagram api descriptor buffer k =
     receive_datagram_once api descriptor buffer MSG_DONTWAIT True k"

partial_function (option) receive_datagram_busy_spin_loop :: "'k socket_api \<Rightarrow> int \<Rightarrow> u8 list \<Rightarrow>
    ('k \<Rightarrow> bool \<times> 'k) \<Rightarrow> hint list \<Rightarrow> 'k \<Rightarrow> (datagram_receive_result \<times> u8 list \<times> hint list \<times> 'k) option" where
  [code]: "receive_datagram_busy_spin_loop api descriptor buffer stop_requested hs k =
     (case receive_datagram_once api descriptor buffer MSG_DONTWAIT False k of
        None \<Rightarrow> None
      | Some (r, buffer', k1) \<Rightarrow>
          if dg_state r \<noteq> Not_ready
          then if dg_state r = Dg_error \<and> dg_error r = EINTR
               then case stop_requested k1 of (stop, k2) \<Rightarrow>
                 if stop then Some (r\<lparr>dg_state := Dg_stopped, dg_error := 0\<rparr>, buffer', hs, k2)
                 else receive_datagram_busy_spin_loop api descriptor buffer' stop_requested hs k2
               else Some (r, buffer', hs, k1)
          else case stop_requested k1 of (stop, k2) \<Rightarrow>
            if stop then Some (r\<lparr>dg_state := Dg_stopped\<rparr>, buffer', hs, k2)
            else receive_datagram_busy_spin_loop api descriptor buffer' stop_requested
                   (hs @ fst (busy_spin_wait_wait ())) k2)"

definition receive_datagram_busy_spin :: "'k socket_api \<Rightarrow> int \<Rightarrow> u8 list \<Rightarrow> ('k \<Rightarrow> bool \<times> 'k) \<Rightarrow> 'k \<Rightarrow>
    (datagram_receive_result \<times> u8 list \<times> hint list \<times> 'k) option" where
  "receive_datagram_busy_spin api descriptor buffer stop_requested k =
     receive_datagram_busy_spin_loop api descriptor buffer stop_requested [] k"

definition receive_datagram_busy_spin_until :: "'k socket_api \<Rightarrow> int \<Rightarrow> u8 list \<Rightarrow> ('k \<Rightarrow> int \<times> 'k) \<Rightarrow> int \<Rightarrow> 'k \<Rightarrow>
    (datagram_receive_result \<times> u8 list \<times> hint list \<times> 'k) option" where
  "receive_datagram_busy_spin_until api descriptor buffer now deadline k =
     receive_datagram_busy_spin api descriptor buffer (deadline_passed now deadline) k"

end
