(* ===== verification/Socket_Properties.thy ===== *)
theory Socket_Properties
  imports Sockets
begin

text \<open>
  What the socket primitives promise, under named hypotheses that state what POSIX promises
  of the system calls. \<open>pending\<close> is what a stream's peer has still to deliver, \<open>delivered\<close>
  what has been accepted for it, \<open>queue\<close> the datagrams that will arrive; \<open>patience\<close> bounds the
  interruptions in a row, \<open>time\<close> is the clock's reading.
\<close>

unbundle bit_operations_syntax

section \<open>What is assumed of the kernel\<close>

definition sends_stream :: "'k socket_api \<Rightarrow> int \<Rightarrow> ('k \<Rightarrow> u8 list) \<Rightarrow> bool" where
  "sends_stream api fd delivered \<longleftrightarrow>
     (\<forall>k bytes n k'. sys_send api k fd bytes MSG_NOSIGNAL = (Inr n, k') \<longrightarrow>
        n \<le> length bytes \<and> delivered k' = delivered k @ take n bytes) \<and>
     (\<forall>k bytes e k'. sys_send api k fd bytes MSG_NOSIGNAL = (Inl e, k') \<longrightarrow>
        0 < e \<and> delivered k' = delivered k)"

definition receives_stream :: "'k socket_api \<Rightarrow> int \<Rightarrow> u32 \<Rightarrow> ('k \<Rightarrow> u8 list) \<Rightarrow> bool" where
  "receives_stream api fd flags pending \<longleftrightarrow>
     (\<forall>k n bytes k'. 0 < n \<longrightarrow> sys_recv api k fd n flags = (Inr bytes, k') \<longrightarrow>
        length bytes \<le> n \<and> pending k = bytes @ pending k' \<and> (bytes = [] \<longrightarrow> pending k = [])) \<and>
     (\<forall>k n e k'. sys_recv api k fd n flags = (Inl e, k') \<longrightarrow> 0 < e \<and> pending k' = pending k)"

text \<open>Interruptions do not go on for ever.\<close>

definition interrupts_end :: "('k \<Rightarrow> (int + 'a) \<times> 'k) \<Rightarrow> ('k \<Rightarrow> nat) \<Rightarrow> bool" where
  "interrupts_end call patience \<longleftrightarrow> (\<forall>k k'. call k = (Inl EINTR, k') \<longrightarrow> patience k' < patience k)"

text \<open>A stop predicate that answers no only finitely often while nothing arrives.\<close>

definition stop_comes :: "'k socket_api \<Rightarrow> int \<Rightarrow> ('k \<Rightarrow> bool \<times> 'k) \<Rightarrow> ('k \<Rightarrow> u8 list) \<Rightarrow> ('k \<Rightarrow> nat) \<Rightarrow> bool" where
  "stop_comes api fd stop pending patience \<longleftrightarrow>
     (\<forall>k k'. stop k = (False, k') \<longrightarrow> patience k' < patience k) \<and>
     (\<forall>k b k'. stop k = (b, k') \<longrightarrow> pending k' = pending k) \<and>
     (\<forall>k n e k'. sys_recv api k fd n MSG_DONTWAIT = (Inl e, k') \<longrightarrow> patience k' \<le> patience k)"

text \<open>Reading the clock takes time and delivers nothing; no call turns it back.\<close>

definition clock_runs :: "('k \<Rightarrow> int \<times> 'k) \<Rightarrow> ('k \<Rightarrow> int) \<Rightarrow> ('k \<Rightarrow> 'a) \<Rightarrow> bool" where
  "clock_runs now time pending \<longleftrightarrow> (\<forall>k t k'. now k = (t, k') \<longrightarrow>
     time k \<le> t \<and> t < time k' \<and> pending k' = pending k)"

definition recv_keeps_time :: "'k socket_api \<Rightarrow> int \<Rightarrow> ('k \<Rightarrow> int) \<Rightarrow> bool" where
  "recv_keeps_time api fd time \<longleftrightarrow>
     (\<forall>k n r k'. sys_recv api k fd n MSG_DONTWAIT = (r, k') \<longrightarrow> time k \<le> time k') \<and>
     (\<forall>k n r k'. sys_recvmsg api k fd n (MSG_DONTWAIT OR MSG_TRUNC) = (r, k') \<longrightarrow> time k \<le> time k')"

definition receives_datagrams :: "'k socket_api \<Rightarrow> int \<Rightarrow> u32 \<Rightarrow> ('k \<Rightarrow> (u8 list \<times> sockaddr_in) list) \<Rightarrow> bool" where
  "receives_datagrams api fd flags queue \<longleftrightarrow>
     (\<forall>k n m k'. sys_recvmsg api k fd n flags = (Inr m, k') \<longrightarrow>
        (\<exists>payload. queue k = (payload, msg_peer m) # queue k' \<and> msg_wire m = length payload \<and>
           msg_bytes m = take n payload \<and> (msg_out_flags m AND MSG_TRUNC \<noteq> 0 \<longleftrightarrow> n < length payload))) \<and>
     (\<forall>k n e k'. sys_recvmsg api k fd n flags = (Inl e, k') \<longrightarrow> 0 < e \<and> queue k' = queue k)"

lemma sends_streamD:
  assumes "sends_stream api fd delivered" "sys_send api k fd bytes MSG_NOSIGNAL = (out, k')"
  shows "out = Inr n \<Longrightarrow> n \<le> length bytes \<and> delivered k' = delivered k @ take n bytes"
    and "out = Inl e \<Longrightarrow> 0 < e \<and> delivered k' = delivered k"
  using assms unfolding sends_stream_def by blast+

lemma receives_streamD:
  assumes "receives_stream api fd flags pending" "sys_recv api k fd n flags = (out, k')"
  shows "out = Inr bytes \<Longrightarrow> 0 < n \<Longrightarrow>
      length bytes \<le> n \<and> pending k = bytes @ pending k' \<and> (bytes = [] \<longrightarrow> pending k = [])"
    and "out = Inl e \<Longrightarrow> 0 < e \<and> pending k' = pending k"
  using assms unfolding receives_stream_def by blast+

lemma stop_comesD:
  assumes "stop_comes api fd stop pending patience"
  shows "stop k = (False, k') \<Longrightarrow> patience k' < patience k"
    and "stop k = (b, k') \<Longrightarrow> pending k' = pending k"
    and "sys_recv api k fd n MSG_DONTWAIT = (Inl e, k') \<Longrightarrow> patience k' \<le> patience k"
  using assms unfolding stop_comes_def by blast+

lemma receives_datagramsD:
  assumes "receives_datagrams api fd flags queue" "sys_recvmsg api k fd n flags = (out, k')"
  shows "out = Inr m \<Longrightarrow> \<exists>payload. queue k = (payload, msg_peer m) # queue k' \<and>
      msg_wire m = length payload \<and> msg_bytes m = take n payload \<and>
      (msg_out_flags m AND MSG_TRUNC \<noteq> 0 \<longleftrightarrow> n < length payload)"
    and "out = Inl e \<Longrightarrow> 0 < e \<and> queue k' = queue k"
  using assms unfolding receives_datagrams_def by blast+

section \<open>A scripted kernel\<close>

text \<open>
  The kernel the concrete instances use: a list of bytes and failures that arrive one per
  call, the bytes that have been sent, and a clock that ticks when it is read.
\<close>

record script =
  sc_items :: "(nat + u8) list"
  sc_sent :: "u8 list"
  sc_clock :: int

definition script_bytes :: "script \<Rightarrow> u8 list" where
  "script_bytes k = concat (map (\<lambda>x. case x of Inr b \<Rightarrow> [b] | Inl _ \<Rightarrow> []) (sc_items k))"

definition script_queue :: "script \<Rightarrow> (u8 list \<times> sockaddr_in) list" where
  "script_queue k = concat (map (\<lambda>x. case x of Inr b \<Rightarrow> [([b], no_address)] | Inl _ \<Rightarrow> []) (sc_items k))"

definition script_patience :: "script \<Rightarrow> nat" where
  "script_patience k = length (sc_items k)"

definition script_api :: "script socket_api" where
  "script_api = \<lparr>
     sys_getsockopt = (\<lambda>k fd level option. (Inr (1, 4), k)),
     sys_setsockopt = (\<lambda>k fd level option v. (Inr (), k)),
     sys_send = (\<lambda>k fd bytes flags. case sc_items k of
         Inl e # xs \<Rightarrow> (Inl (1 + int e), k\<lparr>sc_items := xs\<rparr>)
       | _ \<Rightarrow> (Inr (length (take 2 bytes)), k\<lparr>sc_sent := sc_sent k @ take 2 bytes\<rparr>)),
     sys_sendto = (\<lambda>k fd bytes flags to. (Inr (length bytes), k)),
     sys_recv = (\<lambda>k fd n flags. case sc_items k of
         [] \<Rightarrow> (Inr [], k)
       | Inl e # xs \<Rightarrow> (Inl (1 + int e), k\<lparr>sc_items := xs\<rparr>)
       | Inr b # xs \<Rightarrow> (Inr [b], k\<lparr>sc_items := xs\<rparr>)),
     sys_recvmsg = (\<lambda>k fd n flags. case sc_items k of
         [] \<Rightarrow> (Inl EAGAIN, k)
       | Inl e # xs \<Rightarrow> (Inl (1 + int e), k\<lparr>sc_items := xs\<rparr>)
       | Inr b # xs \<Rightarrow> (Inr \<lparr>msg_wire = 1, msg_bytes = take n [b], msg_peer = no_address, msg_namelen = 16,
           msg_out_flags = (if n < 1 then MSG_TRUNC else 0)\<rparr>, k\<lparr>sc_items := xs\<rparr>))\<rparr>"

definition script_now :: "script \<Rightarrow> int \<times> script" where
  "script_now k = (sc_clock k, k\<lparr>sc_clock := sc_clock k + 1\<rparr>)"

lemmas script_simps = script_api_def script_bytes_def script_queue_def script_patience_def script_now_def

lemma take_min_length: "take (min (length xs) n) xs = take n xs"
  by (simp add: min_def)

lemma script_sends: "sends_stream script_api fd sc_sent"
  by (auto simp: sends_stream_def script_simps take_min_length split: list.splits sum.splits)

lemma script_receives: "receives_stream script_api fd flags script_bytes"
  by (auto simp: receives_stream_def script_simps split: list.splits sum.splits)

lemma script_datagrams: "receives_datagrams script_api fd flags script_queue"
  by (auto simp: receives_datagrams_def script_simps EAGAIN_def MSG_TRUNC_def split: list.splits sum.splits)

lemma script_interrupts:
  "interrupts_end (\<lambda>k. sys_send script_api k fd bytes flags) script_patience"
  "interrupts_end (\<lambda>k. sys_recv script_api k fd n flags) script_patience"
  "interrupts_end (\<lambda>k. sys_recvmsg script_api k fd n flags) script_patience"
  by (auto simp: interrupts_end_def script_simps EAGAIN_def EINTR_def split: list.splits sum.splits)

lemma script_clock: "clock_runs script_now sc_clock script_bytes" "clock_runs script_now sc_clock script_queue"
  "recv_keeps_time script_api fd sc_clock"
  by (auto simp: clock_runs_def recv_keeps_time_def script_simps split: list.splits sum.splits)

section \<open>Sending a stream\<close>

text \<open>Induction for a retry loop: each turn makes progress, or keeps still and loses patience.\<close>

lemma progress_induct:
  assumes "\<And>x k. (\<And>y j. m y < (m x :: nat) \<Longrightarrow> P y j) \<Longrightarrow> (\<And>j. p j < (p k :: nat) \<Longrightarrow> P x j) \<Longrightarrow> P x k"
  shows "P x k"
proof -
  have "\<forall>k. P x k"
  proof (induction "m x" arbitrary: x rule: less_induct)
    case less
    note outer = less.hyps
    show ?case
    proof
      fix k show "P x k"
      proof (induction "p k" arbitrary: k rule: less_induct)
        case less
        show ?case by (rule assms) (use outer less.hyps in blast)+
      qed
    qed
  qed
  then show ?thesis ..
qed

lemma send_all_loop_result:
  assumes sends: "sends_stream api fd delivered"
    and ends: "\<And>rest. interrupts_end (\<lambda>k. sys_send api k fd rest MSG_NOSIGNAL) patience"
  shows "sent \<le> length bytes \<longrightarrow> (\<exists>r k'. send_all_loop api fd bytes sent k = Some (r, k') \<and> sent \<le> bytes_sent r \<and>
    bytes_sent r \<le> length bytes \<and>
    delivered k' = delivered k @ take (bytes_sent r - sent) (drop sent bytes) \<and>
    (send_error r = 0 \<longleftrightarrow> bytes_sent r = length bytes))"
proof (induction sent k rule: progress_induct [where m = "\<lambda>sent. length bytes - sent" and p = patience])
  case (1 sent k)
  show ?case
  proof (cases "sent < length bytes")
    case False
    then show ?thesis
      by (intro impI exI [of _ "\<lparr>bytes_sent = sent, send_error = 0\<rparr>"] exI [of _ k])
        (subst send_all_loop.simps, simp)
  next
    case True
    let ?rest = "drop sent bytes"
    obtain out k1 where call: "sys_send api k fd ?rest MSG_NOSIGNAL = (out, k1)" by fastforce
    show ?thesis
    proof (cases out)
      case (Inl e)
      have e: "0 < e" "delivered k1 = delivered k" using sends_streamD(2) [OF sends call Inl] by auto
      show ?thesis
      proof (cases "e = EINTR")
        case eintr: True
        then have "patience k1 < patience k" using ends [of ?rest] call by (simp add: interrupts_end_def Inl)
        then show ?thesis using 1(2) [of k1] True eintr e call
          by (simp add: send_all_loop.simps [of api fd bytes sent k] Inl)
      next
        case False
        then show ?thesis using True e call
          by (simp add: send_all_loop.simps [of api fd bytes sent k] Inl)
      qed
    next
      case (Inr n)
      have n: "n \<le> length ?rest" "delivered k1 = delivered k @ take n ?rest"
        using sends_streamD(1) [OF sends call Inr] by auto
      show ?thesis
      proof (cases "n = 0")
        case zero: True
        then show ?thesis using True n call
          by (simp add: send_all_loop.simps [of api fd bytes sent k] Inr EPIPE_def)
      next
        case False
        then have less: "length bytes - (sent + n) < length bytes - sent" "sent + n \<le> length bytes"
          using True n(1) by auto
        obtain r k' where rest: "send_all_loop api fd bytes (sent + n) k1 = Some (r, k')"
          "sent + n \<le> bytes_sent r" "bytes_sent r \<le> length bytes"
          "delivered k' = delivered k1 @ take (bytes_sent r - (sent + n)) (drop (sent + n) bytes)"
          "send_error r = 0 \<longleftrightarrow> bytes_sent r = length bytes"
          using 1(1) [OF less(1), of k1] less(2) by blast
        have "bytes_sent r - sent = n + (bytes_sent r - (sent + n))" using rest(2) by simp
        then have "take (bytes_sent r - sent) ?rest = take n ?rest @ take (bytes_sent r - (sent + n)) (drop (sent + n) bytes)"
          by (simp add: take_add drop_drop add.commute)
        then show ?thesis using True False call rest n(2)
          by (intro impI exI [of _ r] exI [of _ k'])
            (simp add: send_all_loop.simps [of api fd bytes sent k] Inr)
      qed
    qed
  qed
qed

text \<open>C8: \<open>send_all\<close> returns however the kernel splits and interrupts the transfer, has handed
  over exactly the first \<open>bytes_sent\<close> bytes of the span, in order and none twice, and
  reports completion exactly when it reports no error.\<close>

theorem send_all_delivers_prefix:
  assumes "sends_stream api fd delivered"
    and "\<And>rest. interrupts_end (\<lambda>k. sys_send api k fd rest MSG_NOSIGNAL) patience"
  shows "\<exists>r k'. send_all api fd bytes k = Some (r, k') \<and> bytes_sent r \<le> length bytes \<and>
    delivered k' = delivered k @ take (bytes_sent r) bytes \<and>
    (send_complete r (length bytes) \<longleftrightarrow> send_error r = 0) \<and>
    (send_complete r (length bytes) \<longleftrightarrow> bytes_sent r = length bytes)"
  using send_all_loop_result [OF assms, of 0 bytes k] by (auto simp: send_all_def send_complete_def)

theorem send_all_delivers_prefix_witness:
  "\<exists>r k'. send_all script_api 3 [1, 2, 3] \<lparr>sc_items = [Inl 3, Inl 3], sc_sent = [], sc_clock = 0\<rparr> = Some (r, k') \<and>
    sc_sent k' = take (bytes_sent r) [1, 2, 3] \<and>
    (send_complete r (length [1, 2, 3 :: u8]) \<longleftrightarrow> send_error r = 0)"
  using send_all_delivers_prefix [OF script_sends script_interrupts(1),
      of 3 "[1, 2, 3]" "\<lparr>sc_items = [Inl 3, Inl 3], sc_sent = [], sc_clock = 0\<rparr>"]
  by auto

section \<open>Receiving a stream\<close>

lemma write_at_nil [simp]: "write_at buffer n [] = buffer"
  by (simp add: write_at_def)

lemma length_write_at [simp]: "n + length bytes \<le> length buffer \<Longrightarrow> length (write_at buffer n bytes) = length buffer"
  by (simp add: write_at_def)

lemma write_at_append:
  assumes "n + length bs + length cs \<le> length buffer"
  shows "write_at (write_at buffer n bs) (n + length bs) cs = write_at buffer n (bs @ cs)"
proof -
  have "take (n + length bs) (write_at buffer n bs) = take n buffer @ bs"
    using assms by (cases bs) (simp_all add: write_at_def min_def)
  moreover have "drop (n + length bs + length cs) (write_at buffer n bs) = drop (n + length bs + length cs) buffer"
    using assms by (cases bs) (simp_all add: write_at_def min_def add.commute add.left_commute)
  ultimately show ?thesis unfolding write_at_def [of "write_at buffer n bs"]
    by (simp add: write_at_def [of buffer n "bs @ cs"] add.assoc)
qed

text \<open>
  What an exact receive that had \<open>n\<close> bytes reports when it returns: it took some bytes from
  the stream, all of them are in the buffer behind the first \<open>n\<close>, nothing else of the buffer
  changed, and the state tells what ended it.
\<close>

definition stream_receive_ok :: "('k \<Rightarrow> u8 list) \<Rightarrow> u8 list \<Rightarrow> nat \<Rightarrow> 'k \<Rightarrow> stream_receive_result \<Rightarrow>
    u8 list \<Rightarrow> 'k \<Rightarrow> bool" where
  "stream_receive_ok pending buffer n k r buffer' k' \<longleftrightarrow> (\<exists>got.
     pending k = got @ pending k' \<and> bytes_received r = n + length got \<and>
     n + length got \<le> length buffer \<and> buffer' = write_at buffer n got \<and>
     (sr_state r = Complete \<longleftrightarrow> bytes_received r = length buffer) \<and>
     (sr_state r = Peer_closed \<longrightarrow> pending k' = []) \<and>
     (sr_error r = 0 \<longleftrightarrow> sr_state r \<noteq> Error))"

lemma stream_receive_ok_end:
  assumes "pending k' = pending k" "n \<le> length buffer"
    and "s = Complete \<longleftrightarrow> n = length buffer" "s = Peer_closed \<longrightarrow> pending k' = []" "e = 0 \<longleftrightarrow> s \<noteq> Error"
  shows "stream_receive_ok pending buffer n k (stream_result s n e) buffer k'"
  using assms by (auto simp: stream_receive_ok_def stream_result_def)

lemma stream_receive_ok_more:
  assumes "stream_receive_ok pending (write_at buffer n bs) (n + length bs) k1 r buffer' k'"
    and "pending k = bs @ pending k1" "n + length bs \<le> length buffer"
  shows "stream_receive_ok pending buffer n k r buffer' k'"
proof -
  obtain got where "pending k1 = got @ pending k'" "bytes_received r = n + length bs + length got"
    "n + length bs + length got \<le> length buffer"
    "buffer' = write_at (write_at buffer n bs) (n + length bs) got"
    "sr_state r = Complete \<longleftrightarrow> bytes_received r = length buffer"
    "sr_state r = Peer_closed \<longrightarrow> pending k' = []" "sr_error r = 0 \<longleftrightarrow> sr_state r \<noteq> Error"
    using assms(1,3) unfolding stream_receive_ok_def by auto
  then show ?thesis using assms(2)
    unfolding stream_receive_ok_def by (intro exI [of _ "bs @ got"]) (simp add: write_at_append)
qed

lemma stream_receive_ok_same:
  "stream_receive_ok pending buffer n k1 r buffer' k' \<Longrightarrow> pending k1 = pending k \<Longrightarrow>
     stream_receive_ok pending buffer n k r buffer' k'"
  by (simp add: stream_receive_ok_def)

lemma receive_exact_blocking_loop_result:
  assumes recv: "receives_stream api fd 0 pending"
    and ends: "\<And>n. interrupts_end (\<lambda>k. sys_recv api k fd n 0) patience"
  shows "fst x \<le> length (snd x) \<longrightarrow> (\<exists>r buffer' k'.
    receive_exact_blocking_loop api fd (fst x) (snd x) k = Some (r, buffer', k') \<and>
    stream_receive_ok pending (snd x) (fst x) k r buffer' k' \<and> sr_state r \<noteq> Stopped)"
proof (induction x k rule: progress_induct [where m = "\<lambda>x. length (snd x) - fst x" and p = patience])
  case (1 x k)
  obtain n buffer where x: "x = (n, buffer)" by fastforce
  let ?loop = "receive_exact_blocking_loop api fd"
  show ?case
  proof (cases "n < length buffer")
    case False
    then show ?thesis unfolding x fst_conv snd_conv
      by (intro impI exI [of _ "stream_result Complete n 0"] exI [of _ buffer] exI [of _ k])
        (subst receive_exact_blocking_loop.simps, auto intro: stream_receive_ok_end, simp add: stream_result_def)
  next
    case True
    obtain out k1 where call: "sys_recv api k fd (length buffer - n) 0 = (out, k1)" by fastforce
    show ?thesis
    proof (cases out)
      case (Inl e)
      have e: "0 < e" "pending k1 = pending k" using receives_streamD(2) [OF recv call Inl] by auto
      show ?thesis
      proof (cases "e = EINTR")
        case eintr: True
        then have "patience k1 < patience k"
          using ends [of "length buffer - n"] call by (simp add: interrupts_end_def Inl)
        then obtain r buffer' k' where "?loop n buffer k1 = Some (r, buffer', k')"
          "stream_receive_ok pending buffer n k1 r buffer' k'" "sr_state r \<noteq> Stopped"
          using 1(2) [of k1] True by (auto simp: x)
        then show ?thesis unfolding x fst_conv snd_conv using True eintr call Inl e(2)
          by (intro impI exI [of _ r] exI [of _ buffer'] exI [of _ k'])
            (subst receive_exact_blocking_loop.simps, simp add: stream_receive_ok_same)
      next
        case False
        then show ?thesis unfolding x fst_conv snd_conv using True call Inl e
          by (intro impI exI [of _ "stream_result Error n e"] exI [of _ buffer] exI [of _ k1])
            (subst receive_exact_blocking_loop.simps, auto intro!: stream_receive_ok_end, simp add: stream_result_def)
      qed
    next
      case (Inr bs)
      have bs: "length bs \<le> length buffer - n" "pending k = bs @ pending k1" "bs = [] \<longrightarrow> pending k = []"
        using receives_streamD(1) [OF recv call Inr] True by auto
      show ?thesis
      proof (cases "bs = []")
        case nil: True
        then show ?thesis unfolding x fst_conv snd_conv using True call Inr bs
          by (intro impI exI [of _ "stream_result Peer_closed n 0"] exI [of _ buffer] exI [of _ k1])
            (subst receive_exact_blocking_loop.simps, auto intro!: stream_receive_ok_end, simp add: stream_result_def)
      next
        case False
        then have pos: "0 < length bs" by simp
        have le: "n + length bs \<le> length buffer" using True bs(1) by simp
        then have less: "length (write_at buffer n bs) - (n + length bs) < length buffer - n"
          using pos unfolding length_write_at [OF le] by linarith
        obtain r buffer' k' where "?loop (n + length bs) (write_at buffer n bs) k1 = Some (r, buffer', k')"
          "stream_receive_ok pending (write_at buffer n bs) (n + length bs) k1 r buffer' k'" "sr_state r \<noteq> Stopped"
          using 1(1) [of "(n + length bs, write_at buffer n bs)" k1] less le by (auto simp: x)
        moreover from this(2) have "stream_receive_ok pending buffer n k r buffer' k'"
          using bs(2) le by (rule stream_receive_ok_more)
        ultimately show ?thesis unfolding x fst_conv snd_conv using True False call Inr
          by (intro impI exI [of _ r] exI [of _ buffer'] exI [of _ k'])
            (subst receive_exact_blocking_loop.simps, simp)
      qed
    qed
  qed
qed

text \<open>The same for the busy-spinning loop, with the hints it issued and why it stopped.\<close>

definition spin_receive_ok :: "('k \<Rightarrow> bool \<times> 'k) \<Rightarrow> ('k \<Rightarrow> u8 list) \<Rightarrow> u8 list \<Rightarrow> nat \<Rightarrow> hint list \<Rightarrow> 'k \<Rightarrow>
    (stream_receive_result \<times> u8 list \<times> hint list \<times> 'k) option \<Rightarrow> bool" where
  "spin_receive_ok stop pending buffer n hs k out \<longleftrightarrow> (\<exists>r buffer' j k'.
     out = Some (r, buffer', hs @ replicate j Pause, k') \<and> stream_receive_ok pending buffer n k r buffer' k' \<and>
     (sr_state r = Stopped \<longrightarrow> (\<exists>k1. stop k1 = (True, k'))))"

lemma spin_receive_ok_end:
  assumes "stream_receive_ok pending buffer n k (stream_result s n e) buffer k'"
    and "s = Stopped \<longrightarrow> (\<exists>k1. stop k1 = (True, k'))"
  shows "spin_receive_ok stop pending buffer n hs k (Some (stream_result s n e, buffer, hs, k'))"
  using assms unfolding spin_receive_ok_def
  by (intro exI [of _ "stream_result s n e"] exI [of _ buffer] exI [of _ 0] exI [of _ k'])
    (simp add: stream_result_def)

lemma spin_receive_ok_again:
  assumes "spin_receive_ok stop pending buffer n (hs @ replicate i Pause) k1 out" "pending k1 = pending k"
  shows "spin_receive_ok stop pending buffer n hs k out"
proof -
  obtain r buffer' j k' where "out = Some (r, buffer', hs @ replicate (i + j) Pause, k')"
    "stream_receive_ok pending buffer n k1 r buffer' k'" "sr_state r = Stopped \<longrightarrow> (\<exists>k1. stop k1 = (True, k'))"
    using assms(1) unfolding spin_receive_ok_def append_assoc replicate_add by blast
  then show ?thesis using stream_receive_ok_same [where pending = pending, OF _ assms(2)]
    unfolding spin_receive_ok_def by blast
qed

lemma spin_receive_ok_more:
  assumes "spin_receive_ok stop pending (write_at buffer n bs) (n + length bs) hs k1 out"
    and "pending k = bs @ pending k1" "n + length bs \<le> length buffer"
  shows "spin_receive_ok stop pending buffer n hs k out"
  using assms(1) stream_receive_ok_more [where pending = pending, OF _ assms(2,3)]
  unfolding spin_receive_ok_def by blast

lemma receive_exact_busy_spin_idle:
  assumes "0 < e" "pending k1 = pending k" "n < length buffer"
    and call: "sys_recv api k fd (length buffer - n) MSG_DONTWAIT = (Inl e, k1)"
    and stop: "stop k1 = (b, k2)" "pending k2 = pending k1"
    and again: "\<And>hs. \<not> b \<Longrightarrow> spin_receive_ok stop pending buffer n hs k2
      (receive_exact_busy_spin_loop api fd stop n buffer hs k2)"
  shows "spin_receive_ok stop pending buffer n hs k (receive_exact_busy_spin_loop api fd stop n buffer hs k)"
proof -
  have pend: "pending k2 = pending k" using assms(2) stop(2) by simp
  have pause: "fst (busy_spin_wait_wait ()) = replicate 1 Pause" by (simp add: busy_spin_wait_wait_def)
  have stopped: "spin_receive_ok stop pending buffer n hs k (Some (stream_result Stopped n 0, buffer, hs, k2))" if b
    using that pend assms(3) stop(1) by (intro spin_receive_ok_end stream_receive_ok_end) auto
  have retry: "spin_receive_ok stop pending buffer n hs k (receive_exact_busy_spin_loop api fd stop n buffer hs k2)"
      "spin_receive_ok stop pending buffer n hs k
        (receive_exact_busy_spin_loop api fd stop n buffer (hs @ fst (busy_spin_wait_wait ())) k2)" if "\<not> b"
    using spin_receive_ok_again [where i = 0 and pending = pending, OF _ pend]
      spin_receive_ok_again [where i = 1 and pending = pending, OF _ pend] again [OF that]
    unfolding pause by simp_all
  have failed: "spin_receive_ok stop pending buffer n hs k (Some (stream_result Error n e, buffer, hs, k1))"
    using assms(1-3) by (intro spin_receive_ok_end stream_receive_ok_end) auto
  show ?thesis
    by (subst receive_exact_busy_spin_loop.simps)
      (use assms(3) call stop(1) stopped retry failed in \<open>cases b; simp\<close>)
qed

lemma receive_exact_busy_spin_loop_result:
  assumes recv: "receives_stream api fd MSG_DONTWAIT pending" and stop: "stop_comes api fd stop pending patience"
  shows "fst x \<le> length (snd x) \<longrightarrow> (\<forall>hs. spin_receive_ok stop pending (snd x) (fst x) hs k
    (receive_exact_busy_spin_loop api fd stop (fst x) (snd x) hs k))"
proof (induction x k rule: progress_induct [where m = "\<lambda>x. length (snd x) - fst x" and p = patience])
  case (1 x k)
  obtain n buffer where x: "x = (n, buffer)" by fastforce
  let ?loop = "receive_exact_busy_spin_loop api fd stop"
  show ?case unfolding x fst_conv snd_conv
  proof (intro impI allI, cases "n < length buffer")
    fix hs assume "n \<le> length buffer" "\<not> n < length buffer"
    then show "spin_receive_ok stop pending buffer n hs k (?loop n buffer hs k)"
      by (subst receive_exact_busy_spin_loop.simps)
        (auto intro!: spin_receive_ok_end stream_receive_ok_end)
  next
    fix hs assume less: "n < length buffer"
    obtain out k1 where call: "sys_recv api k fd (length buffer - n) MSG_DONTWAIT = (out, k1)" by fastforce
    show "spin_receive_ok stop pending buffer n hs k (?loop n buffer hs k)"
    proof (cases out)
      case (Inl e)
      obtain b k2 where st: "stop k1 = (b, k2)" by fastforce
      have e: "0 < e" "pending k1 = pending k" using receives_streamD(2) [OF recv call Inl] by auto
      show ?thesis
      proof (rule receive_exact_busy_spin_idle [where pending = pending
          and stop = stop, OF e less call [unfolded Inl] st stop_comesD(2) [OF stop st]])
        fix hs assume "\<not> b"
        then have "patience k2 < patience k"
          using stop_comesD(1) [OF stop, of k1 k2] stop_comesD(3) [OF stop call [unfolded Inl]] st by simp
        then show "spin_receive_ok stop pending buffer n hs k2 (?loop n buffer hs k2)"
          using 1(2) [of k2] less by (simp add: x)
      qed
    next
      case (Inr bs)
      have bs: "length bs \<le> length buffer - n" "pending k = bs @ pending k1" "bs = [] \<longrightarrow> pending k = []"
        using receives_streamD(1) [OF recv call Inr] less by auto
      show ?thesis
      proof (cases "bs = []")
        case True
        then show ?thesis using less call Inr bs
          by (subst receive_exact_busy_spin_loop.simps)
            (auto intro!: spin_receive_ok_end stream_receive_ok_end)
      next
        case False
        then have pos: "0 < length bs" by simp
        have le: "n + length bs \<le> length buffer" using less bs(1) by simp
        then have fewer: "length (write_at buffer n bs) - (n + length bs) < length buffer - n"
          using pos unfolding length_write_at [OF le] by linarith
        have "?loop n buffer hs k = ?loop (n + length bs) (write_at buffer n bs) hs k1"
          by (subst receive_exact_busy_spin_loop.simps) (use less call Inr False in simp)
        moreover have "spin_receive_ok stop pending (write_at buffer n bs) (n + length bs) hs k1
            (?loop (n + length bs) (write_at buffer n bs) hs k1)"
          using 1(1) [of "(n + length bs, write_at buffer n bs)" k1] fewer le by (simp add: x)
        ultimately show ?thesis using spin_receive_ok_more [where pending = pending, OF _ bs(2) le] by simp
      qed
    qed
  qed
qed

text \<open>The deadline predicate says yes once the clock has reached the deadline.\<close>

lemma deadline_stop_comes:
  assumes "clock_runs now time pending" "recv_keeps_time api fd time"
  shows "stop_comes api fd (deadline_passed now deadline) pending (\<lambda>k. nat (deadline - time k))"
  unfolding stop_comes_def
proof (intro conjI allI impI)
  fix k k' assume "deadline_passed now deadline k = (False, k')"
  then obtain t where "now k = (t, k')" "t < deadline" by (auto simp: deadline_passed_def split: prod.splits)
  then show "nat (deadline - time k') < nat (deadline - time k)"
    using assms(1) unfolding clock_runs_def by fastforce
next
  fix k b k' assume "deadline_passed now deadline k = (b, k')"
  then obtain t where "now k = (t, k')" by (auto simp: deadline_passed_def split: prod.splits)
  then show "pending k' = pending k" using assms(1) unfolding clock_runs_def by blast
next
  fix k n e k' assume "sys_recv api k fd n MSG_DONTWAIT = (Inl e, k')"
  then show "nat (deadline - time k') \<le> nat (deadline - time k)"
    using assms(2) unfolding recv_keeps_time_def by fastforce
qed

lemma deadline_reached:
  assumes "clock_runs now time pending" "deadline_passed now deadline k = (True, k')"
  shows "deadline < time k'"
  using assms unfolding clock_runs_def deadline_passed_def by (fastforce split: prod.splits)

text \<open>C10: The blocking exact receive returns however the stream is split and interrupted. It
  completes exactly when the span is full, with the stream's next bytes in it, in order; when
  the peer closes or the call fails it keeps what arrived, at the front of the span, leaves
  the rest of the span alone and loses no byte of the stream; it never reports a stop.\<close>

theorem receive_exact_blocking_fills:
  assumes "receives_stream api fd 0 pending"
    and "\<And>n. interrupts_end (\<lambda>k. sys_recv api k fd n 0) patience"
  shows "\<exists>r buffer' k' got. receive_exact_blocking api fd buffer k = Some (r, buffer', k') \<and>
    pending k = got @ pending k' \<and> bytes_received r = length got \<and> length got \<le> length buffer \<and>
    buffer' = got @ drop (length got) buffer \<and> (receive_complete r \<longleftrightarrow> length got = length buffer) \<and>
    (sr_state r = Peer_closed \<longrightarrow> pending k' = []) \<and> sr_state r \<noteq> Stopped \<and>
    (sr_error r = 0 \<longleftrightarrow> sr_state r \<noteq> Error)"
  using receive_exact_blocking_loop_result [OF assms, of "(0, buffer)" k]
  by (auto simp: receive_exact_blocking_def stream_receive_ok_def receive_complete_def write_at_def)

theorem receive_exact_blocking_fills_witness:
  "\<exists>r buffer' k' got. receive_exact_blocking script_api 3 [0, 0]
      \<lparr>sc_items = [Inl 3, Inr 7, Inl 3, Inr 8, Inr 9], sc_sent = [], sc_clock = 0\<rparr> = Some (r, buffer', k') \<and>
    [7, 8, 9] = got @ script_bytes k' \<and> buffer' = got @ drop (length got) [0, 0] \<and>
    (receive_complete r \<longleftrightarrow> length got = length [0, 0 :: u8])"
proof -
  let ?k = "\<lparr>sc_items = [Inl 3, Inr 7, Inl 3, Inr 8, Inr 9], sc_sent = [], sc_clock = 0\<rparr>"
  have "script_bytes ?k = [7, 8, 9]" by (simp add: script_bytes_def)
  then show ?thesis
    using receive_exact_blocking_fills [OF script_receives script_interrupts(2), of 3 "[0, 0]" ?k] by metis
qed

text \<open>C9: The busy-spinning exact receive with a deadline always returns, whatever storm of
  interruptions and not-ready answers the kernel gives, as long as the clock advances. What
  it received is at the front of the span and nothing is lost; it stops early only after
  the deadline, keeping its progress, and its only hints are PAUSE instructions.\<close>

theorem receive_exact_busy_spin_until_returns:
  assumes "receives_stream api fd MSG_DONTWAIT pending" "clock_runs now time pending" "recv_keeps_time api fd time"
  shows "\<exists>r buffer' j k' got.
    receive_exact_busy_spin_until api fd buffer now deadline k = Some (r, buffer', replicate j Pause, k') \<and>
    pending k = got @ pending k' \<and> bytes_received r = length got \<and> length got \<le> length buffer \<and>
    buffer' = got @ drop (length got) buffer \<and> (receive_complete r \<longleftrightarrow> length got = length buffer) \<and>
    (sr_state r = Stopped \<longrightarrow> deadline < time k') \<and> (sr_error r = 0 \<longleftrightarrow> sr_state r \<noteq> Error)"
proof -
  let ?stop = "deadline_passed now deadline"
  have "spin_receive_ok ?stop pending buffer 0 [] k (receive_exact_busy_spin_loop api fd ?stop 0 buffer [] k)"
    using receive_exact_busy_spin_loop_result [OF assms(1) deadline_stop_comes [OF assms(2,3)], of "(0, buffer)" deadline k]
    by simp
  then show ?thesis
    using deadline_reached [OF assms(2), of deadline]
    unfolding receive_exact_busy_spin_until_def receive_exact_busy_spin_def spin_receive_ok_def
      stream_receive_ok_def receive_complete_def
    by (auto simp: write_at_def)
qed

theorem receive_exact_busy_spin_until_returns_witness:
  "\<exists>r buffer' j k'. receive_exact_busy_spin_until script_api 3 [0, 0] script_now 2
      \<lparr>sc_items = [Inl 10, Inr 7, Inl 10, Inl 10, Inl 10, Inl 10], sc_sent = [], sc_clock = 0\<rparr> =
      Some (r, buffer', replicate j Pause, k') \<and> (sr_state r = Stopped \<longrightarrow> 2 < sc_clock k')"
  using receive_exact_busy_spin_until_returns [OF script_receives script_clock(1,3), of 3 "[0, 0]" 2
      "\<lparr>sc_items = [Inl 10, Inr 7, Inl 10, Inl 10, Inl 10, Inl 10], sc_sent = [], sc_clock = 0\<rparr>"]
  by blast

section \<open>Datagrams\<close>

text \<open>
  What one receive of a datagram reports: a datagram is taken from the queue and described,
  or nothing is.
\<close>

definition datagram_ok :: "('k \<Rightarrow> (u8 list \<times> sockaddr_in) list) \<Rightarrow> u8 list \<Rightarrow> 'k \<Rightarrow> datagram_receive_result \<Rightarrow>
    u8 list \<Rightarrow> 'k \<Rightarrow> bool" where
  "datagram_ok queue buffer k r buffer' k' \<longleftrightarrow>
     (if dg_state r = Received
      then \<exists>payload. queue k = (payload, peer r) # queue k' \<and> wire_bytes r = length payload \<and>
        buffer' = take (length buffer) payload @ drop (length payload) buffer \<and>
        (truncated r (length buffer) \<longleftrightarrow> length buffer < length payload) \<and> dg_error r = 0
      else queue k' = queue k \<and> buffer' = buffer)"

lemma datagram_ok_same:
  "queue k1 = queue k \<Longrightarrow> datagram_ok queue buffer k1 r buffer' k' \<longleftrightarrow> datagram_ok queue buffer k r buffer' k'"
  by (simp add: datagram_ok_def)

lemma receive_datagram_once_result:
  assumes recv: "receives_datagrams api fd (flags OR MSG_TRUNC) queue"
    and ends: "retry \<Longrightarrow> interrupts_end (\<lambda>k. sys_recvmsg api k fd (length buffer) (flags OR MSG_TRUNC)) patience"
  shows "\<exists>r buffer' k'. receive_datagram_once api fd buffer flags retry k = Some (r, buffer', k') \<and>
    datagram_ok queue buffer k r buffer' k' \<and> dg_state r \<noteq> Dg_stopped \<and>
    (dg_error r = 0 \<longleftrightarrow> dg_state r \<noteq> Dg_error) \<and> (retry \<longrightarrow> dg_error r \<noteq> EINTR) \<and>
    (dg_state r = Not_ready \<longrightarrow> flags AND MSG_DONTWAIT \<noteq> 0) \<and>
    (\<not> retry \<longrightarrow> (\<exists>out. sys_recvmsg api k fd (length buffer) (flags OR MSG_TRUNC) = (out, k')))"
proof (induction "patience k" arbitrary: k rule: less_induct)
  case less
  obtain out k1 where call: "sys_recvmsg api k fd (length buffer) (flags OR MSG_TRUNC) = (out, k1)" by fastforce
  show ?case
  proof (cases out)
    case (Inr m)
    obtain payload where m: "queue k = (payload, msg_peer m) # queue k1" "msg_wire m = length payload"
      "msg_bytes m = take (length buffer) payload" "msg_out_flags m AND MSG_TRUNC \<noteq> 0 \<longleftrightarrow> length buffer < length payload"
      using receives_datagramsD(1) [OF recv call Inr] by blast
    let ?r = "new_datagram_result\<lparr>dg_state := Received, wire_bytes := msg_wire m, peer := msg_peer m,
      peer_length := msg_namelen m, message_flags := msg_out_flags m\<rparr>"
    have "receive_datagram_once api fd buffer flags retry k = Some (?r, write_at buffer 0 (msg_bytes m), k1)"
      by (subst receive_datagram_once.simps) (simp add: call Inr)
    moreover have "datagram_ok queue buffer k ?r (write_at buffer 0 (msg_bytes m)) k1"
      using m by (auto simp: datagram_ok_def truncated_def datagram_received_def new_datagram_result_def write_at_def min_def)
    ultimately show ?thesis using call
      by (intro exI [of _ ?r] exI [of _ "write_at buffer 0 (msg_bytes m)"] exI [of _ k1])
        (simp add: new_datagram_result_def EINTR_def)
  next
    case (Inl e)
    have e: "0 < e" "queue k1 = queue k" using receives_datagramsD(2) [OF recv call Inl] by auto
    consider "e = EINTR" "retry" | "\<not> (e = EINTR \<and> retry)" "flags AND MSG_DONTWAIT \<noteq> 0 \<and> (e = EAGAIN \<or> e = EWOULDBLOCK)"
      | "\<not> (e = EINTR \<and> retry)" "\<not> (flags AND MSG_DONTWAIT \<noteq> 0 \<and> (e = EAGAIN \<or> e = EWOULDBLOCK))" by blast
    then show ?thesis
    proof cases
      case 1
      have same: "receive_datagram_once api fd buffer flags retry k = receive_datagram_once api fd buffer flags retry k1"
        by (subst receive_datagram_once.simps) (simp add: call Inl 1)
      have "datagram_ok queue buffer k1 r b k' \<longleftrightarrow> datagram_ok queue buffer k r b k'" for r b k'
        using e(2) by (rule datagram_ok_same)
      moreover have "patience k1 < patience k" using ends [OF 1(2)] call Inl 1(1) by (simp add: interrupts_end_def)
      ultimately show ?thesis using less.hyps [of k1] 1(2) unfolding same by simp
    next
      case 2
      then have "receive_datagram_once api fd buffer flags retry k =
          Some (new_datagram_result\<lparr>dg_state := Not_ready\<rparr>, buffer, k1)"
        by (subst receive_datagram_once.simps) (auto simp: call Inl)
      then show ?thesis using 2 e call by (simp add: datagram_ok_def new_datagram_result_def EINTR_def)
    next
      case 3
      then have "receive_datagram_once api fd buffer flags retry k =
          Some (new_datagram_result\<lparr>dg_state := Dg_error, dg_error := e\<rparr>, buffer, k1)"
        by (subst receive_datagram_once.simps) (auto simp: call Inl)
      then show ?thesis using 3 e call by (simp add: datagram_ok_def new_datagram_result_def) blast
    qed
  qed
qed

lemma receive_datagram_result:
  assumes "receives_datagrams api fd MSG_TRUNC queue" "receives_datagrams api fd (MSG_DONTWAIT OR MSG_TRUNC) queue"
    and "\<And>flags. interrupts_end (\<lambda>k. sys_recvmsg api k fd (length buffer) flags) patience"
    and "call \<in> {receive_datagram_blocking, try_receive_datagram}"
  shows "\<exists>r buffer' k'. call api fd buffer k = Some (r, buffer', k') \<and>
    (if dg_state r = Received
     then \<exists>payload. queue k = (payload, peer r) # queue k' \<and> wire_bytes r = length payload \<and>
       buffer' = take (length buffer) payload @ drop (length payload) buffer \<and>
       (truncated r (length buffer) \<longleftrightarrow> length buffer < length payload)
     else queue k' = queue k \<and> buffer' = buffer) \<and>
    dg_error r \<noteq> EINTR \<and> dg_state r \<noteq> Dg_stopped \<and> (dg_error r = 0 \<longleftrightarrow> dg_state r \<noteq> Dg_error) \<and>
    (dg_state r = Not_ready \<longrightarrow> call = try_receive_datagram)"
proof -
  have blocking: "receives_datagrams api fd (0 OR MSG_TRUNC) queue" using assms(1) by simp
  have once: "datagram_ok queue buffer k r buffer' k' \<Longrightarrow>
    (if dg_state r = Received
     then \<exists>payload. queue k = (payload, peer r) # queue k' \<and> wire_bytes r = length payload \<and>
       buffer' = take (length buffer) payload @ drop (length payload) buffer \<and>
       (truncated r (length buffer) \<longleftrightarrow> length buffer < length payload)
     else queue k' = queue k \<and> buffer' = buffer)" for r buffer' k'
    by (auto simp: datagram_ok_def split: if_splits)
  from assms(4) consider "call = receive_datagram_blocking" | "call = try_receive_datagram" by blast
  then show ?thesis
  proof cases
    case 1
    from receive_datagram_once_result [OF blocking assms(3), where retry = True and k = k]
    show ?thesis using once unfolding 1 receive_datagram_blocking_def by fastforce
  next
    case 2
    from receive_datagram_once_result [OF assms(2,3), where retry = True and k = k]
    show ?thesis using once unfolding 2 try_receive_datagram_def by fastforce
  qed
qed

text \<open>C14: The blocking and the single non-blocking datagram receive return; a received datagram
  is the next of the queue with its source and its original length, the buffer's front
  holding as much of it as fits, and \<open>truncated\<close> says exactly whether it did not fit;
  otherwise nothing is taken and the buffer is as it was. An interruption is never
  reported, and not-ready only by the non-blocking call.\<close>

theorem receive_one_datagram:
  assumes "receives_datagrams api fd MSG_TRUNC queue" "receives_datagrams api fd (MSG_DONTWAIT OR MSG_TRUNC) queue"
    and "\<And>flags. interrupts_end (\<lambda>k. sys_recvmsg api k fd (length buffer) flags) patience"
    and "call \<in> {receive_datagram_blocking, try_receive_datagram}"
  shows "\<exists>r buffer' k'. call api fd buffer k = Some (r, buffer', k') \<and>
    (if dg_state r = Received
     then \<exists>payload. queue k = (payload, peer r) # queue k' \<and> wire_bytes r = length payload \<and>
       buffer' = take (length buffer) payload @ drop (length payload) buffer \<and>
       (truncated r (length buffer) \<longleftrightarrow> length buffer < length payload)
     else queue k' = queue k \<and> buffer' = buffer) \<and>
    dg_error r \<noteq> EINTR \<and> dg_state r \<noteq> Dg_stopped \<and> (dg_error r = 0 \<longleftrightarrow> dg_state r \<noteq> Dg_error) \<and>
    (dg_state r = Not_ready \<longrightarrow> call = try_receive_datagram)"
  by (rule receive_datagram_result [OF assms])

theorem receive_one_datagram_witness:
  "\<exists>r buffer' k'. try_receive_datagram script_api 3 [0, 0] \<lparr>sc_items = [Inl 3, Inr 7], sc_sent = [], sc_clock = 0\<rparr> =
      Some (r, buffer', k') \<and> dg_error r \<noteq> EINTR \<and>
    (if dg_state r = Received then \<exists>payload. [([7], no_address)] = (payload, peer r) # script_queue k'
     else script_queue k' = [([7], no_address)])"
proof -
  let ?k = "\<lparr>sc_items = [Inl 3, Inr 7], sc_sent = [], sc_clock = 0\<rparr>"
  have q: "script_queue ?k = [([7], no_address)]" by (simp add: script_queue_def)
  obtain r buffer' k' where "try_receive_datagram script_api 3 [0, 0] ?k = Some (r, buffer', k')"
    "if dg_state r = Received
     then \<exists>payload. script_queue ?k = (payload, peer r) # script_queue k' \<and> wire_bytes r = length payload \<and>
       buffer' = take (length [0, 0 :: u8]) payload @ drop (length payload) [0, 0] \<and>
       (truncated r (length [0, 0 :: u8]) \<longleftrightarrow> length [0, 0 :: u8] < length payload)
     else script_queue k' = script_queue ?k \<and> buffer' = [0, 0]" "dg_error r \<noteq> EINTR"
    using receive_one_datagram [OF script_datagrams script_datagrams script_interrupts(3), of try_receive_datagram 3 "[0, 0]" ?k]
    by blast
  then show ?thesis unfolding q by (intro exI [of _ r] exI [of _ buffer'] exI [of _ k']) auto
qed

text \<open>The busy-spinning datagram receive, with a deadline.\<close>

lemma receive_datagram_spin_result:
  assumes recv: "receives_datagrams api fd (MSG_DONTWAIT OR MSG_TRUNC) queue"
    and clock: "clock_runs now time queue" "recv_keeps_time api fd time"
  shows "\<exists>r buffer' j k'.
    receive_datagram_busy_spin_loop api fd buffer (deadline_passed now deadline) hs k =
      Some (r, buffer', hs @ replicate j Pause, k') \<and>
    datagram_ok queue buffer k r buffer' k' \<and> dg_error r \<noteq> EINTR \<and> dg_state r \<noteq> Not_ready \<and>
    (dg_error r = 0 \<longleftrightarrow> dg_state r \<noteq> Dg_error) \<and> (dg_state r = Dg_stopped \<longrightarrow> deadline < time k')"
proof (induction "nat (deadline - time k)" arbitrary: k hs rule: less_induct)
  case less
  let ?stop = "deadline_passed now deadline" and ?loop = "receive_datagram_busy_spin_loop api fd buffer (deadline_passed now deadline)"
  obtain r buffer' k1 out where once: "receive_datagram_once api fd buffer MSG_DONTWAIT False k = Some (r, buffer', k1)"
    and ok: "datagram_ok queue buffer k r buffer' k1" "dg_state r \<noteq> Dg_stopped" "dg_error r = 0 \<longleftrightarrow> dg_state r \<noteq> Dg_error"
    and call: "sys_recvmsg api k fd (length buffer) (MSG_DONTWAIT OR MSG_TRUNC) = (out, k1)"
    using receive_datagram_once_result [OF recv, where retry = False and buffer = buffer and k = k and patience = "\<lambda>_. 0"]
    by auto
  have time1: "time k \<le> time k1" using clock(2) call unfolding recv_keeps_time_def by blast
  obtain b k2 where st: "?stop k1 = (b, k2)" by fastforce
  then obtain t where now: "now k1 = (t, k2)" "b \<longleftrightarrow> t \<ge> deadline"
    by (auto simp: deadline_passed_def split: prod.splits)
  then have time2: "time k1 \<le> t" "t < time k2" and queue2: "queue k2 = queue k1"
    using clock(1) unfolding clock_runs_def by blast+
  have stopped: "datagram_ok queue buffer k (r\<lparr>dg_state := Dg_stopped, dg_error := e\<rparr>) buffer' k2"
    if "dg_state r \<noteq> Received" for e using ok(1) that queue2 by (simp add: datagram_ok_def)
  have again: "\<exists>r' buffer'' j k'. receive_datagram_busy_spin_loop api fd buffer' ?stop (hs @ replicate i Pause) k2 =
        Some (r', buffer'', hs @ replicate j Pause, k') \<and>
      datagram_ok queue buffer k r' buffer'' k' \<and> dg_error r' \<noteq> EINTR \<and> dg_state r' \<noteq> Not_ready \<and>
      (dg_error r' = 0 \<longleftrightarrow> dg_state r' \<noteq> Dg_error) \<and> (dg_state r' = Dg_stopped \<longrightarrow> deadline < time k')"
    if "\<not> b" "dg_state r \<noteq> Received" for i
  proof -
    have same: "buffer' = buffer" "queue k1 = queue k" using ok(1) that(2) by (auto simp: datagram_ok_def)
    have "nat (deadline - time k2) < nat (deadline - time k)" using time1 time2 now(2) that(1) by simp
    from less.hyps [OF this, of "hs @ replicate i Pause"] obtain r' buffer'' j k' where
      "?loop (hs @ replicate i Pause) k2 = Some (r', buffer'', (hs @ replicate i Pause) @ replicate j Pause, k')"
      "datagram_ok queue buffer k2 r' buffer'' k'" "dg_error r' \<noteq> EINTR" "dg_state r' \<noteq> Not_ready"
      "dg_error r' = 0 \<longleftrightarrow> dg_state r' \<noteq> Dg_error" "dg_state r' = Dg_stopped \<longrightarrow> deadline < time k'"
      by blast
    moreover from this(2) have "datagram_ok queue buffer k r' buffer'' k'"
      using queue2 same datagram_ok_same [where queue = queue and ?k1.0 = k2 and k = k] by simp
    ultimately show ?thesis
      by (intro exI [of _ r'] exI [of _ buffer''] exI [of _ "i + j"] exI [of _ k'])
        (simp add: replicate_add same(1))
  qed
  note unfold = receive_datagram_busy_spin_loop.simps [of api fd buffer ?stop hs k, unfolded once]
  consider "dg_state r = Not_ready" | "dg_state r = Dg_error" "dg_error r = EINTR"
    | "dg_state r \<noteq> Not_ready" "\<not> (dg_state r = Dg_error \<and> dg_error r = EINTR)" by blast
  then show ?case
  proof cases
    case 1
    show ?thesis
    proof (cases b)
      case True
      then have "?loop hs k = Some (r\<lparr>dg_state := Dg_stopped\<rparr>, buffer', hs, k2)" by (simp add: unfold 1 st)
      then show ?thesis using stopped [of "dg_error r"] 1 ok(3) now(2) True time2(2)
        by (intro exI [of _ "r\<lparr>dg_state := Dg_stopped\<rparr>"] exI [of _ buffer'] exI [of _ 0] exI [of _ k2])
          (simp add: EINTR_def)
    next
      case False
      then have "?loop hs k = receive_datagram_busy_spin_loop api fd buffer' ?stop (hs @ replicate 1 Pause) k2"
        by (simp add: unfold 1 st busy_spin_wait_wait_def)
      then show ?thesis using again [of 1] False 1 by simp
    qed
  next
    case 2
    show ?thesis
    proof (cases b)
      case True
      then have "?loop hs k = Some (r\<lparr>dg_state := Dg_stopped, dg_error := 0\<rparr>, buffer', hs, k2)" by (simp add: unfold 2 st)
      then show ?thesis using stopped [of 0] 2 now(2) True time2(2)
        by (intro exI [of _ "r\<lparr>dg_state := Dg_stopped, dg_error := 0\<rparr>"] exI [of _ buffer'] exI [of _ 0] exI [of _ k2])
          (simp add: EINTR_def)
    next
      case False
      then have "?loop hs k = receive_datagram_busy_spin_loop api fd buffer' ?stop (hs @ replicate 0 Pause) k2"
        by (simp add: unfold 2 st)
      then show ?thesis using again [of 0] False 2 by simp
    qed
  next
    case 3
    then have "?loop hs k = Some (r, buffer', hs, k1)" by (auto simp: unfold)
    moreover have "dg_error r \<noteq> EINTR" using 3 ok(3) by (auto simp: EINTR_def)
    ultimately show ?thesis using ok 3
      by (intro exI [of _ r] exI [of _ buffer'] exI [of _ 0] exI [of _ k1]) simp
  qed
qed

text \<open>C11: The busy-spinning datagram receive with a deadline always returns as long as the clock
  advances, with the next datagram, an error of the kernel that is no interruption, or a
  stop, which comes only after the deadline, carries no error and has taken nothing.\<close>

theorem receive_datagram_busy_spin_until_returns:
  assumes "receives_datagrams api fd (MSG_DONTWAIT OR MSG_TRUNC) queue"
    and "clock_runs now time queue" "recv_keeps_time api fd time"
  shows "\<exists>r buffer' j k'.
    receive_datagram_busy_spin_until api fd buffer now deadline k = Some (r, buffer', replicate j Pause, k') \<and>
    (case dg_state r of
       Received \<Rightarrow> \<exists>payload. queue k = (payload, peer r) # queue k' \<and> wire_bytes r = length payload \<and>
         buffer' = take (length buffer) payload @ drop (length payload) buffer \<and>
         (truncated r (length buffer) \<longleftrightarrow> length buffer < length payload)
     | Not_ready \<Rightarrow> False
     | Dg_stopped \<Rightarrow> deadline < time k' \<and> dg_error r = 0 \<and> queue k' = queue k \<and> buffer' = buffer
     | Dg_error \<Rightarrow> dg_error r \<noteq> EINTR \<and> dg_error r \<noteq> 0 \<and> queue k' = queue k \<and> buffer' = buffer)"
proof -
  obtain r buffer' j k' where
    "receive_datagram_busy_spin_until api fd buffer now deadline k = Some (r, buffer', replicate j Pause, k')"
    and ok: "datagram_ok queue buffer k r buffer' k'" "dg_error r \<noteq> EINTR" "dg_state r \<noteq> Not_ready"
    "dg_error r = 0 \<longleftrightarrow> dg_state r \<noteq> Dg_error" "dg_state r = Dg_stopped \<longrightarrow> deadline < time k'"
    using receive_datagram_spin_result [OF assms, of buffer deadline "[]" k]
    by (auto simp: receive_datagram_busy_spin_until_def receive_datagram_busy_spin_def)
  then show ?thesis
    by (intro exI [of _ r] exI [of _ buffer'] exI [of _ j] exI [of _ k'])
      (auto simp: datagram_ok_def split: datagram_receive_state.splits)
qed

theorem receive_datagram_busy_spin_until_returns_witness:
  "\<exists>r buffer' j k'. receive_datagram_busy_spin_until script_api 3 [0] script_now 2
      \<lparr>sc_items = [Inl 3, Inl 10], sc_sent = [], sc_clock = 0\<rparr> = Some (r, buffer', replicate j Pause, k') \<and>
    dg_state r \<noteq> Not_ready"
proof -
  let ?k = "\<lparr>sc_items = [Inl 3, Inl 10], sc_sent = [], sc_clock = 0\<rparr>"
  have "case dg_state r of Received \<Rightarrow> P | Not_ready \<Rightarrow> False | Dg_stopped \<Rightarrow> Q | Dg_error \<Rightarrow> R \<Longrightarrow>
      dg_state r \<noteq> Not_ready" for r and P Q R :: bool
    by (cases "dg_state r") simp_all
  then show ?thesis
    using receive_datagram_busy_spin_until_returns [OF script_datagrams script_clock(2,3), of 3 "[0]" 2 ?k]
    by meson
qed

end
