(* ===== verification/Socket_Options.thy ===== *)
theory Socket_Options
  imports Socket_Properties
begin

text \<open>
  The datagram sends, and the socket options that are read back after they are set.
  \<open>sent\<close> is the log of the payloads the kernel accepted; \<open>setting\<close> is the value an integer
  option has in a state of the world.
\<close>

unbundle bit_operations_syntax

section \<open>Sending a datagram\<close>

definition sends_datagram :: "('k \<Rightarrow> (int + nat) \<times> 'k) \<Rightarrow> u8 list \<Rightarrow> ('k \<Rightarrow> u8 list list) \<Rightarrow> bool" where
  "sends_datagram call bytes sent \<longleftrightarrow>
     (\<forall>k n k'. call k = (Inr n, k') \<longrightarrow> n \<le> length bytes \<and> sent k' = sent k @ [take n bytes]) \<and>
     (\<forall>k e k'. call k = (Inl e, k') \<longrightarrow> 0 < e \<and> sent k' = sent k)"

text \<open>The retry loop ends with a call that was not interrupted, made in an equivalent state.\<close>

lemma retry_interrupted_send_returns:
  assumes ends: "interrupts_end call patience" and keeps: "\<And>k k'. call k = (Inl EINTR, k') \<Longrightarrow> obs k' = obs k"
  shows "\<exists>outcome k0 k'. retry_interrupted_send call k = Some (outcome, k') \<and> call k0 = (outcome, k') \<and>
    obs k0 = obs k \<and> outcome \<noteq> Inl EINTR"
proof (induction "patience k" arbitrary: k rule: less_induct)
  case less
  obtain out k1 where call: "call k = (out, k1)" by fastforce
  show ?case
  proof (cases "out = Inl EINTR")
    case True
    then have "patience k1 < patience k" using ends call unfolding interrupts_end_def by blast
    from less.hyps [OF this] keeps [of k k1] True call show ?thesis
      by (simp add: retry_interrupted_send.simps [of call k])
  next
    case False
    then have "retry_interrupted_send call k = Some (out, k1)"
      using call by (cases out) (simp_all add: retry_interrupted_send.simps [of call k])
    then show ?thesis using call False by blast
  qed
qed

lemma retry_interrupted_send_result:
  assumes sends: "sends_datagram call bytes sent" and ends: "interrupts_end call patience"
  shows "\<exists>outcome k'. retry_interrupted_send call k = Some (outcome, k') \<and>
    (case outcome of Inl e \<Rightarrow> 0 < e \<and> e \<noteq> EINTR \<and> sent k' = sent k
                   | Inr n \<Rightarrow> n \<le> length bytes \<and> sent k' = sent k @ [take n bytes])"
proof -
  have "\<And>k k'. call k = (Inl EINTR, k') \<Longrightarrow> sent k' = sent k" using sends unfolding sends_datagram_def by blast
  from retry_interrupted_send_returns [where call = call and obs = sent and k = k, OF ends this]
  obtain outcome k0 k' where "retry_interrupted_send call k = Some (outcome, k')" "call k0 = (outcome, k')"
    "sent k0 = sent k" "outcome \<noteq> Inl EINTR"
    by blast
  then show ?thesis using sends unfolding sends_datagram_def
    by (intro exI [of _ outcome] exI [of _ k']) (auto split: sum.splits)
qed

text \<open>C15: Both datagram sends return, never with an interruption; a failure reports the error and
  has sent nothing, otherwise exactly one datagram has been sent, the result names how much of
  the payload it holds, and it is complete exactly when that is the whole payload; a shorter
  one is reported as \<open>EMSGSIZE\<close>.\<close>

theorem datagram_sent_once:
  assumes "call = (\<lambda>k. sys_send api k fd bytes MSG_NOSIGNAL) \<and> send = send_connected_datagram api fd bytes \<or>
      call = (\<lambda>k. sys_sendto api k fd bytes MSG_NOSIGNAL destination) \<and>
      send = send_datagram_to api fd bytes destination"
    and "sends_datagram call bytes sent" "interrupts_end call patience"
  shows "\<exists>r k'. send k = Some (r, k') \<and> send_error r \<noteq> EINTR \<and>
    (if sent k' = sent k then send_error r \<noteq> 0 \<and> bytes_sent r = 0 \<and> \<not> send_complete r (length bytes)
     else sent k' = sent k @ [take (bytes_sent r) bytes] \<and> bytes_sent r \<le> length bytes \<and>
       (send_complete r (length bytes) \<longleftrightarrow> bytes_sent r = length bytes) \<and>
       (send_error r = EMSGSIZE \<longleftrightarrow> bytes_sent r < length bytes))"
proof -
  obtain outcome k' where res: "retry_interrupted_send call k = Some (outcome, k')"
    "case outcome of Inl e \<Rightarrow> 0 < e \<and> e \<noteq> EINTR \<and> sent k' = sent k
                   | Inr n \<Rightarrow> n \<le> length bytes \<and> sent k' = sent k @ [take n bytes]"
    using retry_interrupted_send_result [OF assms(2,3)] by blast
  have "send k = Some (datagram_send_result (length bytes) outcome, k')"
    using assms(1) res(1) by (auto simp: send_connected_datagram_def send_datagram_to_def)
  then show ?thesis using res(2)
    by (cases outcome) (auto simp: datagram_send_result_def send_complete_def EMSGSIZE_def EINTR_def)
qed

definition log_api :: "u8 list list socket_api" where
  "log_api = \<lparr>
     sys_getsockopt = (\<lambda>k fd level option. (Inr (int (length k), 4), k)),
     sys_setsockopt = (\<lambda>k fd level option v. (Inr (), replicate (nat v) [])),
     sys_send = (\<lambda>k fd bytes flags. (Inr (length bytes), k @ [bytes])),
     sys_sendto = (\<lambda>k fd bytes flags to. (Inr (length bytes), k @ [bytes])),
     sys_recv = (\<lambda>k fd n flags. (Inr [], k)),
     sys_recvmsg = (\<lambda>k fd n flags. (Inl EAGAIN, k))\<rparr>"

theorem datagram_sent_once_witness:
  "\<exists>r k'. send_connected_datagram log_api 3 [1, 2] [] = Some (r, k') \<and> send_error r \<noteq> EINTR \<and>
    (if k' = [] then send_error r \<noteq> 0 \<and> bytes_sent r = 0 \<and> \<not> send_complete r (length [1, 2 :: u8])
     else k' = [] @ [take (bytes_sent r) [1, 2]] \<and> bytes_sent r \<le> length [1, 2 :: u8] \<and>
       (send_complete r (length [1, 2 :: u8]) \<longleftrightarrow> bytes_sent r = length [1, 2 :: u8]) \<and>
       (send_error r = EMSGSIZE \<longleftrightarrow> bytes_sent r < length [1, 2 :: u8]))"
proof -
  let ?call = "\<lambda>k. sys_send log_api k 3 [1, 2] MSG_NOSIGNAL"
  have "sends_datagram ?call [1, 2] (\<lambda>k. k)" "interrupts_end ?call (\<lambda>_. 0)"
    by (auto simp: sends_datagram_def interrupts_end_def log_api_def)
  from datagram_sent_once [OF disjI1 [OF conjI [OF refl refl]] this, of "[]"] show ?thesis .
qed

section \<open>Socket options\<close>

text \<open>Reading an integer option delivers its setting, whole, and changes no setting.\<close>

definition reads_option :: "'k socket_api \<Rightarrow> int \<Rightarrow> int \<Rightarrow> int \<Rightarrow> ('k \<Rightarrow> int) \<Rightarrow> bool" where
  "reads_option api fd level option_name setting \<longleftrightarrow> (\<forall>k out k'.
     sys_getsockopt api k fd level option_name = (out, k') \<longrightarrow> setting k' = setting k \<and>
       (case out of Inl e \<Rightarrow> 0 < e | Inr (v, len) \<Rightarrow> len = sizeof_int \<longrightarrow> v = setting k))"

text \<open>A failed write of an option names an error.\<close>

definition writes_option :: "'k socket_api \<Rightarrow> int \<Rightarrow> int \<Rightarrow> int \<Rightarrow> bool" where
  "writes_option api fd level option_name \<longleftrightarrow>
     (\<forall>k v e k'. sys_setsockopt api k fd level option_name v = (Inl e, k') \<longrightarrow> 0 < e)"

lemma integer_socket_option_result:
  assumes "reads_option api fd level option_name setting"
    and "integer_socket_option api fd level option_name k = (out, k')"
  shows "setting k' = setting k \<and> (case out of Inl e \<Rightarrow> 0 < e | Inr v \<Rightarrow> v = setting k)"
proof -
  obtain o1 k1 where "sys_getsockopt api k fd level option_name = (o1, k1)" by fastforce
  then show ?thesis using assms unfolding integer_socket_option_def reads_option_def
    by (fastforce simp: EPROTO_def split: sum.splits prod.splits if_splits)
qed

lemma set_integer_socket_option_error:
  assumes "writes_option api fd level option_name"
    and "set_integer_socket_option api fd level option_name v k = (Inl e, k')"
  shows "0 < e"
  using assms unfolding set_integer_socket_option_def writes_option_def by (auto split: sum.splits prod.splits)

lemma configure_tcp_no_delay_result:
  assumes reads: "reads_option api fd IPPROTO_TCP TCP_NODELAY setting"
    and writes: "writes_option api fd IPPROTO_TCP TCP_NODELAY"
    and conf: "configure_tcp_no_delay api fd enabled k = (out, k')"
  shows "case out of Inl e \<Rightarrow> e \<noteq> 0 | Inr v \<Rightarrow> v = enabled \<and> (setting k' \<noteq> 0 \<longleftrightarrow> enabled)"
proof -
  obtain o1 k1 where set: "set_integer_socket_option api fd IPPROTO_TCP TCP_NODELAY (if enabled then 1 else 0) k = (o1, k1)"
    by fastforce
  obtain o2 k2 where get: "integer_socket_option api fd IPPROTO_TCP TCP_NODELAY k1 = (o2, k2)" by fastforce
  have "o1 = Inl e \<Longrightarrow> e \<noteq> 0" for e
    using set_integer_socket_option_error [OF writes] set by fastforce
  then show ?thesis
    using conf integer_socket_option_result [OF reads get]
    by (cases o1; cases o2)
      (auto simp: configure_tcp_no_delay_def tcp_no_delay_def set get EPROTO_def split: if_splits)
qed

lemma configure_busy_poll_budget_result:
  assumes reads: "reads_option api fd SOL_SOCKET SO_BUSY_POLL setting"
    and writes: "writes_option api fd SOL_SOCKET SO_BUSY_POLL"
    and conf: "configure_busy_poll_budget api fd requested k = (out, k')"
  shows "if 0 \<le> requested \<and> requested \<le> int_max
    then (case out of Inl e \<Rightarrow> e \<noteq> 0 | Inr v \<Rightarrow> v = requested \<and> setting k' = requested)
    else out = Inl EINVAL \<and> k' = k"
proof -
  obtain o1 k1 where set: "set_integer_socket_option api fd SOL_SOCKET SO_BUSY_POLL requested k = (o1, k1)"
    by fastforce
  obtain o2 k2 where get: "integer_socket_option api fd SOL_SOCKET SO_BUSY_POLL k1 = (o2, k2)" by fastforce
  have "o1 = Inl e \<Longrightarrow> e \<noteq> 0" for e
    using set_integer_socket_option_error [OF writes] set by fastforce
  then show ?thesis
    using conf integer_socket_option_result [OF reads get]
    by (cases o1; cases o2)
      (auto simp: configure_busy_poll_budget_def busy_poll_budget_def set get EPROTO_def split: if_splits)
qed

text \<open>C16: A socket option that was configured successfully has the requested setting: \<open>TCP_NODELAY\<close>
  is on exactly when it was asked for, the busy-poll budget equals the request. A budget that
  does not fit the kernel's non-negative integer is refused with \<open>EINVAL\<close> and no system call,
  and every failure carries an error.\<close>

theorem configured_option_holds:
  assumes "reads_option api fd IPPROTO_TCP TCP_NODELAY nodelay" "writes_option api fd IPPROTO_TCP TCP_NODELAY"
    and "reads_option api fd SOL_SOCKET SO_BUSY_POLL budget" "writes_option api fd SOL_SOCKET SO_BUSY_POLL"
  shows "(case configure_tcp_no_delay api fd enabled k of
       (Inl e, _) \<Rightarrow> e \<noteq> 0
     | (Inr v, k') \<Rightarrow> v = enabled \<and> (nodelay k' \<noteq> 0 \<longleftrightarrow> enabled)) \<and>
    (case configure_busy_poll_budget api fd requested k of
       (Inl e, k') \<Rightarrow> e \<noteq> 0 \<and> (requested < 0 \<or> int_max < requested \<longrightarrow> e = EINVAL \<and> k' = k)
     | (Inr v, k') \<Rightarrow> 0 \<le> requested \<and> requested \<le> int_max \<and> v = requested \<and> budget k' = requested)"
  using configure_tcp_no_delay_result [OF assms(1,2), of enabled k]
    configure_busy_poll_budget_result [OF assms(3,4), of requested k]
  by (auto simp: EINVAL_def split: prod.splits sum.splits if_splits)

theorem configured_option_holds_witness:
  "configure_tcp_no_delay log_api 3 True [] = (Inr True, [[]]) \<and> int (length [[] :: u8 list]) \<noteq> 0 \<and>
   configure_busy_poll_budget log_api 3 2 [] = (Inr 2, [[], []]) \<and> int (length [[], [] :: u8 list]) = 2"
proof -
  have "reads_option log_api 3 level opt (\<lambda>k. int (length k))" "writes_option log_api 3 level opt" for level opt
    by (auto simp: reads_option_def writes_option_def log_api_def)
  note configured_option_holds [OF this this, of True "[]" 2]
  moreover have "configure_tcp_no_delay log_api 3 True [] = (Inr True, [[]])"
    "configure_busy_poll_budget log_api 3 2 [] = (Inr 2, [[], []])"
    by code_simp+
  ultimately show ?thesis by simp
qed

end
