(* ===== verification/Socket_Channel.thy ===== *)
theory Socket_Channel
  imports Socket_Options
begin

text \<open>
  The primitives of both ends together: what one side sends over a channel is what the other
  receives. A stream channel is a kernel where accepted bytes become pending at the other
  end; a datagram channel appends an accepted datagram, with its source, to the other end's
  queue.
\<close>

unbundle bit_operations_syntax

section \<open>A channel\<close>

text \<open>
  The kernel of the instances: it interrupts a given number of calls, accepts at most two
  bytes of a stream at a time and delivers one, and has no data when it is empty.
\<close>

record channel =
  ch_interrupts :: nat
  ch_bytes :: "u8 list"
  ch_datagrams :: "(u8 list \<times> sockaddr_in) list"

definition interruptible :: "(channel \<Rightarrow> (int + 'a) \<times> channel) \<Rightarrow> channel \<Rightarrow> (int + 'a) \<times> channel" where
  "interruptible call k = (case ch_interrupts k of Suc n \<Rightarrow> (Inl EINTR, k\<lparr>ch_interrupts := n\<rparr>) | 0 \<Rightarrow> call k)"

definition channel_api :: "channel socket_api" where
  "channel_api = \<lparr>
     sys_getsockopt = (\<lambda>k fd level option. (Inr (0, 4), k)),
     sys_setsockopt = (\<lambda>k fd level option v. (Inr (), k)),
     sys_send = (\<lambda>k fd bytes flags. interruptible (\<lambda>k.
       if fd = 7 then (Inr (length bytes), k\<lparr>ch_datagrams := ch_datagrams k @ [(bytes, no_address)]\<rparr>)
       else (Inr (length (take 2 bytes)), k\<lparr>ch_bytes := ch_bytes k @ take 2 bytes\<rparr>)) k),
     sys_sendto = (\<lambda>k fd bytes flags to. interruptible (\<lambda>k.
       (Inr (length bytes), k\<lparr>ch_datagrams := ch_datagrams k @ [(bytes, no_address)]\<rparr>)) k),
     sys_recv = (\<lambda>k fd n flags. interruptible (\<lambda>k.
       case ch_bytes k of [] \<Rightarrow> (Inl EAGAIN, k) | b # bs \<Rightarrow> (Inr [b], k\<lparr>ch_bytes := bs\<rparr>)) k),
     sys_recvmsg = (\<lambda>k fd n flags. interruptible (\<lambda>k.
       case ch_datagrams k of [] \<Rightarrow> (Inl EAGAIN, k)
       | (payload, from') # ds \<Rightarrow> (Inr \<lparr>msg_wire = length payload, msg_bytes = take n payload, msg_peer = from',
           msg_namelen = 16, msg_out_flags = (if n < length payload then MSG_TRUNC else 0)\<rparr>,
           k\<lparr>ch_datagrams := ds\<rparr>)) k)\<rparr>"

lemmas channel_simps = channel_api_def interruptible_def

lemma channel_streams:
  "fd \<noteq> 7 \<Longrightarrow> sends_stream channel_api fd ch_bytes"
  "receives_stream channel_api fd flags ch_bytes"
  by (auto simp: sends_stream_def receives_stream_def channel_simps EINTR_def EAGAIN_def take_min_length min_def
      split: nat.splits list.splits if_splits)

lemma channel_interrupts:
  "interrupts_end (\<lambda>k. sys_send channel_api k fd bytes flags) ch_interrupts"
  "interrupts_end (\<lambda>k. sys_recv channel_api k fd n flags) ch_interrupts"
  "interrupts_end (\<lambda>k. sys_recvmsg channel_api k fd n flags) ch_interrupts"
  by (auto simp: interrupts_end_def channel_simps EAGAIN_def EINTR_def split: nat.splits list.splits if_splits)

section \<open>Streams\<close>

text \<open>C12: Over a stream channel, an exact send that completed followed by a blocking exact receive
  of the same length is the identity, however the kernel splits and interrupts both transfers:
  the receiver never sees a closed peer, and has the sender's bytes when it completes; when the
  kernel fails the receive, what arrived is at the front and the rest is still to come.\<close>

theorem stream_roundtrip:
  assumes "sends_stream api tx pending" "\<And>rest. interrupts_end (\<lambda>k. sys_send api k tx rest MSG_NOSIGNAL) patience"
    and "receives_stream api rx 0 pending" "\<And>n. interrupts_end (\<lambda>k. sys_recv api k rx n 0) patience"
    and "pending k = []" "length buffer = length bytes"
    and "send_all api tx bytes k = Some (s, k1)" "send_complete s (length bytes)"
  shows "\<exists>r buffer' k2. receive_exact_blocking api rx buffer k1 = Some (r, buffer', k2) \<and>
    (receive_complete r \<and> buffer' = bytes \<and> pending k2 = [] \<or>
     sr_state r = Error \<and> buffer' = take (bytes_received r) bytes @ drop (bytes_received r) buffer \<and>
       pending k2 = drop (bytes_received r) bytes)"
proof -
  have p: "pending k1 = bytes"
    using send_all_loop_result [OF assms(1,2), of 0 bytes k] assms(5,7,8)
    by (auto simp: send_all_def send_complete_def)
  have recv: "\<exists>r buffer' k2. receive_exact_blocking api rx buffer k1 = Some (r, buffer', k2) \<and>
      stream_receive_ok pending buffer 0 k1 r buffer' k2 \<and> sr_state r \<noteq> Stopped"
    using receive_exact_blocking_loop_result [OF assms(3,4), of "(0, buffer)" k1]
    by (simp add: receive_exact_blocking_def)
  then obtain r buffer' k2 where run: "receive_exact_blocking api rx buffer k1 = Some (r, buffer', k2)"
    and ok: "stream_receive_ok pending buffer 0 k1 r buffer' k2" and stop: "sr_state r \<noteq> Stopped"
    by blast
  obtain got where got: "bytes = got @ pending k2" "bytes_received r = length got" "length got \<le> length buffer"
      "buffer' = write_at buffer 0 got"
    and state: "sr_state r = Complete \<longleftrightarrow> bytes_received r = length buffer"
      "sr_state r = Peer_closed \<longrightarrow> pending k2 = []"
    using ok unfolding stream_receive_ok_def p by auto
  show ?thesis
  proof (cases "sr_state r = Complete")
    case True
    then have "pending k2 = [] \<and> buffer' = bytes" using state(1) got assms(6) by (auto simp: write_at_def)
    then show ?thesis using run True by (auto simp: receive_complete_def)
  next
    case False
    then have "pending k2 \<noteq> []" using state(1) got assms(6) by auto
    then have "sr_state r = Error" using state stop False by (cases "sr_state r") auto
    then show ?thesis using run got by (auto simp: write_at_def)
  qed
qed

theorem stream_roundtrip_witness:
  "\<exists>r buffer' k2. receive_exact_blocking channel_api 4 [0, 0, 0] \<lparr>ch_interrupts = 0, ch_bytes = [1, 2, 3], ch_datagrams = []\<rparr> =
      Some (r, buffer', k2) \<and> (receive_complete r \<and> buffer' = [1, 2, 3] \<or> sr_state r = Error)"
proof -
  let ?k = "\<lparr>ch_interrupts = 1, ch_bytes = [], ch_datagrams = []\<rparr>"
  let ?k1 = "\<lparr>ch_interrupts = 0, ch_bytes = [1, 2, 3], ch_datagrams = []\<rparr>"
  have "(3 :: int) \<noteq> 7" by simp
  note send = channel_streams(1) [OF this]
  have run: "send_all channel_api 3 [1, 2, 3] ?k = Some (\<lparr>bytes_sent = 3, send_error = 0\<rparr>, ?k1)"
    by (simp add: send_all_def send_all_loop.simps channel_simps)
  show ?thesis
    using stream_roundtrip [OF send channel_interrupts(1) channel_streams(2) channel_interrupts(2) _ _ run,
        of "[0, 0, 0]" 4]
    by (auto simp: send_complete_def)
qed

section \<open>Datagrams\<close>

definition queues_datagram :: "('k \<Rightarrow> (int + nat) \<times> 'k) \<Rightarrow> u8 list \<Rightarrow> sockaddr_in \<Rightarrow>
    ('k \<Rightarrow> (u8 list \<times> sockaddr_in) list) \<Rightarrow> bool" where
  "queues_datagram call bytes source queue \<longleftrightarrow>
     (\<forall>k n k'. call k = (Inr n, k') \<longrightarrow> n = length bytes \<and> queue k' = queue k @ [(bytes, source)]) \<and>
     (\<forall>k e k'. call k = (Inl e, k') \<longrightarrow> 0 < e \<and> queue k' = queue k)"

text \<open>C13: Over a datagram channel, a datagram sent on an empty queue, connected or not, is the one the
  next receive returns: when the send reports completion, a receive that succeeds has the sender
  as its peer, the payload's length as its wire length and the payload in the buffer, cut at the
  buffer's end exactly when it reports truncation; and until it succeeds the datagram stays queued.\<close>

theorem datagram_roundtrip:
  assumes "call = (\<lambda>k. sys_send api k tx bytes MSG_NOSIGNAL) \<and> send = send_connected_datagram api tx bytes \<or>
      call = (\<lambda>k. sys_sendto api k tx bytes MSG_NOSIGNAL destination) \<and> send = send_datagram_to api tx bytes destination"
    and "queues_datagram call bytes source queue" "interrupts_end call patience"
    and "receives_datagrams api rx MSG_TRUNC queue" "receives_datagrams api rx (MSG_DONTWAIT OR MSG_TRUNC) queue"
    and "\<And>flags. interrupts_end (\<lambda>k. sys_recvmsg api k rx (length buffer) flags) patience'"
    and "receive \<in> {receive_datagram_blocking, try_receive_datagram}"
    and "queue k = []"
  shows "\<exists>s k1 r buffer' k2. send k = Some (s, k1) \<and> receive api rx buffer k1 = Some (r, buffer', k2) \<and>
    (send_complete s (length bytes) \<longrightarrow>
       (if datagram_received r
        then peer r = source \<and> wire_bytes r = length bytes \<and> queue k2 = [] \<and>
          take (length bytes) buffer' = take (length buffer) bytes \<and>
          (truncated r (length buffer) \<longleftrightarrow> length buffer < length bytes)
        else queue k2 = [(bytes, source)] \<and> buffer' = buffer))"
proof -
  have "\<And>k k'. call k = (Inl EINTR, k') \<Longrightarrow> queue k' = queue k" using assms(2) unfolding queues_datagram_def by blast
  from retry_interrupted_send_returns [where call = call and obs = queue and k = k, OF assms(3) this]
  obtain outcome k0 k1 where retry: "retry_interrupted_send call k = Some (outcome, k1)"
    "call k0 = (outcome, k1)" "queue k0 = []"
    using assms(8) by auto
  let ?s = "datagram_send_result (length bytes) outcome"
  have send: "send k = Some (?s, k1)" using assms(1) retry(1) by (auto simp: send_connected_datagram_def send_datagram_to_def)
  have queued: "send_complete ?s (length bytes) \<longrightarrow> queue k1 = [(bytes, source)]"
    using assms(2) retry(2,3) unfolding queues_datagram_def
    by (cases outcome) (fastforce simp: datagram_send_result_def send_complete_def)+
  obtain r buffer' k2 where recv: "receive api rx buffer k1 = Some (r, buffer', k2)"
    and got: "if dg_state r = Received
     then \<exists>payload. queue k1 = (payload, peer r) # queue k2 \<and> wire_bytes r = length payload \<and>
       buffer' = take (length buffer) payload @ drop (length payload) buffer \<and>
       (truncated r (length buffer) \<longleftrightarrow> length buffer < length payload)
     else queue k2 = queue k1 \<and> buffer' = buffer"
    using receive_datagram_result [OF assms(4-7), of k1] by blast
  show ?thesis
  proof (intro exI conjI impI, rule send, rule recv)
    assume "send_complete ?s (length bytes)"
    then have "queue k1 = [(bytes, source)]" using queued by blast
    then show "if datagram_received r
        then peer r = source \<and> wire_bytes r = length bytes \<and> queue k2 = [] \<and>
          take (length bytes) buffer' = take (length buffer) bytes \<and>
          (truncated r (length buffer) \<longleftrightarrow> length buffer < length bytes)
        else queue k2 = [(bytes, source)] \<and> buffer' = buffer"
      using got by (auto simp: datagram_received_def min_def)
  qed
qed

lemma channel_datagrams:
  "queues_datagram (\<lambda>k. sys_send channel_api k 7 bytes flags) bytes no_address ch_datagrams"
  "receives_datagrams channel_api fd flags ch_datagrams"
  by (auto simp: queues_datagram_def receives_datagrams_def channel_simps EINTR_def EAGAIN_def MSG_TRUNC_def
      split: nat.splits list.splits)

theorem datagram_roundtrip_witness:
  "\<exists>s k1 r buffer' k2. send_connected_datagram channel_api 7 [1, 2] \<lparr>ch_interrupts = 1, ch_bytes = [], ch_datagrams = []\<rparr> =
      Some (s, k1) \<and> try_receive_datagram channel_api 8 [0] k1 = Some (r, buffer', k2) \<and>
    (send_complete s (length [1, 2 :: u8]) \<longrightarrow>
       (if datagram_received r then peer r = no_address \<and> wire_bytes r = length [1, 2 :: u8] \<and>
          truncated r (length [0 :: u8]) else ch_datagrams k2 = [([1, 2], no_address)]))"
proof -
  let ?k = "\<lparr>ch_interrupts = 1, ch_bytes = [], ch_datagrams = []\<rparr>"
  let ?call = "\<lambda>k. sys_send channel_api k 7 [1, 2] MSG_NOSIGNAL"
  have call: "?call = (\<lambda>k. sys_send channel_api k 7 [1, 2] MSG_NOSIGNAL) \<and>
      send_connected_datagram channel_api 7 [1, 2] = send_connected_datagram channel_api 7 [1, 2]" by simp
  have "try_receive_datagram \<in> {receive_datagram_blocking :: channel socket_api \<Rightarrow> _, try_receive_datagram}" "ch_datagrams ?k = []"
    by simp_all
  from datagram_roundtrip [OF disjI1 [OF call] channel_datagrams(1) channel_interrupts(1) channel_datagrams(2,2)
      channel_interrupts(3) this, of 8 "[0]"]
  obtain s k1 r buffer' k2 where "send_connected_datagram channel_api 7 [1, 2] ?k = Some (s, k1)"
    "try_receive_datagram channel_api 8 [0] k1 = Some (r, buffer', k2)"
    "send_complete s (length [1, 2 :: u8]) \<longrightarrow>
       (if datagram_received r then peer r = no_address \<and> wire_bytes r = length [1, 2 :: u8] \<and> ch_datagrams k2 = [] \<and>
          take (length [1, 2 :: u8]) buffer' = take (length [0 :: u8]) [1, 2] \<and>
          (truncated r (length [0 :: u8]) \<longleftrightarrow> length [0 :: u8] < length [1, 2 :: u8])
        else ch_datagrams k2 = [([1, 2], no_address)] \<and> buffer' = [0])"
    by blast
  then show ?thesis by (intro exI [of _ s] exI [of _ k1] exI [of _ r] exI [of _ buffer'] exI [of _ k2]) auto
qed

end
