(* ===== verification/Wire_Message.thy ===== *)
theory Wire_Message
  imports Sockets
begin

text \<open>
  The messages of \<open>socket_latency.cpp\<close>: an eight-byte header (magic, version, protocol and a
  32-bit sequence in network byte order) and a payload pattern. Buffers are byte lists of a
  fixed length; \<open>memcpy\<close> of an integer copies its bytes in the target's order, least
  significant first. An exception is \<open>Inl\<close> of what was thrown.
\<close>

unbundle bit_operations_syntax

section \<open>Byte order\<close>

definition memory_u16 :: "u16 \<Rightarrow> u8 list" where
  "memory_u16 w = [ucast w, ucast (drop_bit 8 w)]"

definition memory_u32 :: "u32 \<Rightarrow> u8 list" where
  "memory_u32 w = [ucast w, ucast (drop_bit 8 w), ucast (drop_bit 16 w), ucast (drop_bit 24 w)]"

text \<open>The value of an integer whose bytes are the given ones.\<close>

definition load_u16 :: "u8 list \<Rightarrow> u16" where
  "load_u16 bytes = ucast (bytes ! 0) OR push_bit 8 (ucast (bytes ! 1))"

definition load_u32 :: "u8 list \<Rightarrow> u32" where
  "load_u32 bytes = ucast (bytes ! 0) OR push_bit 8 (ucast (bytes ! 1)) OR
     push_bit 16 (ucast (bytes ! 2)) OR push_bit 24 (ucast (bytes ! 3))"

text \<open>The conversions between the target's and the network's order swap the bytes, either way.\<close>

definition htons :: "u16 \<Rightarrow> u16" where
  "htons w = load_u16 (rev (memory_u16 w))"

definition htonl :: "u32 \<Rightarrow> u32" where
  "htonl w = load_u32 (rev (memory_u32 w))"

lemma byte_bits: "bit (b :: u8) n \<Longrightarrow> n < 8"
  using bit_imp_le_length [of b n] by simp

lemma load_memory_u16 [simp]: "load_u16 (memory_u16 w) = w"
proof (rule bit_word_eqI)
  fix n assume "n < LENGTH(16)"
  then show "bit (load_u16 (memory_u16 w)) n \<longleftrightarrow> bit w n"
    by (cases "n < 8") (auto simp: load_u16_def memory_u16_def bit_simps)
qed

lemma load_memory_u32 [simp]: "load_u32 (memory_u32 w) = w"
proof (rule bit_word_eqI)
  fix n assume "n < LENGTH(32)"
  moreover have "n < 8 \<or> 8 \<le> n \<and> n < 16 \<or> 16 \<le> n \<and> n < 24 \<or> 24 \<le> n" by linarith
  ultimately show "bit (load_u32 (memory_u32 w)) n \<longleftrightarrow> bit w n"
    by (elim disjE conjE) (auto simp: load_u32_def memory_u32_def bit_simps)
qed

lemma memory_load_u16 [simp]: "memory_u16 (load_u16 [a, b]) = [a, b]"
  by (auto simp: load_u16_def memory_u16_def bit_simps dest: byte_bits intro!: bit_word_eqI)

lemma memory_load_u32 [simp]: "memory_u32 (load_u32 [a, b, c, d]) = [a, b, c, d]"
  unfolding load_u32_def memory_u32_def list.inject
  by (intro conjI refl bit_word_eqI; simp add: bit_simps; auto dest: byte_bits)

lemma memory_swapped:
  "memory_u16 (htons w) = rev (memory_u16 w)" "memory_u32 (htonl v) = rev (memory_u32 v)"
  by (simp_all add: htons_def htonl_def memory_u16_def [of w] memory_u32_def [of v])

lemma htons_twice [simp]: "htons (htons w) = w"
  by (simp add: htons_def [of "htons w"] memory_swapped)

section \<open>Headers and payloads\<close>

definition AF_INET :: u16 where "AF_INET = 2"

datatype protocol = Tcp | Udp

definition protocol_byte :: "protocol \<Rightarrow> u8" where
  "protocol_byte p = (case p of Tcp \<Rightarrow> 1 | Udp \<Rightarrow> 2)"

definition message_magic :: u16 where "message_magic = 0x4c53"
definition message_version :: u8 where "message_version = 1"

text \<open>What the benchmark throws: \<open>std::system_error\<close> with its operation and errno, or another exception.\<close>

datatype exception =
    System_error string int
  | Runtime_error string
  | Invalid_argument_error string

definition write_header :: "u8 list \<Rightarrow> protocol \<Rightarrow> u32 \<Rightarrow> exception + u8 list" where
  "write_header bytes selected_protocol sequence =
     (if length bytes < 8 then Inl (Invalid_argument_error ''wire message is smaller than its header'')
      else let network_magic = htons message_magic; network_sequence = htonl sequence;
               bytes = write_at bytes 0 (memory_u16 network_magic);
               bytes = bytes[2 := message_version];
               bytes = bytes[3 := protocol_byte selected_protocol]
        in Inr (write_at bytes 4 (memory_u32 network_sequence)))"

definition payload_byte :: "nat \<Rightarrow> u8" where
  "payload_byte index = (let mixed = (of_nat index :: u64) * 17 + 0xa5 in ucast (mixed AND 0xff))"

definition initialize_message :: "u8 list \<Rightarrow> protocol \<Rightarrow> exception + u8 list" where
  "initialize_message bytes selected_protocol =
     map_sum id (\<lambda>bytes. fold (\<lambda>index bytes. bytes[index := payload_byte index]) [8..<length bytes] bytes)
       (write_header bytes selected_protocol 0)"

definition read_sequence :: "u8 list \<Rightarrow> protocol \<Rightarrow> exception + u32" where
  "read_sequence bytes expected_protocol =
     (if length bytes < 8 then Inl (Runtime_error ''received message is smaller than its header'')
      else let network_magic = load_u16 (take 2 bytes); network_sequence = load_u32 (take 4 (drop 4 bytes))
        in if htons network_magic \<noteq> message_magic \<or> bytes ! 2 \<noteq> message_version \<or>
              bytes ! 3 \<noteq> protocol_byte expected_protocol
           then Inl (Runtime_error ''received message header is invalid'')
           else Inr (htonl network_sequence))"

definition same_endpoint :: "sockaddr_in \<Rightarrow> sockaddr_in \<Rightarrow> bool" where
  "same_endpoint left right \<longleftrightarrow> sin_family left = AF_INET \<and> sin_family right = AF_INET \<and>
     sin_port left = sin_port right \<and> sin_addr left = sin_addr right"

definition update_checksum :: "u64 \<Rightarrow> u32 \<Rightarrow> size_t \<Rightarrow> protocol \<Rightarrow> u64" where
  "update_checksum checksum sequence payload_bytes selected_protocol =
     (checksum XOR (ucast sequence + payload_bytes * 257 + ucast (protocol_byte selected_protocol))) * 1099511628211"

section \<open>The layout\<close>

definition header :: "protocol \<Rightarrow> u32 \<Rightarrow> u8 list" where
  "header p s = [0x4c, 0x53, message_version, protocol_byte p] @ rev (memory_u32 s)"

lemma length_header [simp]: "length (header p s) = 8"
  by (simp add: header_def memory_u32_def)

lemma memory_u32_eq_iff [simp]: "memory_u32 s = memory_u32 s' \<longleftrightarrow> s = s'"
  using load_memory_u32 by metis

lemma protocol_byte_eq_iff [simp]: "protocol_byte p = protocol_byte p' \<longleftrightarrow> p = p'"
  by (cases p; cases p') (simp_all add: protocol_byte_def)

lemma header_eq_iff [simp]: "header p s = header p' s' \<longleftrightarrow> p = p' \<and> s = s'"
  by (simp add: header_def)

lemma magic_bytes: "memory_u16 (htons message_magic) = [0x4c, 0x53]"
  by (simp add: memory_swapped) (simp add: memory_u16_def message_magic_def)

lemma length_eight: "length ys = 8 \<Longrightarrow> \<exists>a b c d e f g h. ys = [a, b, c, d, e, f, g, h]"
  by (simp add: numeral_eq_Suc length_Suc_conv) blast

lemma eight_bytes:
  assumes "8 \<le> length (bytes :: u8 list)"
  obtains a b c d e f g h rest where "bytes = a # b # c # d # e # f # g # h # rest"
proof -
  have "length (take 8 bytes) = 8" using assms by simp
  then obtain a b c d e f g h where "take 8 bytes = [a, b, c, d, e, f, g, h]" using length_eight by blast
  then have "bytes = [a, b, c, d, e, f, g, h] @ drop 8 bytes" by (metis append_take_drop_id)
  then show ?thesis by (simp add: that)
qed

lemma write_header_layout: "8 \<le> length bytes \<Longrightarrow> write_header bytes p s = Inr (header p s @ drop 8 bytes)"
  by (erule eight_bytes) (simp add: write_header_def Let_def magic_bytes memory_swapped(2) write_at_def header_def
      memory_u32_def [of s])

lemma write_header_short: "length bytes < 8 \<Longrightarrow> \<exists>e. write_header bytes p s = Inl e"
  by (simp add: write_header_def)

lemma htons_is_magic: "htons (load_u16 [a, b]) = message_magic \<longleftrightarrow> a = 0x4c \<and> b = 0x53"
proof -
  have "htons (load_u16 [a, b]) = message_magic \<longleftrightarrow> memory_u16 (htons (load_u16 [a, b])) = memory_u16 message_magic"
    using load_memory_u16 by metis
  also have "memory_u16 (htons (load_u16 [a, b])) = [b, a]" by (simp add: memory_swapped)
  finally show ?thesis by (auto simp: memory_u16_def message_magic_def)
qed

lemma read_sequence_layout: "read_sequence bytes p = Inr s \<longleftrightarrow> 8 \<le> length bytes \<and> take 8 bytes = header p s"
proof (cases "8 \<le> length bytes")
  case True
  then obtain a b c d e f g h rest where bytes: "bytes = a # b # c # d # e # f # g # h # rest" by (rule eight_bytes)
  have "htonl (load_u32 [e, f, g, h]) = s \<longleftrightarrow> memory_u32 (htonl (load_u32 [e, f, g, h])) = memory_u32 s"
    using load_memory_u32 by metis
  also have "\<dots> \<longleftrightarrow> [e, f, g, h] = rev (memory_u32 s)"
    using rev_swap [of "[e, f, g, h]" "memory_u32 s"] by (simp add: memory_swapped)
  finally have "htonl (load_u32 [e, f, g, h]) = s \<longleftrightarrow> [e, f, g, h] = rev (memory_u32 s)" .
  then show ?thesis by (auto simp: bytes read_sequence_def header_def htons_is_magic)
qed (simp add: read_sequence_def)

text \<open>The wire header round-trips: into any buffer with room for it, writing a header succeeds,
  changes nothing but the first eight bytes, and reading finds exactly the protocol and sequence
  that were written and rejects the other protocol; and a message reads as a given protocol and
  sequence only if writing that header would not change it. Shorter buffers are rejected by both.\<close>

theorem wire_header_roundtrip:
  shows "if 8 \<le> length bytes
    then (\<exists>m. write_header bytes p s = Inr m \<and> length m = length bytes \<and> drop 8 m = drop 8 bytes \<and>
        (\<forall>p' s'. read_sequence m p' = Inr s' \<longleftrightarrow> p' = p \<and> s' = s)) \<and>
      (read_sequence bytes p = Inr s \<longleftrightarrow> write_header bytes p s = Inr bytes)
    else (\<exists>e. write_header bytes p s = Inl e) \<and> (\<exists>e. read_sequence bytes p = Inl e)"
proof (cases "8 \<le> length bytes")
  case True
  have "\<exists>m. write_header bytes p s = Inr m \<and> length m = length bytes \<and> drop 8 m = drop 8 bytes \<and>
      (\<forall>p' s'. read_sequence m p' = Inr s' \<longleftrightarrow> p' = p \<and> s' = s)"
    using write_header_layout [OF True] True by (auto simp: read_sequence_layout)
  moreover have "read_sequence bytes p = Inr s \<longleftrightarrow> write_header bytes p s = Inr bytes"
    using True by (auto simp: write_header_layout read_sequence_layout)
      (metis append_eq_conv_conj append_take_drop_id length_header)+
  ultimately show ?thesis using True by simp
next
  case False
  then show ?thesis by (simp add: write_header_def read_sequence_def)
qed

section \<open>Whole messages\<close>

definition wire_message :: "nat \<Rightarrow> protocol \<Rightarrow> u32 \<Rightarrow> u8 list" where
  "wire_message n p s = header p s @ map payload_byte [8..<n]"

lemma fold_update:
  "m \<le> length xs \<Longrightarrow> fold (\<lambda>index ys. ys[index := f index]) [m..<length xs] xs = take m xs @ map f [m..<length xs]"
proof (induction "length xs - m" arbitrary: m xs)
  case (Suc k)
  then have m: "m < length xs" by simp
  have "fold (\<lambda>index ys. ys[index := f index]) [Suc m..<length (xs[m := f m])] (xs[m := f m]) =
      take (Suc m) (xs[m := f m]) @ map f [Suc m..<length (xs[m := f m])]"
    using Suc.hyps(2) m by (intro Suc.hyps(1)) simp_all
  moreover have "take (Suc m) (xs[m := f m]) = take m xs @ [f m]" using m by (simp add: take_Suc_conv_app_nth)
  ultimately show ?case using m by (simp add: upt_conv_Cons)
qed simp

lemma initialize_message_layout:
  assumes "8 \<le> n" "length bytes = n"
  shows "initialize_message bytes p = Inr (wire_message n p 0)"
proof -
  have len: "length (header p 0 @ drop 8 bytes) = n" using assms by simp
  show ?thesis
    using assms fold_update [of 8 "header p 0 @ drop 8 bytes" payload_byte, unfolded len]
    by (simp add: initialize_message_def write_header_layout wire_message_def)
qed

lemma rewrite_header: "8 \<le> n \<Longrightarrow> write_header (wire_message n p s) p' s' = Inr (wire_message n p' s')"
  by (simp add: write_header_layout wire_message_def)

lemma read_wire_message: "8 \<le> n \<Longrightarrow> read_sequence (wire_message n p s) p' = Inr s' \<longleftrightarrow> p' = p \<and> s' = s"
  by (auto simp: read_sequence_layout wire_message_def)

lemma wire_message_eq_iff [simp]: "wire_message n p s = wire_message n p' s' \<longleftrightarrow> p = p' \<and> s = s'"
  by (simp add: wire_message_def)

lemma length_wire_message [simp]: "8 \<le> n \<Longrightarrow> length (wire_message n p s) = n"
  by (simp add: wire_message_def)

end
