(* ===== verification/Text.thy ===== *)
theory Text
  imports Prelude "HOL-Library.Char_ord"
begin

text \<open>
  The character-level parts of the C++ standard library the programs use on their command
  lines and reports: decimal parsing as \<open>std::from_chars\<close> does it, decimal printing as
  \<open>std::to_string\<close> does it, and the two routines of the benchmarks themselves that print
  fixed-width hexadecimal words and quoted CSV fields.
\<close>

unbundle bit_operations_syntax

section \<open>Decimal digits\<close>

definition is_digit :: "char \<Rightarrow> bool" where
  "is_digit c \<longleftrightarrow> 48 \<le> (of_char c :: nat) \<and> (of_char c :: nat) \<le> 57"

definition digit_value :: "char \<Rightarrow> nat" where
  "digit_value c = of_char c - 48"

definition digits_value :: "string \<Rightarrow> nat" where
  "digits_value ds = foldl (\<lambda>n c. 10 * n + digit_value c) 0 ds"

definition digit_char :: "nat \<Rightarrow> char" where
  "digit_char d = char_of (48 + d)"

fun decimal :: "nat \<Rightarrow> string" where
  "decimal n = (if n < 10 then [digit_char n] else decimal (n div 10) @ [digit_char (n mod 10)])"

declare decimal.simps [simp del]

text \<open>\<open>std::to_string\<close> of a signed number.\<close>

definition decimal_int :: "int \<Rightarrow> string" where
  "decimal_int i = (if i < 0 then CHR ''-'' # decimal (nat (- i)) else decimal (nat i))"

lemma of_char_digit [simp]: "d < 10 \<Longrightarrow> (of_char (digit_char d) :: nat) = 48 + d"
  by (simp add: digit_char_def)

lemma digit_char_props [simp]:
  "d < 10 \<Longrightarrow> is_digit (digit_char d)" "d < 10 \<Longrightarrow> digit_value (digit_char d) = d"
  by (simp_all add: is_digit_def digit_value_def)

lemma digits_value_snoc [simp]: "digits_value (ds @ [c]) = 10 * digits_value ds + digit_value c"
  by (simp add: digits_value_def)

lemma digits_value_Nil [simp]: "digits_value [] = 0"
  by (simp add: digits_value_def)

lemma decimal_digits: "\<forall>c \<in> set (decimal n). is_digit c"
  by (induction n rule: decimal.induct, subst decimal.simps) auto

lemma decimal_nonempty [simp]: "decimal n \<noteq> []"
  by (subst decimal.simps) auto

lemma digits_value_decimal [simp]: "digits_value (decimal n) = n"
proof (induction n rule: decimal.induct)
  case (1 n)
  show ?case
  proof (cases "n < 10")
    case True
    then show ?thesis by (simp add: decimal.simps [of n] digits_value_def)
  next
    case False
    then show ?thesis using 1 by (simp add: decimal.simps [of n])
  qed
qed

section \<open>\<open>std::from_chars\<close>\<close>

datatype errc = Invalid_argument | Result_out_of_range

text \<open>
  The unsigned 64-bit instance: the longest run of digits at the start; no sign, no space, no
  prefix. The second component is what is left of the text, \<open>parsed_end\<close>.
\<close>

definition from_chars_u64 :: "string \<Rightarrow> (errc + u64) \<times> string" where
  "from_chars_u64 text =
     (let ds = takeWhile is_digit text
      in if ds = [] then (Inl Invalid_argument, text)
         else (if digits_value ds < 2 ^ 64 then Inr (of_nat (digits_value ds)) else Inl Result_out_of_range,
               dropWhile is_digit text))"

text \<open>The \<open>int\<close> instance takes a minus sign and is limited to 32 bits.\<close>

definition from_chars_int :: "string \<Rightarrow> (errc + int) \<times> string" where
  "from_chars_int text =
     (let negative = (text \<noteq> [] \<and> hd text = CHR ''-'');
          body = (if negative then tl text else text);
          ds = takeWhile is_digit body;
          v = (if negative then - int (digits_value ds) else int (digits_value ds))
      in if ds = [] then (Inl Invalid_argument, text)
         else (if - (2 ^ 31) \<le> v \<and> v < 2 ^ 31 then Inr v else Inl Result_out_of_range,
               dropWhile is_digit body))"

lemma from_chars_u64_whole:
  "from_chars_u64 text = (Inr v, []) \<longleftrightarrow>
     text \<noteq> [] \<and> (\<forall>c \<in> set text. is_digit c) \<and> digits_value text = unat v"
proof (cases "\<forall>c \<in> set text. is_digit c")
  case True
  then have whole: "takeWhile is_digit text = text" "dropWhile is_digit text = []" by simp_all
  show ?thesis
    unfolding from_chars_u64_def whole Let_def
    using True unat_lt_2p64 [of v] unat_of_nat64 [of "digits_value text"] by auto
next
  case False
  then have "dropWhile is_digit text \<noteq> []" by simp
  then show ?thesis using False by (auto simp: from_chars_u64_def Let_def)
qed

lemma from_chars_u64_decimal: "from_chars_u64 (decimal (unat v)) = (Inr v, [])"
  using decimal_digits by (simp add: from_chars_u64_whole)

section \<open>Hexadecimal words\<close>

definition hex_digit :: "nat \<Rightarrow> char" where
  "hex_digit d = char_of (if d < 10 then 48 + d else 87 + d)"

definition hex_value :: "char \<Rightarrow> nat" where
  "hex_value c = (if is_digit c then of_char c - 48 else of_char c - 87)"

text \<open>\<open>std::hex\<close> with width 16 and fill character 0.\<close>

definition hex64 :: "u64 \<Rightarrow> string" where
  "hex64 w = map (\<lambda>i. hex_digit (unat w div 16 ^ i mod 16)) (rev [0..<16])"

definition unhex :: "string \<Rightarrow> nat" where
  "unhex s = foldl (\<lambda>n c. 16 * n + hex_value c) 0 s"

lemma hex_value_digit [simp]: "d < 16 \<Longrightarrow> hex_value (hex_digit d) = d"
  by (auto simp: hex_value_def hex_digit_def is_digit_def)

lemma unhex_digits:
  "unhex (map (\<lambda>i. hex_digit (n div 16 ^ i mod 16)) (rev [0..<k])) = n mod 16 ^ k"
proof (induction k arbitrary: n)
  case (Suc k)
  have shift: "rev [0..<Suc k] = map Suc (rev [0..<k]) @ [0]"
    by (simp add: upt_conv_Cons rev_map flip: map_Suc_upt del: upt_Suc)
  have "unhex (map (\<lambda>i. hex_digit (n div 16 ^ i mod 16)) (rev [0..<Suc k])) =
      16 * unhex (map (\<lambda>i. hex_digit (n div 16 div 16 ^ i mod 16)) (rev [0..<k])) + n mod 16"
    unfolding shift by (simp add: unhex_def o_def div_mult2_eq)
  also have "\<dots> = 16 * (n div 16 mod 16 ^ k) + n mod 16" by (simp add: Suc.IH)
  also have "\<dots> = n mod 16 ^ Suc k" by (simp add: mod_mult2_eq)
  finally show ?case .
qed (simp add: unhex_def)

section \<open>CSV fields\<close>

fun csv_body :: "string \<Rightarrow> string" where
  "csv_body [] = []"
| "csv_body (c # cs) =
     (if c = CHR 0x0D \<or> c = CHR 0x0A then CHR '' '' # csv_body cs
      else if c = CHR 0x22 then CHR 0x22 # c # csv_body cs
      else c # csv_body cs)"

definition csv_field :: "string \<Rightarrow> string" where
  "csv_field v = CHR 0x22 # csv_body v @ [CHR 0x22]"

text \<open>The latency benchmark's variant tests for the quote first.\<close>

fun latency_csv_body :: "string \<Rightarrow> string" where
  "latency_csv_body [] = []"
| "latency_csv_body (c # cs) =
     (if c = CHR 0x22 then CHR 0x22 # CHR 0x22 # latency_csv_body cs
      else if c = CHR 0x0D \<or> c = CHR 0x0A then CHR '' '' # latency_csv_body cs
      else c # latency_csv_body cs)"

definition latency_csv_field :: "string \<Rightarrow> string" where
  "latency_csv_field v = CHR 0x22 # latency_csv_body v @ [CHR 0x22]"

text \<open>A row as the emitters print it, and a reader of quoted fields.\<close>

fun csv_row :: "string list \<Rightarrow> string" where
  "csv_row [] = []"
| "csv_row [f] = csv_field f"
| "csv_row (f # fs) = csv_field f @ CHR '','' # csv_row fs"

fun read_quoted :: "string \<Rightarrow> (string \<times> string) option" where
  "read_quoted [] = None"
| "read_quoted (c # cs) =
     (if c \<noteq> CHR 0x22 then map_option (\<lambda>(f, rest). (c # f, rest)) (read_quoted cs)
      else case cs of
        [] \<Rightarrow> Some ([], [])
      | d # ds \<Rightarrow> if d = CHR 0x22 then map_option (\<lambda>(f, rest). (c # f, rest)) (read_quoted ds)
                 else Some ([], cs))"

definition one_line :: "string \<Rightarrow> string" where
  "one_line v = map (\<lambda>c. if c = CHR 0x0D \<or> c = CHR 0x0A then CHR '' '' else c) v"

lemma read_quoted_field:
  "rest = [] \<or> hd rest \<noteq> CHR 0x22 \<Longrightarrow>
     read_quoted (csv_body v @ CHR 0x22 # rest) = Some (one_line v, rest)"
  by (induction v) (auto simp: one_line_def split: list.splits)

text \<open>\<open>n\<close> fields separated by commas.\<close>

fun read_row :: "nat \<Rightarrow> string \<Rightarrow> string list option" where
  "read_row 0 s = (if s = [] then Some [] else None)"
| "read_row (Suc n) s =
     (case s of
        [] \<Rightarrow> None
      | c # cs \<Rightarrow> if c \<noteq> CHR 0x22 then None
          else case read_quoted cs of
            None \<Rightarrow> None
          | Some (f, rest) \<Rightarrow>
              if n = 0 then (if rest = [] then Some [f] else None)
              else case rest of
                [] \<Rightarrow> None
              | d # ds \<Rightarrow> if d = CHR '','' then map_option ((#) f) (read_row n ds) else None)"


lemma read_row_csv_row:
  "read_row (length fs) (csv_row fs) = Some (map one_line fs)"
proof (induction fs rule: csv_row.induct)
  case (2 f)
  then show ?case using read_quoted_field [of "[]" f] by (simp add: csv_field_def)
next
  case (3 f g fs)
  then show ?case using read_quoted_field [of "CHR '','' # csv_row (g # fs)" f]
    by (simp add: csv_field_def)
qed simp

section \<open>Properties\<close>

text \<open>A row of quoted fields reads back as its fields, each with its line breaks turned
  into spaces: quotes, commas and any other character of a run or build label cannot break
  the row or shift a field.\<close>

theorem csv_row_roundtrip: "read_row (length fs) (csv_row fs) = Some (map one_line fs)"
  by (rule read_row_csv_row)

text \<open>The latency benchmark's differently written quoting gives the same field.\<close>

theorem csv_fields_agree: "latency_csv_field v = csv_field v"
proof -
  have "latency_csv_body v = csv_body v" by (induction v) auto
  then show ?thesis by (simp add: latency_csv_field_def csv_field_def)
qed

text \<open>A checksum is printed as exactly sixteen hexadecimal digits that read back as it.\<close>

theorem hex64_roundtrip: "length (hex64 w) = 16 \<and> unhex (hex64 w) = unat w"
  using unhex_digits [of "unat w" 16] by (simp add: hex64_def)

end
