(* ===== verification/Socket_Workloads.thy ===== *)
theory Socket_Workloads
  imports Wire_Message Text
begin

text \<open>
  The command line of \<open>socket_latency.cpp\<close> and the order of its workloads: the profile table,
  the option parser with its checks, the list of workloads a configuration selects, and the
  Williams order in which each run executes them. The list of arguments is \<open>argv\<close> without the
  program's name; \<open>Inr None\<close> is the exit after \<open>--help\<close>.
\<close>

section \<open>Profiles\<close>

datatype wait_strategy = Kernel | Spin

record profile_spec =
  pf_name :: string
  supports_tcp :: bool
  supports_udp :: bool
  receive_wait :: wait_strategy
  tcp_nodelay :: bool
  tcp_quickack_rearm :: bool
  udp_connected :: bool
  busy_poll_us :: int

definition profile_of :: "string \<Rightarrow> bool \<Rightarrow> bool \<Rightarrow> wait_strategy \<Rightarrow> bool \<Rightarrow> bool \<Rightarrow> bool \<Rightarrow> int \<Rightarrow> profile_spec" where
  "profile_of name tcp udp w nodelay quickack connected budget =
     \<lparr>pf_name = name, supports_tcp = tcp, supports_udp = udp, receive_wait = w, tcp_nodelay = nodelay,
      tcp_quickack_rearm = quickack, udp_connected = connected, busy_poll_us = budget\<rparr>"

definition profiles :: "profile_spec list" where
  "profiles = [
     profile_of ''baseline'' True True Kernel False False False 0,
     profile_of ''tcp-nodelay'' True False Kernel True False False 0,
     profile_of ''tcp-spin'' True False Spin False False False 0,
     profile_of ''tcp-nodelay-spin'' True False Spin True False False 0,
     profile_of ''tcp-quickack'' True False Kernel False True False 0,
     profile_of ''tcp-nodelay-quickack'' True False Kernel True True False 0,
     profile_of ''tcp-nodelay-quickack-spin'' True False Spin True True False 0,
     profile_of ''udp-connected'' False True Kernel False False True 0,
     profile_of ''udp-spin'' False True Spin False False False 0,
     profile_of ''udp-connected-spin'' False True Spin False False True 0,
     profile_of ''busy-poll-50'' True True Kernel False False False 50,
     profile_of ''tcp-nodelay-busy-poll-50'' True False Kernel True False False 50,
     profile_of ''udp-connected-busy-poll-50'' False True Kernel False False True 50]"

definition payload_sizes :: "size_t list" where
  "payload_sizes = [8, 64, 256, 1400]"

record socket_options =
  so_warmup :: size_t
  so_samples :: size_t
  so_runs :: size_t
  so_client_cpu :: int
  so_server_cpu :: int
  so_udp_timeout_ms :: size_t
  so_profile :: profile_spec
  so_protocol_filter :: "protocol option"
  so_payload_filter :: "size_t option"

definition default_socket_options :: socket_options where
  "default_socket_options = \<lparr>so_warmup = 20000, so_samples = 200000, so_runs = 8, so_client_cpu = - 1,
     so_server_cpu = - 1, so_udp_timeout_ms = 100, so_profile = hd profiles, so_protocol_filter = None,
     so_payload_filter = None\<rparr>"

section \<open>Option values\<close>

definition parse_size :: "string \<Rightarrow> string \<Rightarrow> exception + size_t" where
  "parse_size text option_name =
     (case from_chars_u64 text of
        (Inr parsed, []) \<Rightarrow> if parsed = 0 then Inl (Invalid_argument_error (option_name @ '' requires a positive integer''))
          else Inr parsed
      | _ \<Rightarrow> Inl (Invalid_argument_error (option_name @ '' requires a positive integer'')))"

definition parse_cpu_index :: "string \<Rightarrow> string \<Rightarrow> exception + int" where
  "parse_cpu_index text option_name =
     (case from_chars_int text of
        (Inr parsed, []) \<Rightarrow> if parsed < 0 then Inl (Invalid_argument_error (option_name @ '' requires a non-negative integer''))
          else Inr parsed
      | _ \<Rightarrow> Inl (Invalid_argument_error (option_name @ '' requires a non-negative integer'')))"

definition parse_profile :: "string \<Rightarrow> exception + profile_spec" where
  "parse_profile name =
     (case find (\<lambda>p. pf_name p = name) profiles of
        None \<Rightarrow> Inl (Invalid_argument_error (''unknown socket profile: '' @ name))
      | Some found \<Rightarrow> Inr found)"

definition parse_protocol :: "string \<Rightarrow> exception + protocol" where
  "parse_protocol name =
     (if name = ''tcp'' then Inr Tcp else if name = ''udp'' then Inr Udp
      else Inl (Invalid_argument_error ''--protocol requires tcp or udp''))"

definition parse_payload :: "string \<Rightarrow> exception + size_t" where
  "parse_payload text =
     (case parse_size text ''--payload'' of
        Inl e \<Rightarrow> Inl e
      | Inr parsed \<Rightarrow> if parsed \<notin> set payload_sizes
          then Inl (Invalid_argument_error ''--payload requires 8, 64, 256, or 1400'') else Inr parsed)"

section \<open>The parser\<close>

definition takes_value :: "string \<Rightarrow> bool" where
  "takes_value option \<longleftrightarrow> option \<in> set [''--warmup'', ''--samples'', ''--runs'', ''--client-cpu'', ''--server-cpu'',
     ''--udp-timeout-ms'', ''--profile'', ''--protocol'', ''--payload'']"

definition set_socket_option :: "socket_options \<Rightarrow> string \<Rightarrow> string \<Rightarrow> exception + socket_options" where
  "set_socket_option c option v =
     (if option = ''--warmup'' then map_sum id (\<lambda>n. c\<lparr>so_warmup := n\<rparr>) (parse_size v option)
      else if option = ''--samples'' then map_sum id (\<lambda>n. c\<lparr>so_samples := n\<rparr>) (parse_size v option)
      else if option = ''--runs'' then map_sum id (\<lambda>n. c\<lparr>so_runs := n\<rparr>) (parse_size v option)
      else if option = ''--client-cpu'' then map_sum id (\<lambda>n. c\<lparr>so_client_cpu := n\<rparr>) (parse_cpu_index v option)
      else if option = ''--server-cpu'' then map_sum id (\<lambda>n. c\<lparr>so_server_cpu := n\<rparr>) (parse_cpu_index v option)
      else if option = ''--udp-timeout-ms'' then map_sum id (\<lambda>n. c\<lparr>so_udp_timeout_ms := n\<rparr>) (parse_size v option)
      else if option = ''--profile'' then map_sum id (\<lambda>p. c\<lparr>so_profile := p\<rparr>) (parse_profile v)
      else if option = ''--protocol'' then map_sum id (\<lambda>p. c\<lparr>so_protocol_filter := Some p\<rparr>) (parse_protocol v)
      else map_sum id (\<lambda>n. c\<lparr>so_payload_filter := Some n\<rparr>) (parse_payload v))"

definition supports :: "profile_spec \<Rightarrow> protocol \<Rightarrow> bool" where
  "supports p selected = (case selected of Tcp \<Rightarrow> supports_tcp p | Udp \<Rightarrow> supports_udp p)"

definition check_socket_options :: "socket_options \<Rightarrow> exception + socket_options" where
  "check_socket_options c =
     (let maximum_sequence = 0xffffffff
      in if so_warmup c > maximum_sequence \<or> so_samples c > maximum_sequence - so_warmup c
         then Inl (Invalid_argument_error ''warmup plus samples exceeds the 32-bit wire sequence'')
         else if so_udp_timeout_ms c > 60000 then Inl (Invalid_argument_error ''UDP timeout cannot exceed 60000 ms'')
         else case so_protocol_filter c of
           Some selected \<Rightarrow> if \<not> supports (so_profile c) selected
             then Inl (Invalid_argument_error ''profile does not support the selected protocol'') else Inr c
         | None \<Rightarrow> if \<not> supports_tcp (so_profile c) \<or> \<not> supports_udp (so_profile c)
             then Inl (Invalid_argument_error ''protocol-specific profile requires --protocol'') else Inr c)"

fun parse_options_loop :: "socket_options \<Rightarrow> string list \<Rightarrow> exception + socket_options option" where
  "parse_options_loop c [] = map_sum id Some (check_socket_options c)"
| "parse_options_loop c (argument # args) =
     (if takes_value argument
      then case args of
          [] \<Rightarrow> Inl (Invalid_argument_error (argument @ '' requires a value''))
        | v # rest \<Rightarrow> (case set_socket_option c argument v of Inl e \<Rightarrow> Inl e | Inr c' \<Rightarrow> parse_options_loop c' rest)
      else if argument = ''--self-test''
      then parse_options_loop (c\<lparr>so_warmup := 32, so_samples := 256, so_runs := 1\<rparr>) args
      else if argument = ''--help'' then Inr None
      else Inl (Invalid_argument_error (''unknown option: '' @ argument)))"

definition parse_options :: "string list \<Rightarrow> exception + socket_options option" where
  "parse_options args = parse_options_loop default_socket_options args"

text \<open>The CPUs the process may run on, in ascending order, are the kernel's answer.\<close>

definition resolve_affinity :: "int list \<Rightarrow> socket_options \<Rightarrow> exception + socket_options" where
  "resolve_affinity cpus c =
     (if (so_client_cpu c < 0) \<noteq> (so_server_cpu c < 0)
      then Inl (Invalid_argument_error ''set both --client-cpu and --server-cpu, or neither'')
      else if so_client_cpu c < 0 \<and> length cpus < 2
      then Inl (Runtime_error ''socket benchmark requires two available CPUs'')
      else let c = (if so_client_cpu c < 0 then c\<lparr>so_client_cpu := cpus ! 0, so_server_cpu := cpus ! 1\<rparr> else c)
        in if so_client_cpu c = so_server_cpu c
           then Inl (Invalid_argument_error ''client and server CPUs must differ'') else Inr c)"

section \<open>Workloads\<close>

definition selects :: "socket_options \<Rightarrow> protocol \<Rightarrow> size_t \<Rightarrow> bool" where
  "selects c p payload_bytes \<longleftrightarrow>
     (so_payload_filter c = None \<or> so_payload_filter c = Some payload_bytes) \<and>
     (so_protocol_filter c = None \<or> so_protocol_filter c = Some p)"

definition canonical_workloads :: "socket_options \<Rightarrow> (protocol \<times> size_t) list" where
  "canonical_workloads c = concat (map (\<lambda>payload_bytes.
     (if selects c Tcp payload_bytes then [(Tcp, payload_bytes)] else []) @
     (if selects c Udp payload_bytes then [(Udp, payload_bytes)] else [])) payload_sizes)"

definition williams_entry :: "size_t \<Rightarrow> size_t \<Rightarrow> size_t" where
  "williams_entry width position =
     (if position = 0 then 0 else if position mod 2 \<noteq> 0 then (position + 1) div 2 else width - position div 2)"

definition williams_first_row :: "size_t \<Rightarrow> exception + size_t list" where
  "williams_first_row width =
     (if width = 0 \<or> (width > 1 \<and> width mod 2 \<noteq> 0)
      then Inl (Invalid_argument_error ''Williams ordering requires one or an even workload count'')
      else Inr (map (\<lambda>position. williams_entry width (of_nat position)) [0..<unat width]))"

text \<open>The workloads of run \<open>run\<close>, in the order of their positions.\<close>

definition run_order :: "size_t list \<Rightarrow> 'w list \<Rightarrow> size_t \<Rightarrow> 'w list" where
  "run_order order workloads run =
     map (\<lambda>entry. workloads ! unat ((entry + run) mod of_nat (length workloads))) order"

definition schedule :: "socket_options \<Rightarrow> size_t \<Rightarrow> exception + (protocol \<times> size_t) list" where
  "schedule c run =
     (let workloads = canonical_workloads c
      in map_sum id (\<lambda>order. run_order order workloads run) (williams_first_row (of_nat (length workloads))))"

section \<open>Williams designs\<close>

text \<open>The entries as numbers, for an even width: the first row of a Williams design.\<close>

definition williams :: "nat \<Rightarrow> nat \<Rightarrow> nat" where
  "williams w p = (if even p then (w - p div 2) mod w else (p + 1) div 2)"

lemma williams_range: "even w \<Longrightarrow> p < w \<Longrightarrow> williams w p < w"
  by (auto simp: williams_def elim!: evenE oddE)

lemma williams_mod: "even w \<Longrightarrow> p < w \<Longrightarrow>
    williams w p = (if p = 0 then 0 else if odd p then (p + 1) div 2 else w - p div 2)"
  by (auto simp: williams_def)

lemma williams_inj:
  assumes "even w"
  shows "inj_on (williams w) {..<w}"
proof (rule inj_onI)
  fix p q assume pq: "p \<in> {..<w}" "q \<in> {..<w}" and eq: "williams w p = williams w q"
  have small: "odd p \<Longrightarrow> p < w \<Longrightarrow> 1 \<le> williams w p \<and> 2 * williams w p \<le> w" 
    and large: "even p \<Longrightarrow> p < w \<Longrightarrow> p \<noteq> 0 \<Longrightarrow> w < 2 * williams w p" for p
    using assms by (auto simp: williams_mod elim!: evenE oddE)
  show "p = q"
    using pq eq small [of p] small [of q] large [of p] large [of q] assms
    by (cases "even p"; cases "even q"; cases "p = 0"; cases "q = 0") (auto simp: williams_mod elim!: evenE oddE)
qed

text \<open>Neighbours differ by a different amount at every place.\<close>

definition step :: "nat \<Rightarrow> nat \<Rightarrow> nat" where
  "step w p = (if even p then Suc p else w - Suc p)"

lemma williams_step:
  assumes "even w" "Suc p < w"
  shows "(williams w p + step w p) mod w = williams w (Suc p)" "0 < step w p" "step w p < w"
proof -
  show "0 < step w p" "step w p < w" using assms by (auto simp: step_def)
  show "(williams w p + step w p) mod w = williams w (Suc p)"
  proof (cases "even p")
    case True
    then obtain k where p: "p = 2 * k" by (rule evenE)
    have "(williams w p + step w p) mod w = ((w - k) + (2 * k + 1)) mod w"
      using True using mod_add_left_eq [of "w - k" w "2 * k + 1"] by (simp add: williams_def step_def p)
    also have "(w - k) + (2 * k + 1) = w + (k + 1)" using assms p by simp
    also have "(w + (k + 1)) mod w = k + 1" using assms p by (simp only: mod_add_self1) simp
    finally show ?thesis using assms p by (simp add: williams_def)
  next
    case False
    then obtain k where p: "p = 2 * k + 1" by (rule oddE)
    then show ?thesis using assms by (simp add: williams_def step_def)
  qed
qed

lemma step_inj:
  assumes "even w" "Suc p < w" "Suc q < w" "step w p = step w q"
  shows "p = q"
  using assms by (auto simp: step_def split: if_splits) presburger+

lemma step_surj:
  assumes "even w" "0 < d" "d < w"
  shows "\<exists>p. Suc p < w \<and> step w p = d"
proof (cases "even d")
  case True
  then have "odd (w - Suc d)" "Suc (w - Suc d) < w" "step w (w - Suc d) = d" using assms by (auto simp: step_def)
  then show ?thesis by blast
next
  case False
  then have "even (d - 1)" "Suc (d - 1) < w \<or> d = w - 1" "step w (d - 1) = d" using assms by (auto simp: step_def)
  then show ?thesis using assms by (metis Suc_diff_1)
qed

text \<open>The entry at a place of a row, the row of run \<open>r\<close> being the first one shifted by \<open>r\<close>.\<close>

definition entry :: "nat \<Rightarrow> nat \<Rightarrow> nat \<Rightarrow> nat" where
  "entry w r p = (williams w p + r) mod w"

lemma mod_add_cancel_lt:
  "(a + r) mod w = (b + r) mod w \<Longrightarrow> a < w \<Longrightarrow> b < w \<Longrightarrow> a = (b :: nat)"
  using mod_add_inj [of r a w b] by (simp add: add.commute)

lemma entry_row:
  assumes "even w" "0 < w"
  shows "inj_on (entry w r) {..<w}" "entry w r ` {..<w} = {..<w}"
proof -
  show inj: "inj_on (entry w r) {..<w}"
    using williams_inj [OF assms(1)] williams_range [OF assms(1)]
    by (auto simp: inj_on_def entry_def dest!: mod_add_cancel_lt)
  have "entry w r ` {..<w} \<subseteq> {..<w}" using assms(2) by (auto simp: entry_def)
  then show "entry w r ` {..<w} = {..<w}"
    using inj by (simp add: endo_inj_surj)
qed

text \<open>Every ordered pair of different entries are neighbours in exactly one of \<open>w\<close> rows.\<close>

lemma entry_neighbours:
  assumes w: "even w" and ab: "a < w" "b < w" "a \<noteq> b"
  shows "\<exists>!(r, p). r < w \<and> Suc p < w \<and> entry w r p = a \<and> entry w r (Suc p) = b"
proof -
  have next_entry: "entry w r (Suc p) = (entry w r p + step w p) mod w" if "Suc p < w" for r p
  proof -
    have "entry w r (Suc p) = (williams w p + step w p + r) mod w"
      unfolding entry_def williams_step(1) [OF w that, symmetric] by (rule mod_add_left_eq)
    then show ?thesis by (simp add: entry_def mod_simps ac_simps)
  qed
  define d where "d = (if a < b then b - a else b + w - a)"
  have d: "0 < d" "d < w" "(a + d) mod w = b" using ab by (auto simp: d_def)
  obtain p where p: "Suc p < w" "step w p = d" using step_surj [OF w d(1,2)] by blast
  define r where "r = (a + (w - williams w p)) mod w"
  have wp: "williams w p < w" using williams_range [OF w] p(1) by simp
  have ra: "r < w" "entry w r p = a" using ab(1) wp by (simp_all add: r_def entry_def mod_simps)
  have rb: "entry w r (Suc p) = b" using next_entry [OF p(1)] ra(2) p(2) d(3) by simp
  have unique: "q = p \<and> t = r" if tq: "t < w" "Suc q < w" "entry w t q = a" "entry w t (Suc q) = b" for t q
  proof -
    have "(a + step w q) mod w = (a + d) mod w" using next_entry [OF tq(2), of t] tq d by simp
    then have "step w q = d" using mod_add_inj [of a "step w q" w d] williams_step(3) [OF w tq(2)] d(2) by simp
    then have "q = p" using step_inj [OF w tq(2) p(1)] p(2) by simp
    moreover have "t = r"
      using mod_add_inj [of "williams w p" t w r] tq(1,3) ra \<open>q = p\<close> by (simp add: entry_def)
    ultimately show ?thesis by simp
  qed
  show ?thesis
  proof (rule ex1I [of _ "(r, p)"])
    show "z = (r, p)" if "case z of (r, p) \<Rightarrow> r < w \<and> Suc p < w \<and> entry w r p = a \<and> entry w r (Suc p) = b" for z
      using that unique [of "fst z" "snd z"] by (cases z) simp
  qed (simp add: ra rb p)
qed

section \<open>The program's rows\<close>

lemma unat_williams_entry:
  assumes "p < w" "w < 2 ^ 64"
  shows "unat (williams_entry (of_nat w) (of_nat p)) =
    (if p = 0 then 0 else if odd p then (p + 1) div 2 else w - p div 2)"
proof -
  let ?p = "of_nat p :: size_t" and ?w = "of_nat w :: size_t"
  have u: "unat ?p = p" "unat ?w = w" using assms by (simp_all add: unat_of_nat64)
  have "?p = 0 \<longleftrightarrow> p = 0" "?p mod 2 = 0 \<longleftrightarrow> even p"
    by (simp_all add: word_unat_eq_iff [of ?p] word_unat_eq_iff [of "?p mod 2"] unat_mod u even_iff_mod_2_eq_zero)
  moreover have "unat (?p + 1) = p + 1" using assms u unat_add_no_wrap [of ?p 1] by simp
  moreover have "unat (?w - ?p div 2) = w - p div 2"
    using assms u unat_sub_le [of "?p div 2" ?w] by (simp add: u64_le_unat unat_div)
  ultimately show ?thesis by (auto simp: williams_entry_def unat_div u)
qed

lemma first_row_williams:
  assumes "even w" "0 < w" "w < 2 ^ 64" "williams_first_row (of_nat w) = Inr order"
  shows "map unat order = map (williams w) [0..<w]"
proof -
  have "order = map (\<lambda>p. williams_entry (of_nat w) (of_nat p)) [0..<w]"
    using assms(3,4) by (auto simp: williams_first_row_def unat_of_nat64 split: if_splits)
  then show ?thesis using assms(1,3) by (auto simp: unat_williams_entry williams_mod)
qed

lemma first_row_defined:
  assumes "w = 1 \<or> even w" "0 < w" "w < 2 ^ 64"
  shows "\<exists>order. williams_first_row (of_nat w) = Inr order"
proof -
  have u: "unat (of_nat w :: size_t) = w" using assms(3) by (rule unat_of_nat64)
  have "(of_nat w :: size_t) \<noteq> 0" "even w \<Longrightarrow> (of_nat w :: size_t) mod 2 = 0"
    using assms(2) by (simp_all add: word_unat_eq_iff [where 'a = 64] unat_mod u even_iff_mod_2_eq_zero)
  then show ?thesis using assms(1) by (auto simp: williams_first_row_def)
qed

text \<open>A run's order in terms of the entries; the width divides the range of the run counter.\<close>

lemma run_order_entries:
  assumes n: "length ws = 2 ^ k" "0 < k" "k < 64" and "williams_first_row (of_nat (length ws)) = Inr order"
  shows "run_order order ws run = map (\<lambda>p. ws ! entry (length ws) (unat run) p) [0..<length ws]"
proof -
  have len: "length ws < 2 ^ 64" unfolding n(1) using n(3) by (intro power_strict_increasing) simp_all
  then have u: "unat (of_nat (length ws) :: size_t) = 2 ^ k" using n(1) by (simp only: unat_of_nat64)
  have "unat ((e + run) mod of_nat (length ws)) = (unat e + unat run) mod length ws" for e
    using unat_add_mod_power2 [OF u n(3), of e run] u n(1) by (simp add: unat_mod)
  then have "run_order order ws run = map ((\<lambda>e. ws ! ((e + unat run) mod length ws)) \<circ> unat) order"
    by (simp add: run_order_def)
  also have "\<dots> = map (\<lambda>e. ws ! ((e + unat run) mod length ws)) (map unat order)" by simp
  also have "map unat order = map (williams (length ws)) [0..<length ws]"
    using first_row_williams [OF _ _ len assms(4)] n by simp
  finally show ?thesis by (simp add: entry_def comp_def)
qed

lemma run_order_row:
  assumes "length ws = 2 ^ k" "0 < k" "k < 64" "williams_first_row (of_nat (length ws)) = Inr order" "distinct ws"
  shows "distinct (run_order order ws run)" "set (run_order order ws run) = set ws"
proof -
  let ?n = "length ws" and ?e = "entry (length ws) (unat run)"
  have n: "even ?n" "0 < ?n" using assms(1,2) by simp_all
  note row = entry_row [OF n, of "unat run"] and order = run_order_entries [OF assms(1-4), of run]
  have range: "?e p < ?n" if "p < ?n" for p using row(2) that by auto
  show "distinct (run_order order ws run)"
    unfolding order using assms(5) row(1) range by (auto simp: distinct_map inj_on_def nth_eq_iff_index_eq)
  have "set (run_order order ws run) = (!) ws ` ?e ` {..<?n}" unfolding order by (auto simp: atLeast0LessThan)
  also have "\<dots> = set ws" unfolding row(2) by (auto simp: set_conv_nth)
  finally show "set (run_order order ws run) = set ws" .
qed

lemma run_order_neighbours:
  assumes n: "length ws = 2 ^ k" "0 < k" "k < 64" "williams_first_row (of_nat (length ws)) = Inr order" "distinct ws"
    and xy: "x \<in> set ws" "y \<in> set ws" "x \<noteq> y"
  shows "\<exists>!(r, p). r < length ws \<and> Suc p < length ws \<and> run_order order ws (of_nat r) ! p = x \<and>
    run_order order ws (of_nat r) ! Suc p = y"
proof -
  let ?n = "length ws"
  obtain a b where ab: "a < ?n" "b < ?n" "x = ws ! a" "y = ws ! b" using xy by (auto simp: in_set_conv_nth)
  have even: "even ?n" using n by simp
  have range: "entry ?n r p < ?n" for r p unfolding entry_def using ab(1) by (intro mod_less_divisor) linarith
  have "(2 :: nat) ^ k < 2 ^ 64" using power_strict_increasing [OF n(3), of "2 :: nat"] by simp
  then have u: "unat (of_nat r :: size_t) = r" if "r < ?n" for r using that n(1) by (simp add: unat_of_nat64)
  have nth: "run_order order ws (of_nat r) ! q = x' \<longleftrightarrow> entry ?n r q = c"
    if "r < ?n" "q < ?n" "x' = ws ! c" "c < ?n" for r q x' c
    using that range [of r q] n(5) by (simp add: run_order_entries [OF n(1-4)] u nth_eq_iff_index_eq)
  have "(\<lambda>(r, p). r < ?n \<and> Suc p < ?n \<and> run_order order ws (of_nat r) ! p = x \<and> run_order order ws (of_nat r) ! Suc p = y) =
      (\<lambda>(r, p). r < ?n \<and> Suc p < ?n \<and> entry ?n r p = a \<and> entry ?n r (Suc p) = b)"
    by (intro ext) (simp add: split_paired_all nth [OF _ _ ab(3,1)] nth [OF _ _ ab(4,2)] cong: conj_cong)
  moreover have "a \<noteq> b" using xy(3) ab by blast
  ultimately show ?thesis using entry_neighbours [OF even ab(1,2)] by simp
qed

section \<open>Accepted configurations\<close>

lemma power2_upto_8: "n \<in> {1, 2, 4, 8} \<Longrightarrow> \<exists>k < 4. n = (2 :: nat) ^ k"
proof -
  have "\<exists>k < 4. (1 :: nat) = 2 ^ k" by (rule exI [of _ 0]) simp
  moreover have "\<exists>k < 4. (2 :: nat) = 2 ^ k" by (rule exI [of _ 1]) simp
  moreover have "\<exists>k < 4. (4 :: nat) = 2 ^ k" by (rule exI [of _ 2]) simp
  moreover have "\<exists>k < 4. (8 :: nat) = 2 ^ k" by (rule exI [of _ 3]) simp
  ultimately show "n \<in> {1, 2, 4, 8} \<Longrightarrow> ?thesis" by blast
qed

lemma canonical_shape:
  assumes "\<forall>n. so_payload_filter c = Some n \<longrightarrow> n \<in> set payload_sizes"
  shows "distinct (canonical_workloads c)" "\<exists>k < 4. length (canonical_workloads c) = 2 ^ k"
    and "set (canonical_workloads c) = {(p, n). n \<in> set payload_sizes \<and> selects c p n}"
proof -
  have filters: "so_protocol_filter c \<in> {None, Some Tcp, Some Udp}"
    by (cases "so_protocol_filter c") (simp_all, metis protocol.exhaust)
  have sizes: "so_payload_filter c \<in> {None, Some 8, Some 64, Some 256, Some 1400}"
    using assms by (cases "so_payload_filter c") (auto simp: payload_sizes_def)
  show "distinct (canonical_workloads c)"
    by (simp add: canonical_workloads_def payload_sizes_def)
  have "length (canonical_workloads c) \<in> {1, 2, 4, 8}"
    using filters sizes by (elim insertE emptyE) (simp_all add: canonical_workloads_def selects_def payload_sizes_def)
  then show "\<exists>k < 4. length (canonical_workloads c) = 2 ^ k" by (rule power2_upto_8)
  show "set (canonical_workloads c) = {(p, n). n \<in> set payload_sizes \<and> selects c p n}"
  proof (intro set_eqI)
    show "z \<in> set (canonical_workloads c) \<longleftrightarrow> z \<in> {(p, n). n \<in> set payload_sizes \<and> selects c p n}" for z
      by (cases z; cases "fst z") (auto simp: canonical_workloads_def)
  qed
qed

text \<open>The options the parser can have stored, and what the check adds.\<close>

definition stored_ok :: "socket_options \<Rightarrow> bool" where
  "stored_ok c \<longleftrightarrow> so_warmup c \<noteq> 0 \<and> so_samples c \<noteq> 0 \<and> so_runs c \<noteq> 0 \<and> so_udp_timeout_ms c \<noteq> 0 \<and>
     - 1 \<le> so_client_cpu c \<and> - 1 \<le> so_server_cpu c \<and>
     so_profile c \<in> set profiles \<and> (\<forall>n. so_payload_filter c = Some n \<longrightarrow> n \<in> set payload_sizes)"

lemma parsed_values:
  "parse_size text name = Inr n \<Longrightarrow> n \<noteq> 0"
  "parse_cpu_index text name = Inr i \<Longrightarrow> 0 \<le> i"
  "parse_profile name = Inr p \<Longrightarrow> p \<in> set profiles"
  "parse_payload text = Inr n \<Longrightarrow> n \<in> set payload_sizes"
  by (auto simp: parse_size_def parse_cpu_index_def parse_profile_def parse_payload_def find_Some_iff
      split: sum.splits list.splits if_splits option.splits prod.splits)

lemma set_socket_option_ok:
  assumes "set_socket_option c option v = Inr c'" "stored_ok c"
  shows "stored_ok c'"
proof -
  have [simp]: "map_sum id f x = Inr y \<longleftrightarrow> (\<exists>z. x = Inr z \<and> y = f z)" for f :: "'a \<Rightarrow> socket_options" and x :: "exception + 'a" and y
    by (cases x) auto
  show ?thesis using assms by (auto simp: set_socket_option_def stored_ok_def dest: parsed_values split: if_splits)
qed

lemma parse_options_loop_accepted:
  assumes "parse_options_loop c args = Inr (Some r)" "stored_ok c"
  shows "stored_ok r \<and> check_socket_options r = Inr r"
  using assms
proof (induction c args rule: parse_options_loop.induct)
  case (1 c)
  then have "check_socket_options c = Inr r" by (cases "check_socket_options c") auto
  moreover from this have "r = c" by (auto simp: check_socket_options_def Let_def split: if_splits option.splits)
  ultimately show ?case using 1 by simp
next
  case (2 c argument args)
  show ?case
  proof (cases "takes_value argument")
    case True
    then obtain v rest c' where args: "args = v # rest" "set_socket_option c argument v = Inr c'"
      and rest: "parse_options_loop c' rest = Inr (Some r)"
      using "2.prems"(1) by (auto split: list.splits sum.splits)
    show ?thesis
      using "2.IH"(1) [OF True args] rest set_socket_option_ok [OF args(2) "2.prems"(2)] by simp
  next
    case False
    have self: "argument = ''--self-test''"
      using "2.prems"(1) False by (simp only: parse_options_loop.simps if_False split: if_split_asm) auto
    then have "parse_options_loop (c\<lparr>so_warmup := 32, so_samples := 256, so_runs := 1\<rparr>) args = Inr (Some r)"
      using "2.prems"(1) False by (simp only: parse_options_loop.simps if_False if_True simp_thms)
    note self = self this
    have "stored_ok (c\<lparr>so_warmup := 32, so_samples := 256, so_runs := 1\<rparr>)"
      using "2.prems"(2) unfolding stored_ok_def by simp
    then show ?thesis by (rule "2.IH"(2) [OF False self])
  qed
qed

text \<open>C28: Every command line the benchmark accepts yields a well-formed configuration: counts are
  positive, all sequence numbers of a run fit the 32-bit wire field, the deadline is at most a
  minute, the profile is one of the table and supports the protocol of every selected workload,
  there is a workload, every payload has room for the header, and the CPUs that
  \<open>resolve_affinity\<close> settles on are different ones.\<close>

theorem accepted_socket_options:
  assumes "parse_options args = Inr (Some c)"
  shows "0 < unat (so_warmup c) \<and> 0 < unat (so_samples c) \<and> 0 < unat (so_runs c) \<and>
    unat (so_warmup c) + unat (so_samples c) < 2 ^ 32 \<and>
    0 < unat (so_udp_timeout_ms c) \<and> unat (so_udp_timeout_ms c) \<le> 60000 \<and>
    so_profile c \<in> set profiles \<and> canonical_workloads c \<noteq> [] \<and>
    (\<forall>(p, n) \<in> set (canonical_workloads c). supports (so_profile c) p \<and> 8 \<le> unat n \<and> unat n \<le> 1400) \<and>
    (\<forall>cpus c'. distinct cpus \<and> (\<forall>cpu \<in> set cpus. 0 \<le> cpu) \<and> resolve_affinity cpus c = Inr c' \<longrightarrow>
      0 \<le> so_client_cpu c' \<and> 0 \<le> so_server_cpu c' \<and> so_client_cpu c' \<noteq> so_server_cpu c')"
proof -
  have "stored_ok default_socket_options"
    by (simp add: stored_ok_def default_socket_options_def profiles_def)
  then have ok: "stored_ok c" and check: "check_socket_options c = Inr c"
    using parse_options_loop_accepted assms unfolding parse_options_def by blast+
  have seq: "so_warmup c \<le> 0xffffffff" "so_samples c \<le> 0xffffffff - so_warmup c" "so_udp_timeout_ms c \<le> 60000"
    and supported: "\<And>p. so_protocol_filter c = None \<or> so_protocol_filter c = Some p \<Longrightarrow> supports (so_profile c) p"
    using check by (auto simp: check_socket_options_def supports_def Let_def not_less split: if_splits option.splits protocol.splits)
  have "unat (so_samples c) \<le> 0xffffffff - unat (so_warmup c)" "unat (so_warmup c) \<le> 0xffffffff"
    using seq(1,2) unat_sub_le [OF seq(1)] by (simp_all add: u64_le_unat)
  then have "unat (so_warmup c) + unat (so_samples c) < 2 ^ 32" by simp
  moreover have "unat (so_udp_timeout_ms c) \<le> 60000" using seq(3) by (simp add: u64_le_unat)
  moreover have "canonical_workloads c \<noteq> []"
    using canonical_shape(2) [of c] ok by (auto simp: stored_ok_def)
  moreover have "\<forall>(p, n) \<in> set (canonical_workloads c). supports (so_profile c) p \<and> 8 \<le> unat n \<and> unat n \<le> 1400"
    using canonical_shape(3) [of c] ok supported by (auto simp: stored_ok_def selects_def payload_sizes_def)
  moreover have "0 \<le> so_client_cpu c' \<and> 0 \<le> so_server_cpu c' \<and> so_client_cpu c' \<noteq> so_server_cpu c'"
    if "distinct cpus" "\<forall>cpu \<in> set cpus. 0 \<le> cpu" "resolve_affinity cpus c = Inr c'" for cpus c'
    using that by (cases cpus; cases "tl cpus") (auto simp: resolve_affinity_def Let_def split: if_splits)
  ultimately show ?thesis using ok by (auto simp: stored_ok_def unat_gt_0)
qed

theorem accepted_socket_options_witness:
  "\<exists>c. parse_options [''--payload'', ''64'', ''--self-test''] = Inr (Some c) \<and> so_samples c = 256 \<and>
    unat (so_warmup c) + unat (so_samples c) < 2 ^ 32"
proof -
  let ?c = "default_socket_options\<lparr>so_payload_filter := Some 64, so_warmup := 32, so_samples := 256, so_runs := 1\<rparr>"
  have run: "parse_options [''--payload'', ''64'', ''--self-test''] = Inr (Some ?c)"
  proof -
    have "set_socket_option default_socket_options ''--payload'' ''64'' =
        Inr (default_socket_options\<lparr>so_payload_filter := Some 64\<rparr>)"
      by (simp add: set_socket_option_def parse_payload_def parse_size_def from_chars_u64_def is_digit_def
          digits_value_def digit_value_def payload_sizes_def)
    moreover have "check_socket_options ?c = Inr ?c"
      by (simp add: check_socket_options_def default_socket_options_def profiles_def profile_of_def)
    ultimately show ?thesis by (simp add: parse_options_def takes_value_def)
  qed
  show ?thesis using accepted_socket_options [OF run] run by (intro exI [of _ ?c]) simp
qed

text \<open>C27: The runs of an accepted configuration are a balanced design: each run executes every selected
  workload exactly once, and over as many runs as there are workloads (eight, the default number of
  runs, for the full list) every ordered pair of different workloads is executed one right after
  the other in exactly one run and place, so that no workload is favoured by its predecessor.\<close>

theorem workloads_balanced:
  assumes "parse_options args = Inr (Some c)"
  shows "\<exists>rows. (\<forall>run. schedule c run = Inr (rows run) \<and> distinct (rows run) \<and>
      set (rows run) = set (canonical_workloads c)) \<and>
    (\<forall>x \<in> set (canonical_workloads c). \<forall>y \<in> set (canonical_workloads c). x \<noteq> y \<longrightarrow>
      (\<exists>!(r, p). r < length (canonical_workloads c) \<and> Suc p < length (canonical_workloads c) \<and>
        rows (of_nat r) ! p = x \<and> rows (of_nat r) ! Suc p = y))"
proof -
  let ?ws = "canonical_workloads c"
  have "stored_ok default_socket_options"
    by (simp add: stored_ok_def default_socket_options_def profiles_def)
  then have filters: "\<forall>n. so_payload_filter c = Some n \<longrightarrow> n \<in> set payload_sizes"
    using parse_options_loop_accepted assms unfolding parse_options_def stored_ok_def by blast
  note dist = canonical_shape(1) [OF filters]
  obtain k where k: "k < 4" "length ?ws = 2 ^ k" using canonical_shape(2) [OF filters] by blast
  have "length ?ws < 2 ^ 64" unfolding k(2) using k(1) by (intro power_strict_increasing) simp_all
  then obtain order where order: "williams_first_row (of_nat (length ?ws)) = Inr order"
    using first_row_defined [of "length ?ws"] k(2) by (cases k) auto
  have sched: "schedule c run = Inr (run_order order ?ws run)" for run by (simp add: schedule_def Let_def order)
  show ?thesis
  proof (cases "k = 0")
    case True
    then obtain w where w: "?ws = [w]" using k(2) by (auto simp: length_Suc_conv)
    then have "run_order order ?ws run = [w]" for run
      using order by (auto simp: williams_first_row_def run_order_def)
    then show ?thesis using sched w by (intro exI [of _ "\<lambda>run. run_order order ?ws run"]) simp
  next
    case False
    then have k0: "0 < k" "k < 64" using k(1) by simp_all
    show ?thesis
      using sched run_order_row [OF k(2) k0 order dist] run_order_neighbours [OF k(2) k0 order dist]
      by (intro exI [of _ "\<lambda>run. run_order order ?ws run"]) blast
  qed
qed

theorem workloads_balanced_witness:
  "\<exists>c rows. parse_options [''--self-test''] = Inr (Some c) \<and> (\<forall>run. schedule c run = Inr (rows run) \<and> distinct (rows run))"
proof -
  let ?c = "default_socket_options\<lparr>so_warmup := 32, so_samples := 256, so_runs := 1\<rparr>"
  have run: "parse_options [''--self-test''] = Inr (Some ?c)" by code_simp
  show ?thesis using workloads_balanced [OF run] run by blast
qed

end
