(* ===== verification/Benchmark_Sockets.thy ===== *)
theory Benchmark_Sockets
  imports Wire_Message Socket_Properties Socket_Workloads
begin

text \<open>
  The socket calls of \<open>socket_latency.cpp\<close>, which throws where the library reports: sending
  and receiving streams and datagrams, and waiting for a datagram with a deadline. The kernel is
  the parameter of \<open>Sockets\<close>; \<open>host\<close> adds the clock in nanoseconds, \<open>poll\<close> and the flag that
  cancels the server. An operation takes the state of the world and returns what it threw or its
  result with the next state; \<open>None\<close> is not returning. The hints of the spinning waits are those
  of \<open>busy_spin_wait\<close> and change nothing here; reading the clock is taken to succeed.
\<close>

unbundle bit_operations_syntax

type_synonym ('a, 'k) io = "'k \<Rightarrow> ((exception + 'a) \<times> 'k) option"

text \<open>What \<open>poll\<close> returns when it does not fail: a timeout, or the events that are ready.\<close>

datatype poll_result = Timed_out | Ready (pollin: bool)

record 'k host =
  host_clock :: "'k \<Rightarrow> u64 \<times> 'k"
  host_poll :: "'k \<Rightarrow> int \<Rightarrow> int \<Rightarrow> (int + poll_result) \<times> 'k"
  host_cancelled :: "'k \<Rightarrow> bool \<times> 'k"

text \<open>A kernel with something of the program's own beside its state, which the calls leave alone.\<close>

definition beside :: "('r \<times> 'k) \<Rightarrow> 'x \<Rightarrow> 'r \<times> 'k \<times> 'x" where
  "beside result x = (fst result, (snd result, x))"

definition beside_api :: "'k socket_api \<Rightarrow> ('k \<times> 'x) socket_api" where
  "beside_api api = \<lparr>
     sys_getsockopt = (\<lambda>(k, x) fd level name. beside (sys_getsockopt api k fd level name) x),
     sys_setsockopt = (\<lambda>(k, x) fd level name v. beside (sys_setsockopt api k fd level name v) x),
     sys_send = (\<lambda>(k, x) fd bytes flags. beside (sys_send api k fd bytes flags) x),
     sys_sendto = (\<lambda>(k, x) fd bytes flags to. beside (sys_sendto api k fd bytes flags to) x),
     sys_recv = (\<lambda>(k, x) fd n flags. beside (sys_recv api k fd n flags) x),
     sys_recvmsg = (\<lambda>(k, x) fd n flags. beside (sys_recvmsg api k fd n flags) x)\<rparr>"

section \<open>Streams\<close>

partial_function (option) transmit_loop :: "'k socket_api \<Rightarrow> int \<Rightarrow> u8 list \<Rightarrow> nat \<Rightarrow> 'k \<Rightarrow> ((exception + unit) \<times> 'k) option" where
  [code]: "transmit_loop api descriptor bytes offset k =
     (if offset < length bytes
      then case sys_send api k descriptor (drop offset bytes) MSG_NOSIGNAL of
          (Inr sent, k') \<Rightarrow>
            if sent > 0 then transmit_loop api descriptor bytes (offset + sent) k'
            else Some (Inl (Runtime_error ''send made no progress''), k')
        | (Inl errno, k') \<Rightarrow>
            if errno = EINTR then transmit_loop api descriptor bytes offset k'
            else Some (Inl (System_error ''send'' errno), k')
      else Some (Inr (), k))"

definition transmit_all :: "'k socket_api \<Rightarrow> int \<Rightarrow> u8 list \<Rightarrow> (unit, 'k) io" where
  "transmit_all api descriptor bytes k = transmit_loop api descriptor bytes 0 k"

definition spin_deadline_check_interval :: nat where
  "spin_deadline_check_interval = 4096"

text \<open>The largest deadline is none.\<close>

definition no_deadline :: u64 where
  "no_deadline = - 1"

partial_function (option) receive_all_loop :: "'k socket_api \<Rightarrow> 'k host \<Rightarrow> int \<Rightarrow> wait_strategy \<Rightarrow> u64 \<Rightarrow> nat \<Rightarrow> nat \<Rightarrow>
    u8 list \<Rightarrow> 'k \<Rightarrow> ((exception + u8 list) \<times> 'k) option" where
  [code]: "receive_all_loop api host descriptor strategy spin_deadline_ns spins offset buffer k =
     (if offset < length buffer
      then case sys_recv api k descriptor (length buffer - offset) (if strategy = Spin then MSG_DONTWAIT else 0) of
          (Inr bytes, k') \<Rightarrow>
            if bytes \<noteq> []
            then receive_all_loop api host descriptor strategy spin_deadline_ns spins (offset + length bytes)
                   (write_at buffer offset bytes) k'
            else Some (Inl (Runtime_error ''peer closed a partial message''), k')
        | (Inl errno, k') \<Rightarrow>
            if errno = EINTR
            then receive_all_loop api host descriptor strategy spin_deadline_ns spins offset buffer k'
            else if strategy = Spin \<and> (errno = EAGAIN \<or> errno = EWOULDBLOCK)
            then if spin_deadline_ns = no_deadline
                 then receive_all_loop api host descriptor strategy spin_deadline_ns spins offset buffer k'
                 else if spins - 1 = 0
                 then case host_clock host k' of (t, k2) \<Rightarrow>
                   if t \<ge> spin_deadline_ns
                   then Some (Inl (Runtime_error ''TCP spin receive exceeded its safety timeout''), k2)
                   else receive_all_loop api host descriptor strategy spin_deadline_ns
                          spin_deadline_check_interval offset buffer k2
                 else receive_all_loop api host descriptor strategy spin_deadline_ns (spins - 1) offset buffer k'
            else Some (Inl (System_error ''recv'' errno), k')
      else Some (Inr buffer, k))"

definition receive_all :: "'k socket_api \<Rightarrow> 'k host \<Rightarrow> int \<Rightarrow> u8 list \<Rightarrow> wait_strategy \<Rightarrow> u64 \<Rightarrow> (u8 list, 'k) io" where
  "receive_all api host descriptor buffer strategy spin_deadline_ns k =
     receive_all_loop api host descriptor strategy spin_deadline_ns spin_deadline_check_interval 0 buffer k"

section \<open>Datagrams\<close>

text \<open>\<open>send_connected_datagram\<close> and \<open>send_datagram\<close>.\<close>

partial_function (option) transmit_connected :: "'k socket_api \<Rightarrow> int \<Rightarrow> u8 list \<Rightarrow> 'k \<Rightarrow> ((exception + unit) \<times> 'k) option" where
  [code]: "transmit_connected api descriptor bytes k =
     (case sys_send api k descriptor bytes MSG_NOSIGNAL of
        (Inl errno, k') \<Rightarrow>
          if errno = EINTR then transmit_connected api descriptor bytes k'
          else Some (Inl (System_error ''send'' errno), k')
      | (Inr sent, k') \<Rightarrow>
          if sent \<noteq> length bytes then Some (Inl (Runtime_error ''partial connected UDP datagram''), k')
          else Some (Inr (), k'))"

partial_function (option) transmit_to :: "'k socket_api \<Rightarrow> int \<Rightarrow> u8 list \<Rightarrow> sockaddr_in \<Rightarrow> 'k \<Rightarrow> ((exception + unit) \<times> 'k) option" where
  [code]: "transmit_to api descriptor bytes destination k =
     (case sys_sendto api k descriptor bytes MSG_NOSIGNAL destination of
        (Inl errno, k') \<Rightarrow>
          if errno = EINTR then transmit_to api descriptor bytes destination k'
          else Some (Inl (System_error ''sendto'' errno), k')
      | (Inr sent, k') \<Rightarrow>
          if sent \<noteq> length bytes then Some (Inl (Runtime_error ''partial UDP datagram''), k')
          else Some (Inr (), k'))"

definition send_profile_datagram :: "'k socket_api \<Rightarrow> int \<Rightarrow> u8 list \<Rightarrow> sockaddr_in \<Rightarrow> profile_spec \<Rightarrow> (unit, 'k) io" where
  "send_profile_datagram api descriptor bytes destination profile =
     (if udp_connected profile then transmit_connected api descriptor bytes
      else transmit_to api descriptor bytes destination)"

text \<open>A datagram with the buffer it was received into.\<close>

record received_datagram =
  rd_bytes :: nat
  rd_peer :: sockaddr_in
  rd_flags :: u32
  rd_buffer :: "u8 list"

partial_function (option) receive_message :: "'k socket_api \<Rightarrow> int \<Rightarrow> u8 list \<Rightarrow> u32 \<Rightarrow> 'k \<Rightarrow>
    ((int + received_datagram) \<times> 'k) option" where
  [code]: "receive_message api descriptor buffer flags k =
     (case sys_recvmsg api k descriptor (length buffer) flags of
        (Inl errno, k') \<Rightarrow>
          if errno = EINTR then receive_message api descriptor buffer flags k' else Some (Inl errno, k')
      | (Inr m, k') \<Rightarrow> Some (Inr \<lparr>rd_bytes = msg_wire m, rd_peer = msg_peer m, rd_flags = msg_out_flags m,
          rd_buffer = write_at buffer 0 (msg_bytes m)\<rparr>, k'))"

definition receive_datagram :: "'k socket_api \<Rightarrow> int \<Rightarrow> u8 list \<Rightarrow> (received_datagram, 'k) io" where
  "receive_datagram api descriptor buffer k =
     map_option (map_prod (map_sum (System_error ''recvmsg'') id) id)
       (receive_message api descriptor buffer MSG_TRUNC k)"

definition attempt_receive_datagram :: "'k socket_api \<Rightarrow> int \<Rightarrow> u8 list \<Rightarrow> (received_datagram option, 'k) io" where
  "attempt_receive_datagram api descriptor buffer k =
     map_option (\<lambda>(outcome, k'). (case outcome of
         Inr d \<Rightarrow> Inr (Some d)
       | Inl errno \<Rightarrow> if errno = EAGAIN \<or> errno = EWOULDBLOCK then Inr None
           else Inl (System_error ''recvmsg'' errno), k'))
       (receive_message api descriptor buffer (MSG_TRUNC OR MSG_DONTWAIT) k)"

section \<open>Waiting for a datagram\<close>

definition poll_timeout_ms :: "u64 \<Rightarrow> int" where
  "poll_timeout_ms remaining_ns =
     (let rounded_ms = (remaining_ns + 999999) div 1000000 in min (uint rounded_ms) int_max)"

partial_function (option) wait_readable_until :: "'k host \<Rightarrow> int \<Rightarrow> u64 \<Rightarrow> 'k \<Rightarrow> ((exception + bool) \<times> 'k) option" where
  [code]: "wait_readable_until host descriptor deadline_ns k =
     (case host_clock host k of (now, k1) \<Rightarrow>
        if now \<ge> deadline_ns then Some (Inr False, k1)
        else case host_poll host k1 descriptor (poll_timeout_ms (deadline_ns - now)) of
            (Inr (Ready readable), k2) \<Rightarrow>
              Some (if readable then Inr True else Inl (Runtime_error ''poll reported a UDP socket error''), k2)
          | (Inr Timed_out, k2) \<Rightarrow> Some (Inr False, k2)
          | (Inl errno, k2) \<Rightarrow>
              if errno \<noteq> EINTR then Some (Inl (System_error ''poll'' errno), k2)
              else wait_readable_until host descriptor deadline_ns k2)"

partial_function (option) wait_for_udp_server_input :: "'k host \<Rightarrow> int \<Rightarrow> 'k \<Rightarrow> ((exception + bool) \<times> 'k) option" where
  [code]: "wait_for_udp_server_input host descriptor k =
     (case host_cancelled host k of (cancelled, k1) \<Rightarrow>
        if cancelled then Some (Inr False, k1)
        else case host_poll host k1 descriptor 10 of
            (Inr (Ready readable), k2) \<Rightarrow>
              Some (if readable then Inr True else Inl (Runtime_error ''poll reported a UDP server socket error''), k2)
          | (Inr Timed_out, k2) \<Rightarrow> wait_for_udp_server_input host descriptor k2
          | (Inl errno, k2) \<Rightarrow>
              if errno \<noteq> EINTR then Some (Inl (System_error ''poll'' errno), k2)
              else wait_for_udp_server_input host descriptor k2)"

text \<open>The spinning loops poll their condition, then the socket, without blocking.\<close>

partial_function (option) spin_receive :: "('k \<Rightarrow> bool \<times> 'k) \<Rightarrow> ('k \<Rightarrow> ((exception + received_datagram option) \<times> 'k) option) \<Rightarrow>
    'k \<Rightarrow> ((exception + received_datagram option) \<times> 'k) option" where
  [code]: "spin_receive ended attempt k =
     (case ended k of (stop, k1) \<Rightarrow>
        if stop then Some (Inr None, k1)
        else case attempt k1 of
            None \<Rightarrow> None
          | Some (Inr None, k2) \<Rightarrow> spin_receive ended attempt k2
          | Some (other, k2) \<Rightarrow> Some (other, k2))"

definition deadline_over :: "'k host \<Rightarrow> u64 \<Rightarrow> 'k \<Rightarrow> bool \<times> 'k" where
  "deadline_over host deadline_ns k = (case host_clock host k of (now, k1) \<Rightarrow> (\<not> now < deadline_ns, k1))"

text \<open>What follows a wait: nothing, or the receive it announced.\<close>

definition after_wait :: "((exception + bool) \<times> 'k) option \<Rightarrow> (received_datagram, 'k) io \<Rightarrow>
    ((exception + received_datagram option) \<times> 'k) option" where
  "after_wait waited receive =
     (case waited of
        None \<Rightarrow> None
      | Some (Inl e, k) \<Rightarrow> Some (Inl e, k)
      | Some (Inr readable, k) \<Rightarrow> if \<not> readable then Some (Inr None, k)
          else map_option (map_prod (map_sum id Some) id) (receive k))"

definition receive_udp_until :: "'k socket_api \<Rightarrow> 'k host \<Rightarrow> int \<Rightarrow> u8 list \<Rightarrow> u64 \<Rightarrow> wait_strategy \<Rightarrow>
    (received_datagram option, 'k) io" where
  "receive_udp_until api host descriptor buffer deadline_ns strategy k =
     (if strategy = Kernel
      then after_wait (wait_readable_until host descriptor deadline_ns k) (receive_datagram api descriptor buffer)
      else spin_receive (deadline_over host deadline_ns) (attempt_receive_datagram api descriptor buffer) k)"

definition receive_udp_server_datagram :: "'k socket_api \<Rightarrow> 'k host \<Rightarrow> int \<Rightarrow> u8 list \<Rightarrow> wait_strategy \<Rightarrow>
    (received_datagram option, 'k) io" where
  "receive_udp_server_datagram api host descriptor buffer strategy k =
     (if strategy = Kernel
      then after_wait (wait_for_udp_server_input host descriptor k) (receive_datagram api descriptor buffer)
      else spin_receive (host_cancelled host) (attempt_receive_datagram api descriptor buffer) k)"

section \<open>The library's loops\<close>

text \<open>Two loops that agree whenever either of them returns agree altogether.\<close>

lemma option_agree:
  assumes "\<And>y. f = Some y \<Longrightarrow> \<exists>x. g = Some x \<and> R y x" "\<And>x. g = Some x \<Longrightarrow> \<exists>y. f = Some y"
  shows "rel_option R f g"
  using assms by (cases f; cases g) auto

definition sends_as :: "nat \<Rightarrow> (exception + unit) \<times> 'k \<Rightarrow> send_result \<times> 'k \<Rightarrow> bool" where
  "sends_as whole thrown reported \<longleftrightarrow> snd thrown = snd reported \<and>
     (case fst thrown of
        Inr _ \<Rightarrow> send_error (fst reported) = 0 \<and> whole \<le> bytes_sent (fst reported)
      | Inl e \<Rightarrow> bytes_sent (fst reported) < whole \<and> (e = System_error ''send'' (send_error (fst reported)) \<or>
          e = Runtime_error ''send made no progress'' \<and> send_error (fst reported) = EPIPE))"

lemma transmit_loop_some:
  "transmit_loop api fd bytes offset k = Some y \<Longrightarrow>
     \<exists>x. send_all_loop api fd bytes offset k = Some x \<and> sends_as (length bytes) y x"
proof (induction rule: transmit_loop.raw_induct [rotated, consumes 1, case_names unfold])
  case (unfold loop api fd bytes offset k y)
  show ?case
  proof (cases "offset < length bytes")
    case True
    obtain out k1 where call: "sys_send api k fd (drop offset bytes) MSG_NOSIGNAL = (out, k1)" by fastforce
    show ?thesis
      using unfold True call
      by (cases out) (auto simp: send_all_loop.simps [of api fd bytes offset k] sends_as_def split: if_splits)
  qed (use unfold in \<open>auto simp: send_all_loop.simps [of api fd bytes offset k] sends_as_def\<close>)
qed

lemma send_all_loop_some:
  "send_all_loop api fd bytes offset k = Some x \<Longrightarrow> \<exists>y. transmit_loop api fd bytes offset k = Some y"
proof (induction rule: send_all_loop.raw_induct [rotated, consumes 1, case_names unfold])
  case (unfold loop api fd bytes offset k x)
  show ?case
  proof (cases "offset < length bytes")
    case True
    obtain out k1 where call: "sys_send api k fd (drop offset bytes) MSG_NOSIGNAL = (out, k1)" by fastforce
    show ?thesis
      using unfold True call
      by (cases out) (auto simp: transmit_loop.simps [of api fd bytes offset k] split: if_splits)
  qed (simp add: transmit_loop.simps [of api fd bytes offset k])
qed

lemma transmit_all_agrees: "rel_option (sends_as (length bytes)) (transmit_all api fd bytes k) (send_all api fd bytes k)"
  unfolding transmit_all_def send_all_def by (rule option_agree [OF transmit_loop_some send_all_loop_some])

definition received_as :: "(exception + u8 list) \<times> 'k \<Rightarrow> stream_receive_result \<times> u8 list \<times> 'k \<Rightarrow> bool" where
  "received_as thrown reported \<longleftrightarrow> (case reported of (r, buffer, k) \<Rightarrow>
     thrown = (case sr_state r of
         Complete \<Rightarrow> Inr buffer
       | Peer_closed \<Rightarrow> Inl (Runtime_error ''peer closed a partial message'')
       | Stopped \<Rightarrow> Inl (Runtime_error ''TCP spin receive exceeded its safety timeout'')
       | Error \<Rightarrow> Inl (System_error ''recv'' (sr_error r)), k))"

lemma receive_all_loop_some:
  "receive_all_loop api host fd strategy deadline spins offset buffer k = Some y \<Longrightarrow> strategy = Kernel \<Longrightarrow>
     \<exists>x. receive_exact_blocking_loop api fd offset buffer k = Some x \<and> received_as y x"
proof (induction rule: receive_all_loop.raw_induct [rotated, consumes 1, case_names unfold])
  case (unfold loop api host fd strategy deadline spins offset buffer k y)
  show ?case
  proof (cases "offset < length buffer")
    case True
    obtain out k1 where call: "sys_recv api k fd (length buffer - offset) 0 = (out, k1)" by fastforce
    show ?thesis
      using unfold True call
      by (cases out)
        (auto simp: receive_exact_blocking_loop.simps [of api fd offset buffer k] received_as_def stream_result_def
          split: if_splits)
  qed (use unfold in \<open>auto simp: receive_exact_blocking_loop.simps [of api fd offset buffer k] received_as_def stream_result_def\<close>)
qed

lemma receive_exact_blocking_loop_some:
  "receive_exact_blocking_loop api fd offset buffer k = Some x \<Longrightarrow>
     \<exists>y. receive_all_loop api host fd Kernel deadline spins offset buffer k = Some y"
proof (induction rule: receive_exact_blocking_loop.raw_induct [rotated, consumes 1, case_names unfold])
  case (unfold loop api fd offset buffer k x)
  show ?case
  proof (cases "offset < length buffer")
    case True
    obtain out k1 where call: "sys_recv api k fd (length buffer - offset) 0 = (out, k1)" by fastforce
    show ?thesis
      using unfold True call
      by (cases out)
        (auto simp: receive_all_loop.simps [of api host fd Kernel deadline spins offset buffer k] split: if_splits)
  qed (simp add: receive_all_loop.simps [of api host fd Kernel deadline spins offset buffer k])
qed

lemma receive_all_agrees:
  "rel_option received_as (receive_all api host fd buffer Kernel deadline k) (receive_exact_blocking api fd buffer k)"
  unfolding receive_all_def receive_exact_blocking_def
  by (rule option_agree [OF receive_all_loop_some [OF _ refl] receive_exact_blocking_loop_some])

text \<open>
  The spinning wait: the library asks a stop predicate after every receive that brought
  nothing, the benchmark counts its empty polls down and reads the clock at every 4096th, and an
  interrupted receive counts for nothing. The predicate below does the same over a kernel with
  the countdown and the last receive's interruption beside its state.
\<close>

definition counting_api :: "'k socket_api \<Rightarrow> ('k \<times> nat \<times> bool) socket_api" where
  "counting_api api = (beside_api api)\<lparr>sys_recv := (\<lambda>(k, spins, _) descriptor n flags.
     case sys_recv api k descriptor n flags of (out, k') \<Rightarrow> (out, (k', spins, out = Inl EINTR)))\<rparr>"

definition counted_deadline :: "'k host \<Rightarrow> u64 \<Rightarrow> 'k \<times> nat \<times> bool \<Rightarrow> bool \<times> 'k \<times> nat \<times> bool" where
  "counted_deadline host deadline_ns s =
     (case s of (k, spins, interrupted) \<Rightarrow>
        if interrupted \<or> deadline_ns = no_deadline then (False, s)
        else if spins - 1 = 0
        then case host_clock host k of (t, k') \<Rightarrow>
          (t \<ge> deadline_ns, (k', spin_deadline_check_interval, interrupted))
        else (False, (k, spins - 1, interrupted)))"

definition spun_as :: "(exception + u8 list) \<times> 'k \<Rightarrow> stream_receive_result \<times> u8 list \<times> hint list \<times> 'k \<times> nat \<times> bool \<Rightarrow> bool" where
  "spun_as thrown reported \<longleftrightarrow> (case reported of (r, buffer, _, (k, _)) \<Rightarrow> received_as thrown (r, buffer, k))"

lemma counting_recv:
  "sys_recv (counting_api api) (k, spins, i) fd n flags =
     (fst (sys_recv api k fd n flags), snd (sys_recv api k fd n flags), spins, fst (sys_recv api k fd n flags) = Inl EINTR)"
  by (simp add: counting_api_def split: prod.splits)

lemma counted_deadline_eq:
  "counted_deadline host deadline (k, spins, i) =
     (if i \<or> deadline = no_deadline then (False, k, spins, i)
      else if spins - 1 = 0
      then (fst (host_clock host k) \<ge> deadline, snd (host_clock host k), spin_deadline_check_interval, i)
      else (False, k, spins - 1, i))"
  by (simp add: counted_deadline_def split: prod.splits)

lemma spun_as_eq: "spun_as y (r, buffer, hs, k, x) \<longleftrightarrow> received_as y (r, buffer, k)"
  by (simp add: spun_as_def)

lemma received_as_result:
  "received_as y (stream_result state n e, buffer, k) \<longleftrightarrow> y = (case state of
       Complete \<Rightarrow> Inr buffer
     | Peer_closed \<Rightarrow> Inl (Runtime_error ''peer closed a partial message'')
     | Stopped \<Rightarrow> Inl (Runtime_error ''TCP spin receive exceeded its safety timeout'')
     | Error \<Rightarrow> Inl (System_error ''recv'' e), k)"
  by (cases state) (simp_all add: received_as_def stream_result_def)

lemma receive_all_loop_spins:
  "receive_all_loop api host fd strategy deadline spins offset buffer k = Some y \<Longrightarrow> strategy = Spin \<Longrightarrow>
     \<exists>x. receive_exact_busy_spin_loop (counting_api api) fd (counted_deadline host deadline) offset buffer hs (k, spins, i) =
       Some x \<and> spun_as y x"
proof (induction arbitrary: hs i rule: receive_all_loop.raw_induct [rotated, consumes 1, case_names unfold])
  case (unfold loop api host fd strategy deadline spins offset buffer k y)
  note IH = unfold(1) [OF _ unfold(3)]
  note spin = receive_exact_busy_spin_loop.simps
    [of "counting_api api" fd "counted_deadline host deadline" offset buffer hs "(k, spins, i)"]
  note step = unfold(2) [unfolded unfold(3)]
  obtain unbounded where no: "(deadline = no_deadline) = unbounded" by blast
  show ?case
  proof (cases "offset < length buffer")
    case True
    obtain out k1 where call: "sys_recv api k fd (length buffer - offset) MSG_DONTWAIT = (out, k1)" by fastforce
    obtain t k2 where clock: "host_clock host k1 = (t, k2)" by fastforce
    show ?thesis
      using step True call clock unfold(3)
      by (cases out)
        (auto simp: spin counting_recv counted_deadline_eq no spun_as_eq received_as_result simp del: split_paired_Ex
          split: if_splits intro!: IH)
  qed (use step in \<open>simp add: spin spun_as_eq received_as_result del: split_paired_Ex\<close>)
qed

lemma receive_exact_busy_spin_loop_some:
  "receive_exact_busy_spin_loop capi fd stop offset buffer hs s = Some x \<Longrightarrow> capi = counting_api api \<Longrightarrow>
     stop = counted_deadline host deadline \<Longrightarrow>
     \<exists>y. receive_all_loop api host fd Spin deadline (fst (snd s)) offset buffer (fst s) = Some y"
proof (induction rule: receive_exact_busy_spin_loop.raw_induct [rotated, consumes 1, case_names unfold])
  case (unfold loop capi fd stop offset buffer hs s x)
  obtain k spins i where s: "s = (k, spins, i)" by (cases s)
  note IH = unfold(1) [OF _ unfold(3,4)]
  have IH': "\<exists>y. receive_all_loop api host fd Spin deadline spins' offset' buffer' k' = Some y"
    if "loop (counting_api api) fd (counted_deadline host deadline) offset' buffer' hs' (k', spins', i') = Some x"
    for offset' buffer' hs' k' spins' i'
    using IH [of fd offset' buffer' hs' "(k', spins', i')" x] that unfold(3,4) by simp
  note step = unfold(2) [unfolded unfold(3,4) s]
  obtain unbounded where no: "(deadline = no_deadline) = unbounded" by blast
  show ?case
  proof (cases "offset < length buffer")
    case True
    obtain out k1 where call: "sys_recv api k fd (length buffer - offset) MSG_DONTWAIT = (out, k1)" by fastforce
    obtain t k2 where clock: "host_clock host k1 = (t, k2)" by fastforce
    show ?thesis
      using step True call clock
      by (cases out)
        (auto simp: s receive_all_loop.simps [of api host fd Spin deadline spins offset buffer k]
          counting_recv counted_deadline_eq no simp del: split_paired_Ex split: if_splits intro!: IH')
  qed (simp add: s receive_all_loop.simps [of api host fd Spin deadline spins offset buffer k])
qed

lemma receive_all_spins:
  "rel_option spun_as (receive_all api host fd buffer Spin deadline k)
     (receive_exact_busy_spin (counting_api api) fd buffer (counted_deadline host deadline)
        (k, spin_deadline_check_interval, False))"
  unfolding receive_all_def receive_exact_busy_spin_def
proof (rule option_agree [OF receive_all_loop_spins [OF _ refl]])
  fix x assume "receive_exact_busy_spin_loop (counting_api api) fd (counted_deadline host deadline) 0 buffer []
    (k, spin_deadline_check_interval, False) = Some x"
  from receive_exact_busy_spin_loop_some [OF this refl refl]
  show "\<exists>y. receive_all_loop api host fd Spin deadline spin_deadline_check_interval 0 buffer k = Some y" by simp
qed

text \<open>The datagram sends: what the library's outcome is as an exception.\<close>

definition whole_datagram :: "string \<Rightarrow> string \<Rightarrow> nat \<Rightarrow> int + nat \<Rightarrow> exception + unit" where
  "whole_datagram operation kind whole outcome =
     (case outcome of
        Inl errno \<Rightarrow> Inl (System_error operation errno)
      | Inr sent \<Rightarrow> if sent \<noteq> whole then Inl (Runtime_error kind) else Inr ())"

lemma transmit_connected_some:
  "transmit_connected api fd bytes k = Some y \<Longrightarrow>
     \<exists>x. retry_interrupted_send (\<lambda>k. sys_send api k fd bytes MSG_NOSIGNAL) k = Some x \<and>
       y = (whole_datagram ''send'' ''partial connected UDP datagram'' (length bytes) (fst x), snd x)"
proof (induction rule: transmit_connected.raw_induct [rotated, consumes 1, case_names unfold])
  case (unfold loop api fd bytes k y)
  obtain out k1 where call: "sys_send api k fd bytes MSG_NOSIGNAL = (out, k1)" by fastforce
  show ?case
    using unfold call
    by (cases out) (auto simp: retry_interrupted_send.simps [of "\<lambda>k. sys_send api k fd bytes MSG_NOSIGNAL" k]
        whole_datagram_def split: if_splits)
qed

lemma transmit_to_some:
  "transmit_to api fd bytes destination k = Some y \<Longrightarrow>
     \<exists>x. retry_interrupted_send (\<lambda>k. sys_sendto api k fd bytes MSG_NOSIGNAL destination) k = Some x \<and>
       y = (whole_datagram ''sendto'' ''partial UDP datagram'' (length bytes) (fst x), snd x)"
proof (induction rule: transmit_to.raw_induct [rotated, consumes 1, case_names unfold])
  case (unfold loop api fd bytes destination k y)
  obtain out k1 where call: "sys_sendto api k fd bytes MSG_NOSIGNAL destination = (out, k1)" by fastforce
  show ?case
    using unfold call
    by (cases out) (auto simp: retry_interrupted_send.simps [of "\<lambda>k. sys_sendto api k fd bytes MSG_NOSIGNAL destination" k]
        whole_datagram_def split: if_splits)
qed

lemma retry_interrupted_send_connected:
  "retry_interrupted_send call k = Some x \<Longrightarrow> call = (\<lambda>k. sys_send api k fd bytes MSG_NOSIGNAL) \<Longrightarrow>
     \<exists>y. transmit_connected api fd bytes k = Some y"
proof (induction rule: retry_interrupted_send.raw_induct [rotated, consumes 1, case_names unfold])
  case (unfold loop call k x)
  obtain out k1 where out: "sys_send api k fd bytes MSG_NOSIGNAL = (out, k1)" by fastforce
  show ?case
    using unfold out by (cases out) (auto simp: transmit_connected.simps [of api fd bytes k] split: if_splits)
qed

lemma retry_interrupted_send_to:
  "retry_interrupted_send call k = Some x \<Longrightarrow> call = (\<lambda>k. sys_sendto api k fd bytes MSG_NOSIGNAL destination) \<Longrightarrow>
     \<exists>y. transmit_to api fd bytes destination k = Some y"
proof (induction rule: retry_interrupted_send.raw_induct [rotated, consumes 1, case_names unfold])
  case (unfold loop call k x)
  obtain out k1 where out: "sys_sendto api k fd bytes MSG_NOSIGNAL destination = (out, k1)" by fastforce
  show ?case
    using unfold out by (cases out) (auto simp: transmit_to.simps [of api fd bytes destination k] split: if_splits)
qed

lemma transmit_connected_retries:
  "transmit_connected api fd bytes k =
     map_option (\<lambda>(outcome, k'). (whole_datagram ''send'' ''partial connected UDP datagram'' (length bytes) outcome, k'))
       (retry_interrupted_send (\<lambda>k. sys_send api k fd bytes MSG_NOSIGNAL) k)"
  using transmit_connected_some [of api fd bytes k] retry_interrupted_send_connected [OF _ refl, of api fd bytes k]
  by (cases "transmit_connected api fd bytes k"; cases "retry_interrupted_send (\<lambda>k. sys_send api k fd bytes MSG_NOSIGNAL) k")
    (auto split: prod.splits)

lemma transmit_to_retries:
  "transmit_to api fd bytes destination k =
     map_option (\<lambda>(outcome, k'). (whole_datagram ''sendto'' ''partial UDP datagram'' (length bytes) outcome, k'))
       (retry_interrupted_send (\<lambda>k. sys_sendto api k fd bytes MSG_NOSIGNAL destination) k)"
  using transmit_to_some [of api fd bytes destination k] retry_interrupted_send_to [OF _ refl, of api fd bytes destination k]
  by (cases "transmit_to api fd bytes destination k";
      cases "retry_interrupted_send (\<lambda>k. sys_sendto api k fd bytes MSG_NOSIGNAL destination) k")
    (auto split: prod.splits)

definition sent_as :: "string \<Rightarrow> string \<Rightarrow> nat \<Rightarrow> (exception + unit) \<times> 'k \<Rightarrow> send_result \<times> 'k \<Rightarrow> bool" where
  "sent_as operation kind whole thrown reported \<longleftrightarrow> snd thrown = snd reported \<and>
     (case fst thrown of
        Inr _ \<Rightarrow> bytes_sent (fst reported) = whole \<and> send_error (fst reported) = 0
      | Inl e \<Rightarrow> e = System_error operation (send_error (fst reported)) \<and> bytes_sent (fst reported) = 0 \<or>
          e = Runtime_error kind \<and> bytes_sent (fst reported) \<noteq> whole \<and> send_error (fst reported) = EMSGSIZE)"

lemma datagram_sends_agree:
  "rel_option (sent_as ''send'' ''partial connected UDP datagram'' (length bytes))
     (transmit_connected api fd bytes k) (send_connected_datagram api fd bytes k)"
  "rel_option (sent_as ''sendto'' ''partial UDP datagram'' (length bytes))
     (transmit_to api fd bytes destination k) (send_datagram_to api fd bytes destination k)"
  by (auto simp: transmit_connected_retries send_connected_datagram_def transmit_to_retries send_datagram_to_def sent_as_def
      whole_datagram_def datagram_send_result_def option_rel_Some1 option.rel_map split: sum.splits if_splits
      intro!: option.rel_refl_strong)

definition datagram_as :: "(exception + received_datagram option) \<times> 'k \<Rightarrow>
    datagram_receive_result \<times> u8 list \<times> 'k \<Rightarrow> bool" where
  "datagram_as thrown reported \<longleftrightarrow> (case reported of (r, buffer', k) \<Rightarrow>
     thrown = (case dg_state r of
         Received \<Rightarrow> Inr (Some \<lparr>rd_bytes = wire_bytes r, rd_peer = peer r, rd_flags = message_flags r, rd_buffer = buffer'\<rparr>)
       | Not_ready \<Rightarrow> Inr None
       | _ \<Rightarrow> Inl (System_error ''recvmsg'' (dg_error r)), k))"

definition message_as :: "u32 \<Rightarrow> (int + received_datagram) \<times> 'k \<Rightarrow> datagram_receive_result \<times> u8 list \<times> 'k \<Rightarrow> bool" where
  "message_as flags thrown reported \<longleftrightarrow> (case reported of (r, buffer', k) \<Rightarrow> snd thrown = k \<and>
     (case fst thrown of
        Inr d \<Rightarrow> dg_state r = Received \<and>
          d = \<lparr>rd_bytes = wire_bytes r, rd_peer = peer r, rd_flags = message_flags r, rd_buffer = buffer'\<rparr>
      | Inl e \<Rightarrow> if flags AND MSG_DONTWAIT \<noteq> 0 \<and> (e = EAGAIN \<or> e = EWOULDBLOCK) then dg_state r = Not_ready
          else dg_state r = Dg_error \<and> dg_error r = e))"

lemma receive_message_some:
  "receive_message api fd buffer flags' k = Some y \<Longrightarrow> flags' = flags OR MSG_TRUNC \<Longrightarrow>
     \<exists>x. receive_datagram_once api fd buffer flags True k = Some x \<and> message_as flags y x"
proof (induction rule: receive_message.raw_induct [rotated, consumes 1, case_names unfold])
  case (unfold loop api fd buffer flags' k y)
  obtain out k1 where call: "sys_recvmsg api k fd (length buffer) (flags OR MSG_TRUNC) = (out, k1)" by fastforce
  show ?case
  proof (cases "out = Inl EINTR")
    case True
    then have "loop api fd buffer flags' k1 = Some y" using unfold(2,3) call by simp
    then show ?thesis
      using unfold(1) [of api fd buffer flags' k1 y] unfold(3) call True
      by (simp add: receive_datagram_once.simps [of api fd buffer flags True k])
  next
    case False
    then show ?thesis
      using unfold(2,3) call
      by (cases out) (auto simp: receive_datagram_once.simps [of api fd buffer flags True k] message_as_def
          new_datagram_result_def split: if_splits)
  qed
qed

lemma receive_datagram_once_some:
  "receive_datagram_once api fd buffer flags retry k = Some x \<Longrightarrow> retry \<Longrightarrow>
     \<exists>y. receive_message api fd buffer (flags OR MSG_TRUNC) k = Some y"
proof (induction rule: receive_datagram_once.raw_induct [rotated, consumes 1, case_names unfold])
  case (unfold loop api fd buffer flags retry k x)
  obtain out k1 where call: "sys_recvmsg api k fd (length buffer) (flags OR MSG_TRUNC) = (out, k1)" by fastforce
  show ?case
    using unfold call
    by (cases out) (auto simp: receive_message.simps [of api fd buffer "flags OR MSG_TRUNC" k] split: if_splits)
qed

lemma receive_message_agrees:
  "rel_option (message_as flags) (receive_message api fd buffer (flags OR MSG_TRUNC) k)
     (receive_datagram_once api fd buffer flags True k)"
  by (rule option_agree [OF receive_message_some [OF _ refl] receive_datagram_once_some [OF _ TrueI]])

lemma datagram_receives_agree:
  "rel_option datagram_as (map_option (map_prod (map_sum id Some) id) (receive_datagram api fd buffer k))
     (receive_datagram_blocking api fd buffer k)"
  "rel_option datagram_as (attempt_receive_datagram api fd buffer k) (try_receive_datagram api fd buffer k)"
proof -
  have "rel_option (message_as 0) (receive_message api fd buffer MSG_TRUNC k) (receive_datagram_once api fd buffer 0 True k)"
    using receive_message_agrees [of 0] by simp
  then show "rel_option datagram_as (map_option (map_prod (map_sum id Some) id) (receive_datagram api fd buffer k))
     (receive_datagram_blocking api fd buffer k)"
    unfolding receive_datagram_def receive_datagram_blocking_def option.rel_map
    by (rule option.rel_mono_strong) (auto simp: message_as_def datagram_as_def split: sum.splits)
  show "rel_option datagram_as (attempt_receive_datagram api fd buffer k) (try_receive_datagram api fd buffer k)"
    unfolding attempt_receive_datagram_def try_receive_datagram_def option.rel_map
    by (rule option.rel_mono_strong [OF receive_message_agrees [of MSG_DONTWAIT, unfolded or.commute [of MSG_DONTWAIT]]])
      (auto simp: message_as_def datagram_as_def MSG_DONTWAIT_def split: sum.splits if_splits)
qed

text \<open>C23: The benchmark's own socket calls are the library's with exceptions for reports: on every kernel
  each returns exactly when the library's call does and leaves the same state behind. It sends a
  stream to its end when the library reports no error; it receives the same bytes into its buffer,
  waiting in the kernel as the library's blocking receive does and spinning as the library's
  spinning receive does with a stop predicate that reads the clock at every 4096th empty poll, so
  that its safety timeout is thrown exactly when that predicate stops the library's; it sends a
  datagram once, whole, over the connection or to an address; it delivers the same datagram with the
  same source and flags or the same news that there is none, and otherwise throws the error the
  library reports.\<close>

theorem benchmark_calls_agree:
  "rel_option (sends_as (length bytes)) (transmit_all api fd bytes k) (send_all api fd bytes k) \<and>
   rel_option received_as (receive_all api host fd buffer Kernel deadline k) (receive_exact_blocking api fd buffer k) \<and>
   rel_option spun_as (receive_all api host fd buffer Spin deadline k)
     (receive_exact_busy_spin (counting_api api) fd buffer (counted_deadline host deadline)
        (k, spin_deadline_check_interval, False)) \<and>
   rel_option (sent_as ''send'' ''partial connected UDP datagram'' (length bytes))
     (transmit_connected api fd bytes k) (send_connected_datagram api fd bytes k) \<and>
   rel_option (sent_as ''sendto'' ''partial UDP datagram'' (length bytes))
     (transmit_to api fd bytes destination k) (send_datagram_to api fd bytes destination k) \<and>
   rel_option datagram_as (map_option (map_prod (map_sum id Some) id) (receive_datagram api fd buffer k))
     (receive_datagram_blocking api fd buffer k) \<and>
   rel_option datagram_as (attempt_receive_datagram api fd buffer k) (try_receive_datagram api fd buffer k)"
  by (intro conjI transmit_all_agrees receive_all_agrees receive_all_spins datagram_sends_agree datagram_receives_agree)

end
