(* ===== verification/Round_Trips.thy ===== *)
theory Round_Trips
  imports Benchmark_Sockets
begin

text \<open>
  A run of \<open>socket_latency.cpp\<close>: the statistics of its row, \<open>run_client\<close> for an exchange that
  is its parameter as it is the template's. Of a row the rates, CPU times and context switches
  are not modelled.
\<close>

unbundle bit_operations_syntax

section \<open>Sequences of operations\<close>

definition io_return :: "'a \<Rightarrow> ('a, 'k) io" where
  "io_return a k = Some (Inr a, k)"

definition io_throw :: "exception \<Rightarrow> ('a, 'k) io" where
  "io_throw e k = Some (Inl e, k)"

definition io_bind :: "('a, 'k) io \<Rightarrow> ('a \<Rightarrow> ('b, 'k) io) \<Rightarrow> ('b, 'k) io" where
  "io_bind m f k = (case m k of None \<Rightarrow> None | Some (Inl e, k') \<Rightarrow> Some (Inl e, k') | Some (Inr a, k') \<Rightarrow> f a k')"

definition io_lift :: "exception + 'a \<Rightarrow> ('a, 'k) io" where
  "io_lift x k = Some (x, k)"

text \<open>A \<open>for\<close> loop over indices, its variables as a state.\<close>

fun io_loop :: "(nat \<Rightarrow> 's \<Rightarrow> ('s, 'k) io) \<Rightarrow> nat list \<Rightarrow> 's \<Rightarrow> ('s, 'k) io" where
  "io_loop body [] s = io_return s"
| "io_loop body (i # is) s = io_bind (body i s) (io_loop body is)"

named_theorems io_result \<open>when an operation returns a value\<close>

lemma io_return_result [io_result]: "io_return a k = Some (Inr b, k') \<longleftrightarrow> b = a \<and> k' = k"
  by (auto simp: io_return_def)

lemma io_throw_result [io_result]: "io_throw e k \<noteq> Some (Inr b, k')"
  by (simp add: io_throw_def)

lemma io_bind_result [io_result]: "io_bind m f k = Some (Inr b, k') \<longleftrightarrow> (\<exists>a k1. m k = Some (Inr a, k1) \<and> f a k1 = Some (Inr b, k'))"
  by (auto simp: io_bind_def split: option.splits sum.splits)

lemma io_lift_result [io_result]: "io_lift x k = Some (Inr b, k') \<longleftrightarrow> x = Inr b \<and> k' = k"
  by (auto simp: io_lift_def)

lemma io_if_result [io_result]: "(if c then m else m') k = Some (Inr b, k') \<longleftrightarrow>
    (if c then m k = Some (Inr b, k') else m' k = Some (Inr b, k'))"
  by simp

lemma io_loop_invariant:
  assumes "io_loop body [m..<n] s k = Some (Inr s', k')" "m \<le> n" "I m s"
    and "\<And>i s k s' k'. m \<le> i \<Longrightarrow> i < n \<Longrightarrow> I i s \<Longrightarrow> body i s k = Some (Inr s', k') \<Longrightarrow> I (Suc i) s'"
  shows "I n s'"
  using assms
proof (induction "n - m" arbitrary: m s k)
  case (Suc d)
  then have lt: "m < n" by simp
  then have "io_bind (body m s) (io_loop body [Suc m..<n]) k = Some (Inr s', k')"
    using Suc.prems(1) by (simp add: upt_conv_Cons)
  then obtain s1 k1 where step: "body m s k = Some (Inr s1, k1)" "io_loop body [Suc m..<n] s1 k1 = Some (Inr s', k')"
    by (auto simp: io_bind_result)
  show ?case
    using Suc.hyps(2) lt Suc.prems(4)
    by (intro Suc.hyps(1) [of "Suc m" s1 k1]) (auto intro: step Suc.prems(4) [OF order_refl lt Suc.prems(3) step(1)])
qed (simp add: io_return_result)

lemma io_loop_completes:
  assumes "m \<le> n" "I m s k"
    and "\<And>i s k. m \<le> i \<Longrightarrow> i < n \<Longrightarrow> I i s k \<Longrightarrow> \<exists>s' k'. body i s k = Some (Inr s', k') \<and> I (Suc i) s' k'"
  shows "\<exists>s' k'. io_loop body [m..<n] s k = Some (Inr s', k') \<and> I n s' k'"
  using assms
proof (induction "n - m" arbitrary: m s k)
  case (Suc d)
  then have lt: "m < n" by simp
  obtain s1 k1 where step: "body m s k = Some (Inr s1, k1)" "I (Suc m) s1 k1"
    using Suc.prems(3) [OF order_refl lt Suc.prems(2)] by blast
  have "\<exists>s' k'. io_loop body [Suc m..<n] s1 k1 = Some (Inr s', k') \<and> I n s' k'"
    using Suc.hyps(2) lt Suc.prems(3) by (intro Suc.hyps(1)) (auto intro: step(2))
  then show ?case using lt step(1) by (simp add: upt_conv_Cons io_bind_def)
qed (simp add: io_return_def)

section \<open>The row of a run\<close>

definition sample_percentile :: "u64 list \<Rightarrow> size_t \<Rightarrow> size_t \<Rightarrow> exception + u64" where
  "sample_percentile samples numerator denominator =
     (if denominator = 0 \<or> numerator > denominator
      then Inl (Invalid_argument_error ''invalid percentile fraction'')
      else let index = (of_nat (length samples) - 1) * numerator div denominator in Inr (samples ! unat index))"

record counters =
  ct_deadline_misses :: u64
  ct_requests_unobserved :: u64
  ct_response_deadline_misses :: u64
  ct_duplicates :: u64
  ct_reordered :: u64
  ct_invalid :: u64
  ct_truncated :: u64

text \<open>What the kernel reports of a socket's options.\<close>

record socket_settings =
  st_busy_poll_us :: int
  st_send_buffer_bytes :: int
  st_receive_buffer_bytes :: int
  st_tcp_nodelay :: int

record run_row =
  row_protocol :: protocol
  row_profile_name :: string
  row_receive_wait :: string
  row_udp_connected :: bool
  row_tcp_nodelay_requested :: bool
  row_tcp_quickack_rearm :: bool
  row_busy_poll_requested_us :: int
  row_payload_bytes :: size_t
  row_run :: size_t
  row_samples :: size_t
  row_attempted_samples :: size_t
  row_warmup :: size_t
  row_udp_deadline_ms :: size_t
  row_minimum_ns :: u64
  row_p50_ns :: u64
  row_p90_ns :: u64
  row_p95_ns :: u64
  row_p99_ns :: u64
  row_p999_ns :: u64
  row_maximum_ns :: u64
  row_connect_ns :: u64
  row_client_settings :: socket_settings
  row_server_settings :: socket_settings
  row_counters :: counters
  row_checksum :: u64

definition summarize_run :: "protocol \<Rightarrow> size_t \<Rightarrow> size_t \<Rightarrow> socket_options \<Rightarrow> u64 list \<Rightarrow> u64 \<Rightarrow>
    socket_settings \<Rightarrow> socket_settings \<Rightarrow> counters \<Rightarrow> u64 \<Rightarrow> exception + run_row" where
  "summarize_run selected payload_bytes run c samples connect_ns client_settings server_settings counts checksum =
     (if samples = [] then Inl (Runtime_error ''run completed without a latency sample'')
      else let samples = sort samples
        in case sample_percentile samples 50 100 of Inl e \<Rightarrow> Inl e | Inr p50 \<Rightarrow>
           case sample_percentile samples 90 100 of Inl e \<Rightarrow> Inl e | Inr p90 \<Rightarrow>
           case sample_percentile samples 95 100 of Inl e \<Rightarrow> Inl e | Inr p95 \<Rightarrow>
           case sample_percentile samples 99 100 of Inl e \<Rightarrow> Inl e | Inr p99 \<Rightarrow>
           case sample_percentile samples 999 1000 of Inl e \<Rightarrow> Inl e | Inr p999 \<Rightarrow>
           Inr \<lparr>row_protocol = selected, row_profile_name = pf_name (so_profile c),
             row_receive_wait = (if receive_wait (so_profile c) = Spin then ''spin''
               else if selected = Tcp then ''blocking'' else ''poll''),
             row_udp_connected = udp_connected (so_profile c), row_tcp_nodelay_requested = tcp_nodelay (so_profile c),
             row_tcp_quickack_rearm = tcp_quickack_rearm (so_profile c),
             row_busy_poll_requested_us = busy_poll_us (so_profile c),
             row_payload_bytes = payload_bytes, row_run = run, row_samples = of_nat (length samples),
             row_attempted_samples = so_samples c, row_warmup = so_warmup c, row_udp_deadline_ms = so_udp_timeout_ms c,
             row_minimum_ns = hd samples, row_p50_ns = p50, row_p90_ns = p90, row_p95_ns = p95, row_p99_ns = p99,
             row_p999_ns = p999, row_maximum_ns = last samples,
             row_connect_ns = connect_ns, row_client_settings = client_settings, row_server_settings = server_settings,
             row_counters = counts, row_checksum = checksum\<rparr>)"

text \<open>What a row says of its samples: order statistics of the right ranks.\<close>

definition order_statistic :: "u64 list \<Rightarrow> nat \<Rightarrow> nat \<Rightarrow> u64" where
  "order_statistic samples numerator denominator =
     sort samples ! ((length samples - 1) * numerator div denominator)"

definition describes :: "run_row \<Rightarrow> u64 list \<Rightarrow> bool" where
  "describes row samples \<longleftrightarrow> samples \<noteq> [] \<and> row_samples row = of_nat (length samples) \<and>
     row_minimum_ns row = Min (set samples) \<and> row_maximum_ns row = Max (set samples) \<and>
     row_p50_ns row = order_statistic samples 50 100 \<and> row_p90_ns row = order_statistic samples 90 100 \<and>
     row_p95_ns row = order_statistic samples 95 100 \<and> row_p99_ns row = order_statistic samples 99 100 \<and>
     row_p999_ns row = order_statistic samples 999 1000"

lemma sample_percentile_exact:
  assumes "xs \<noteq> []" "length xs \<le> 2 ^ 32" "n \<le> d" "0 < d" "d \<le> 1000"
  shows "sample_percentile xs (of_nat n) (of_nat d) = Inr (xs ! ((length xs - 1) * n div d))"
proof -
  have u: "unat (of_nat n :: size_t) = n" "unat (of_nat d :: size_t) = d" "unat (of_nat (length xs) :: size_t) = length xs"
    using assms by (simp_all add: unat_of_nat64)
  have l: "unat (of_nat (length xs) - 1 :: size_t) = length xs - 1"
    using unat_sub_le [of 1 "of_nat (length xs) :: size_t"] assms(1) u(3) by (simp add: u64_le_unat Suc_le_eq)
  let ?a = "of_nat (length xs) - 1 :: size_t"
  have "(length xs - 1) * n \<le> 2 ^ 32 * 1000" using assms by (intro mult_le_mono) auto
  then have "(length xs - 1) * n < 2 ^ 64" by simp
  moreover have "unat (?a * of_nat n) = unat ?a * unat (of_nat n :: size_t) mod 2 ^ 64"
    by (simp only: unat_word_ariths) simp
  ultimately have "unat (?a * of_nat n) = (length xs - 1) * n" unfolding l u by simp
  then have "unat (?a * of_nat n div of_nat d) = (length xs - 1) * n div d"
    unfolding unat_div by (simp only: u)
  moreover have "(of_nat d :: size_t) \<noteq> 0" "\<not> (of_nat n :: size_t) > of_nat d"
    using assms(3,4) u by (auto simp: u64_less_unat word_unat_eq_iff [of "of_nat d"])
  ultimately show ?thesis by (simp add: sample_percentile_def Let_def)
qed

lemma sorted_ends:
  assumes "xs \<noteq> []"
  shows "hd (sort xs) = Min (set xs)" "last (sort xs) = Max (set (xs :: u64 list))"
proof -
  have "sort xs \<noteq> []" using assms by (metis set_empty set_sort)
  then obtain y ys where first: "sort xs = y # ys" by (cases "sort xs") auto
  have elems: "set (y # ys) = set xs" using first by (metis set_sort)
  have "sorted (y # ys)" using first by (metis sorted_sort)
  then have "\<forall>x \<in> set xs. y \<le> x" "y \<in> set xs" unfolding elems [symmetric] by auto
  then show "hd (sort xs) = Min (set xs)" unfolding first by (intro Min_eqI [symmetric]) auto
  have "x \<le> last (y # ys)" if "x \<in> set xs" for x
    using that sorted_nth_le_last [OF \<open>sorted (y # ys)\<close>] unfolding elems [symmetric] in_set_conv_nth by blast
  moreover have "last (y # ys) \<in> set xs" unfolding elems [symmetric] by (rule last_in_set) simp
  ultimately show "last (sort xs) = Max (set xs)" unfolding first by (intro Max_eqI [symmetric]) auto
qed

lemma summarize_run_exact:
  assumes "samples \<noteq> []" "length samples \<le> 2 ^ 32"
  shows "\<exists>row. summarize_run p n run c samples connect_ns client_settings server_settings counts checksum = Inr row \<and> describes row samples \<and>
    row_counters row = counts \<and> row_checksum row = checksum \<and> row_attempted_samples row = so_samples c"
proof -
  have ne: "sort samples \<noteq> []" "length (sort samples) = length samples" using assms(1) by (metis set_empty set_sort, simp)
  note pc = sample_percentile_exact [OF ne(1), unfolded ne(2), OF assms(2)]
  show ?thesis
    using pc [of 50 100] pc [of 90 100] pc [of 95 100] pc [of 99 100] pc [of 999 1000] assms(1)
    by (simp add: summarize_run_def Let_def describes_def order_statistic_def sorted_ends)
qed

lemma summarize_run_row:
  assumes "summarize_run p n run c samples connect_ns client_settings server_settings counts checksum = Inr row" "length samples \<le> 2 ^ 32"
  shows "describes row samples" "row_counters row = counts" "row_checksum row = checksum" "row_attempted_samples row = so_samples c"
proof -
  have "samples \<noteq> []" using assms(1) by (auto simp: summarize_run_def)
  then show "describes row samples" "row_counters row = counts" "row_checksum row = checksum" "row_attempted_samples row = so_samples c"
    using summarize_run_exact [of samples p n run c connect_ns client_settings server_settings counts checksum] assms by auto
qed

section \<open>The client of a serialized workload\<close>

definition read_clock :: "'k host \<Rightarrow> (u64, 'k) io" where
  "read_clock host k = (case host_clock host k of (t, k') \<Rightarrow> Some (Inr t, k'))"

text \<open>What the server has to report when its thread is joined.\<close>

record server_report =
  sv_settings :: socket_settings
  sv_messages :: u64
  sv_duplicates :: u64
  sv_reordered :: u64
  sv_measured_unique_requests :: u64
  sv_invalid :: u64
  sv_truncated :: u64

definition new_report :: server_report where
  "new_report = \<lparr>sv_settings = \<lparr>st_busy_poll_us = 0, st_send_buffer_bytes = 0, st_receive_buffer_bytes = 0,
       st_tcp_nodelay = - 1\<rparr>, sv_messages = 0, sv_duplicates = 0, sv_reordered = 0, sv_measured_unique_requests = 0,
     sv_invalid = 0, sv_truncated = 0\<rparr>"

text \<open>An exchange sends the outbound message and fills the inbound buffer; it knows when it started.\<close>

type_synonym 'k exchange = "u8 list \<Rightarrow> u8 list \<Rightarrow> u64 \<Rightarrow> (u8 list, 'k) io"

definition warmup_exchange :: "protocol \<Rightarrow> 'k host \<Rightarrow> 'k exchange \<Rightarrow> (unit, 'k) io \<Rightarrow> nat \<Rightarrow>
    u8 list \<times> u8 list \<Rightarrow> (u8 list \<times> u8 list, 'k) io" where
  "warmup_exchange selected host exchange post_exchange index buffers =
     (let sequence = of_nat index :: u32
      in io_bind (io_lift (write_header (fst buffers) selected sequence)) (\<lambda>outbound.
         io_bind (read_clock host) (\<lambda>exchange_started.
         io_bind (exchange outbound (snd buffers) exchange_started) (\<lambda>inbound.
         io_bind post_exchange (\<lambda>_.
         if inbound \<noteq> outbound then io_throw (Runtime_error ''warmup payload validation failed'')
         else io_bind (io_lift (read_sequence inbound selected)) (\<lambda>observed.
           if observed \<noteq> sequence then io_throw (Runtime_error ''warmup payload validation failed'')
           else io_return (outbound, inbound)))))))"

record measured_run =
  mr_outbound :: "u8 list"
  mr_inbound :: "u8 list"
  mr_latencies :: "u64 list"
  mr_checksum :: u64
  mr_valid_responses :: u64

text \<open>
  The counts of duplicates and reorderings are raised only on the way to an exception, so that
  a run that returns has counted none.
\<close>

definition measured_exchange :: "protocol \<Rightarrow> size_t \<Rightarrow> size_t \<Rightarrow> 'k host \<Rightarrow> 'k exchange \<Rightarrow> (unit, 'k) io \<Rightarrow> nat \<Rightarrow>
    measured_run \<Rightarrow> (measured_run, 'k) io" where
  "measured_exchange selected payload_bytes warmup host exchange post_exchange index r =
     (let absolute_index = warmup + of_nat index; sequence = ucast absolute_index :: u32
      in io_bind (io_lift (write_header (mr_outbound r) selected sequence)) (\<lambda>outbound.
         io_bind (read_clock host) (\<lambda>started.
         io_bind (exchange outbound (mr_inbound r) started) (\<lambda>inbound.
         io_bind (read_clock host) (\<lambda>finished.
         io_bind post_exchange (\<lambda>_.
         if finished \<le> started then io_throw (Runtime_error ''non-positive RTT sample'')
         else io_bind (io_lift (read_sequence inbound selected)) (\<lambda>observed.
           if observed < sequence then io_throw (Runtime_error ''duplicate response in serialized workload'')
           else if observed > sequence then io_throw (Runtime_error ''reordered response in serialized workload'')
           else if inbound \<noteq> outbound then io_throw (Runtime_error ''measured payload validation failed'')
           else io_return \<lparr>mr_outbound = outbound, mr_inbound = inbound,
             mr_latencies = (mr_latencies r)[index := finished - started],
             mr_checksum = update_checksum (mr_checksum r) sequence payload_bytes selected,
             mr_valid_responses = mr_valid_responses r + 1\<rparr>)))))))"

definition checksum_seed :: u64 where
  "checksum_seed = 1469598103934665603"

definition expected_run_checksum :: "protocol \<Rightarrow> size_t \<Rightarrow> size_t \<Rightarrow> nat \<Rightarrow> u64" where
  "expected_run_checksum selected payload_bytes warmup samples =
     fold (\<lambda>index checksum. update_checksum checksum (ucast (warmup + of_nat index)) payload_bytes selected)
       [0..<samples] checksum_seed"

definition run_client :: "protocol \<Rightarrow> size_t \<Rightarrow> size_t \<Rightarrow> socket_options \<Rightarrow> 'k host \<Rightarrow> 'k exchange \<Rightarrow> (unit, 'k) io \<Rightarrow>
    (server_report, 'k) io \<Rightarrow> u64 \<Rightarrow> socket_settings \<Rightarrow> (run_row, 'k) io" where
  "run_client selected payload_bytes run c host exchange post_exchange join_server connect_ns client_settings =
     io_bind (io_lift (initialize_message (replicate (unat payload_bytes) 0) selected)) (\<lambda>outbound.
       let total = so_warmup c + so_samples c
       in if total > 0xffffffff then io_throw (Invalid_argument_error ''warmup plus samples exceeds wire sequence'')
       else let expected_checksum = expected_run_checksum selected payload_bytes (so_warmup c) (unat (so_samples c))
       in io_bind (io_loop (warmup_exchange selected host exchange post_exchange) [0..<unat (so_warmup c)]
                    (outbound, replicate (unat payload_bytes) 0)) (\<lambda>buffers.
          io_bind (io_loop (measured_exchange selected payload_bytes (so_warmup c) host exchange post_exchange)
                    [0..<unat (so_samples c)]
                    \<lparr>mr_outbound = fst buffers, mr_inbound = snd buffers, mr_latencies = replicate (unat (so_samples c)) 0,
                     mr_checksum = checksum_seed, mr_valid_responses = 0\<rparr>) (\<lambda>r.
          io_bind join_server (\<lambda>server.
          if sv_messages server \<noteq> total then io_throw (Runtime_error ''server message count validation failed'')
          else if mr_checksum r \<noteq> expected_checksum
          then io_throw (Runtime_error ''aggregate sequence checksum validation failed'')
          else io_lift (summarize_run selected payload_bytes run c (mr_latencies r) connect_ns client_settings (sv_settings server)
            \<lparr>ct_deadline_misses = so_samples c - mr_valid_responses r, ct_requests_unobserved = 0,
             ct_response_deadline_misses = 0, ct_duplicates = sv_duplicates server,
             ct_reordered = sv_reordered server, ct_invalid = 0, ct_truncated = 0\<rparr> (mr_checksum r))))))"

section \<open>What a row vouches for\<close>

text \<open>The message of an index, and that an exchange brought it back between two clock readings.\<close>

definition run_message :: "protocol \<Rightarrow> size_t \<Rightarrow> size_t \<Rightarrow> nat \<Rightarrow> u8 list" where
  "run_message p n warmup index = wire_message (unat n) p (ucast (warmup + of_nat index))"

definition echoed :: "'k host \<Rightarrow> 'k exchange \<Rightarrow> u8 list \<Rightarrow> u64 \<Rightarrow> bool" where
  "echoed host exchange m latency \<longleftrightarrow> (\<exists>k started k1 buffer k2 finished k3.
     host_clock host k = (started, k1) \<and> exchange m buffer started k1 = Some (Inr m, k2) \<and>
     host_clock host k2 = (finished, k3) \<and> started < finished \<and> latency = finished - started)"

definition measured_so_far :: "protocol \<Rightarrow> size_t \<Rightarrow> size_t \<Rightarrow> 'k host \<Rightarrow> 'k exchange \<Rightarrow> nat \<Rightarrow> nat \<Rightarrow> measured_run \<Rightarrow> bool" where
  "measured_so_far p n warmup host exchange samples i r \<longleftrightarrow>
     (\<exists>s. mr_outbound r = wire_message (unat n) p s) \<and> length (mr_latencies r) = samples \<and>
     (\<forall>j < i. echoed host exchange (run_message p n warmup j) (mr_latencies r ! j)) \<and>
     mr_checksum r = expected_run_checksum p n warmup i \<and> mr_valid_responses r = of_nat i"

lemma read_clock_result [io_result]: "read_clock host k = Some (Inr t, k') \<longleftrightarrow> host_clock host k = (t, k')"
  by (auto simp: read_clock_def split: prod.splits)

lemma warmup_exchange_keeps:
  assumes "8 \<le> unat n" "fst buffers = wire_message (unat n) p s"
    and "warmup_exchange p host exchange post i buffers k = Some (Inr buffers', k')"
  shows "\<exists>s'. fst buffers' = wire_message (unat n) p s'"
  using assms by (auto simp: warmup_exchange_def Let_def io_result rewrite_header split: if_splits)

lemma expected_run_checksum_Suc:
  "expected_run_checksum p n warmup (Suc i) =
     update_checksum (expected_run_checksum p n warmup i) (ucast (warmup + of_nat i)) n p"
  by (simp add: expected_run_checksum_def)

lemma measured_exchange_step:
  assumes "8 \<le> unat n" "i < samples" "measured_so_far p n warmup host exchange samples i r"
    and "measured_exchange p n warmup host exchange post i r k = Some (Inr r', k')"
  shows "measured_so_far p n warmup host exchange samples (Suc i) r'"
proof -
  let ?s = "ucast (warmup + of_nat i) :: u32"
  obtain s where out: "mr_outbound r = wire_message (unat n) p s" using assms(3) by (auto simp: measured_so_far_def)
  obtain started k1 inbound k2 finished k3 where run:
    "host_clock host k = (started, k1)" "exchange (run_message p n warmup i) (mr_inbound r) started k1 = Some (Inr inbound, k2)"
    "host_clock host k2 = (finished, k3)" "started < finished" "inbound = run_message p n warmup i"
    and r': "r' = \<lparr>mr_outbound = run_message p n warmup i, mr_inbound = inbound,
      mr_latencies = (mr_latencies r)[i := finished - started], mr_checksum = update_checksum (mr_checksum r) ?s n p,
      mr_valid_responses = mr_valid_responses r + 1\<rparr>"
    using assms(1,4) out
    by (auto simp: measured_exchange_def Let_def io_result rewrite_header run_message_def not_le split: if_splits)
  have "echoed host exchange (run_message p n warmup i) (finished - started)"
    using run unfolding echoed_def by blast
  then show ?thesis
    using assms(2,3) unfolding measured_so_far_def r'
    by (auto simp: expected_run_checksum_Suc nth_list_update less_Suc_eq run_message_def add.commute)
qed

lemma run_sequence:
  assumes "unat (w :: size_t) + i < 2 ^ 32"
  shows "unat (ucast (w + of_nat i) :: u32) = unat w + i"
proof -
  have less: "unat w + i < 2 ^ 64" using assms by (rule less_le_trans) simp
  then have "i < 2 ^ 64" by linarith
  then have u: "unat (of_nat i :: size_t) = i" by (rule unat_of_nat64)
  have "unat (w + of_nat i) = unat w + i" using unat_add_no_wrap [of w "of_nat i"] less unfolding u by blast
  then show ?thesis using assms by (simp add: unsigned_ucast_eq take_bit_eq_mod)
qed

lemma run_message_inj:
  assumes "unat (w :: size_t) + i < 2 ^ 32" "unat w + j < 2 ^ 32" "run_message p n w i = run_message p n w j"
  shows "i = j"
proof -
  have "(ucast (w + of_nat i) :: u32) = ucast (w + of_nat j)"
    using assms(3) unfolding run_message_def wire_message_eq_iff by blast
  then have "unat w + i = unat w + j" using run_sequence [OF assms(1)] run_sequence [OF assms(2)] by metis
  then show ?thesis by simp
qed

text \<open>C20: A row that a serialized (TCP) run returns vouches for every sample: the payload holds the header,
  every measured message, each with its own sequence number, came back exactly as it was sent,
  every latency is the positive time between the clock readings around that exchange, the row's
  figures are the order statistics of these latencies, the checksum is the one of the whole
  sequence, no deadline miss is counted, and the server has echoed every message.\<close>

theorem run_client_row:
  assumes "run_client p n run c host exchange post_exchange join_server connect_ns client_settings k = Some (Inr row, k')"
    and "unat (so_warmup c) + unat (so_samples c) < 2 ^ 32"
  shows "8 \<le> unat n \<and> (\<exists>latencies server k1. length latencies = unat (so_samples c) \<and>
      (\<forall>i < length latencies. echoed host exchange (run_message p n (so_warmup c) i) (latencies ! i) \<and> 0 < latencies ! i) \<and>
      describes row latencies \<and> join_server k1 = Some (Inr server, k') \<and>
      sv_messages server = so_warmup c + so_samples c \<and>
      row_counters row = \<lparr>ct_deadline_misses = 0, ct_requests_unobserved = 0, ct_response_deadline_misses = 0,
        ct_duplicates = sv_duplicates server, ct_reordered = sv_reordered server, ct_invalid = 0, ct_truncated = 0\<rparr>) \<and>
    inj_on (run_message p n (so_warmup c)) {..<unat (so_samples c)} \<and>
    row_checksum row = expected_run_checksum p n (so_warmup c) (unat (so_samples c))"
proof -
  let ?w = "so_warmup c" and ?S = "unat (so_samples c)"
  obtain out where init: "initialize_message (replicate (unat n) 0) p = Inr out"
    using assms(1) by (auto simp: run_client_def io_result)
  have n: "8 \<le> unat n"
    using init write_header_short [of "replicate (unat n) 0" p 0] by (cases "unat n < 8") (auto simp: initialize_message_def)
  then have out: "out = wire_message (unat n) p 0" using init initialize_message_layout [OF n, of "replicate (unat n) 0"] by simp
  obtain buffers k0 r k1 server where
    warm: "io_loop (warmup_exchange p host exchange post_exchange) [0..<unat ?w] (out, replicate (unat n) 0) k = Some (Inr buffers, k0)"
    and meas: "io_loop (measured_exchange p n ?w host exchange post_exchange) [0..<?S]
      \<lparr>mr_outbound = fst buffers, mr_inbound = snd buffers, mr_latencies = replicate ?S 0, mr_checksum = checksum_seed,
       mr_valid_responses = 0\<rparr> k0 = Some (Inr r, k1)"
    and join: "join_server k1 = Some (Inr server, k')" "sv_messages server = ?w + so_samples c"
    and row: "summarize_run p n run c (mr_latencies r) connect_ns client_settings (sv_settings server)
      \<lparr>ct_deadline_misses = so_samples c - mr_valid_responses r,
        ct_requests_unobserved = 0, ct_response_deadline_misses = 0, ct_duplicates = sv_duplicates server,
        ct_reordered = sv_reordered server, ct_invalid = 0, ct_truncated = 0\<rparr> (mr_checksum r) = Inr row"
    using assms(1) init by (auto simp: run_client_def Let_def io_result split: if_splits)
  obtain s where buffers: "fst buffers = wire_message (unat n) p s"
    using io_loop_invariant [OF warm, where I = "\<lambda>_ buffers. \<exists>s. fst buffers = wire_message (unat n) p s"]
      warmup_exchange_keeps [OF n] out by (metis fst_conv le0)
  have "measured_so_far p n ?w host exchange ?S 0 \<lparr>mr_outbound = fst buffers, mr_inbound = snd buffers,
      mr_latencies = replicate ?S 0, mr_checksum = checksum_seed, mr_valid_responses = 0\<rparr>"
    using buffers by (auto simp: measured_so_far_def expected_run_checksum_def)
  then have fin: "measured_so_far p n ?w host exchange ?S ?S r"
    by (rule io_loop_invariant [OF meas, where I = "measured_so_far p n ?w host exchange ?S", OF le0])
      (rule measured_exchange_step [OF n])
  let ?l = "mr_latencies r"
  have "length ?l \<le> 2 ^ 32" using fin assms(2) by (simp add: measured_so_far_def)
  note d = summarize_run_row [OF row this]
  have pos: "echoed host exchange m l \<Longrightarrow> 0 < l" for m l by (auto simp: echoed_def word_gt_0)
  have "inj_on (run_message p n ?w) {..<?S}"
    using assms(2) by (intro inj_onI run_message_inj [of ?w _ _ p n]) simp_all
  moreover have "\<exists>latencies server k1. length latencies = ?S \<and>
      (\<forall>i < length latencies. echoed host exchange (run_message p n ?w i) (latencies ! i) \<and> 0 < latencies ! i) \<and>
      describes row latencies \<and> join_server k1 = Some (Inr server, k') \<and> sv_messages server = ?w + so_samples c \<and>
      row_counters row = \<lparr>ct_deadline_misses = 0, ct_requests_unobserved = 0, ct_response_deadline_misses = 0,
        ct_duplicates = sv_duplicates server, ct_reordered = sv_reordered server, ct_invalid = 0, ct_truncated = 0\<rparr>"
    using fin d join pos unfolding measured_so_far_def
    by (intro exI [of _ ?l] exI [of _ server] exI [of _ k1]) auto
  moreover have "row_checksum row = expected_run_checksum p n ?w ?S" using fin d(3) by (simp add: measured_so_far_def)
  ultimately show ?thesis using n by blast
qed

text \<open>An exchange that returns its message at once, between readings of a clock that counts them.\<close>

theorem run_client_row_witness:
  "\<exists>row k'. run_client Tcp 8 1 (default_socket_options\<lparr>so_warmup := 1, so_samples := 1\<rparr>)
      \<lparr>host_clock = (\<lambda>k. (of_nat k, Suc k)), host_poll = (\<lambda>k _ _. (Inr Timed_out, k)), host_cancelled = (\<lambda>k. (False, k))\<rparr>
      (\<lambda>m b t k. Some (Inr m, k)) (io_return ()) (io_return (new_report\<lparr>sv_messages := 2\<rparr>)) 0 (sv_settings new_report) 0 =
        Some (Inr row, k') \<and>
    (\<exists>latencies. length latencies = 1 \<and> describes row latencies)"
proof -
  let ?host = "\<lparr>host_clock = (\<lambda>k. (of_nat k, Suc k)), host_poll = (\<lambda>k _ _. (Inr Timed_out, k)),
    host_cancelled = (\<lambda>k. (False, k))\<rparr> :: nat host"
  let ?c = "default_socket_options\<lparr>so_warmup := 1, so_samples := 1\<rparr>"
  have "initialize_message (replicate 8 0) Tcp = Inr (wire_message 8 Tcp 0)" by (rule initialize_message_layout) simp_all
  then have "\<exists>row k'. run_client Tcp 8 1 ?c ?host (\<lambda>m b t k. Some (Inr m, k)) (io_return ()) (io_return (new_report\<lparr>sv_messages := 2\<rparr>))
      0 (sv_settings new_report) 0 = Some (Inr row, k')"
    using read_wire_message [of 8 Tcp 0 Tcp 0] read_wire_message [of 8 Tcp 1 Tcp 1]
      summarize_run_exact [of "[1]" Tcp 8 1 ?c 0 "sv_settings new_report" "sv_settings new_report"]
    by (simp add: run_client_def warmup_exchange_def measured_exchange_def Let_def io_bind_def io_lift_def io_return_def
        read_clock_def rewrite_header expected_run_checksum_def u64_le_unat) metis
  then obtain row k' where run: "run_client Tcp 8 1 ?c ?host (\<lambda>m b t k. Some (Inr m, k)) (io_return ())
      (io_return (new_report\<lparr>sv_messages := 2\<rparr>)) 0 (sv_settings new_report) 0 = Some (Inr row, k')" by blast
  have "unat (so_warmup ?c) + unat (so_samples ?c) < 2 ^ 32" by simp
  from run_client_row [OF run this] show ?thesis using run by auto
qed

end
