(* ===== verification/Tcp_Echo.thy ===== *)
theory Tcp_Echo
  imports Round_Trips
begin

text \<open>
  The TCP workload of \<open>socket_latency.cpp\<close>: its socket options, the server's echo loop and the
  client's exchange, and both ends together. Creating, connecting and accepting sockets and
  pinning threads are not modelled. For the round trip the client's exchange runs over a kernel
  beside which the server's thread stands, and takes its turn while the client receives; the
  server's loop runs over the stream of a whole run.
\<close>

unbundle bit_operations_syntax

section \<open>Socket options\<close>

definition SO_SNDBUF :: int where "SO_SNDBUF = 7"
definition SO_RCVBUF :: int where "SO_RCVBUF = 8"

definition socket_integer_option :: "'k socket_api \<Rightarrow> int \<Rightarrow> int \<Rightarrow> int \<Rightarrow> (int, 'k) io" where
  "socket_integer_option api descriptor level option_name k =
     (case sys_getsockopt api k descriptor level option_name of
        (Inl errno, k') \<Rightarrow> Some (Inl (System_error ''getsockopt'' errno), k')
      | (Inr (v, len), k') \<Rightarrow> Some (if len \<noteq> sizeof_int
          then Inl (Runtime_error ''getsockopt returned an unexpected length'') else Inr v, k'))"

definition set_socket_integer_option :: "'k socket_api \<Rightarrow> int \<Rightarrow> int \<Rightarrow> int \<Rightarrow> int \<Rightarrow> (unit, 'k) io" where
  "set_socket_integer_option api descriptor level option_name v k =
     (case sys_setsockopt api k descriptor level option_name v of
        (Inl errno, k') \<Rightarrow> Some (Inl (System_error ''setsockopt'' errno), k')
      | (Inr _, k') \<Rightarrow> Some (Inr (), k'))"

definition configure_busy_poll :: "'k socket_api \<Rightarrow> int \<Rightarrow> profile_spec \<Rightarrow> (int, 'k) io" where
  "configure_busy_poll api descriptor profile =
     io_bind (if busy_poll_us profile > 0
              then set_socket_integer_option api descriptor SOL_SOCKET SO_BUSY_POLL (busy_poll_us profile)
              else io_return ()) (\<lambda>_.
     io_bind (socket_integer_option api descriptor SOL_SOCKET SO_BUSY_POLL) (\<lambda>observed.
     if busy_poll_us profile > 0 \<and> observed \<noteq> busy_poll_us profile
     then io_throw (Runtime_error ''SO_BUSY_POLL verification failed'') else io_return observed))"

definition rearm_tcp_quickack :: "'k socket_api \<Rightarrow> int \<Rightarrow> profile_spec \<Rightarrow> (unit, 'k) io" where
  "rearm_tcp_quickack api descriptor profile =
     (if tcp_quickack_rearm profile then set_socket_integer_option api descriptor IPPROTO_TCP TCP_QUICKACK 1
      else io_return ())"

text \<open>What the server does to the connection it accepted.\<close>

definition configure_connection :: "'k socket_api \<Rightarrow> int \<Rightarrow> profile_spec \<Rightarrow> (socket_settings, 'k) io" where
  "configure_connection api descriptor profile =
     io_bind (if tcp_nodelay profile then set_socket_integer_option api descriptor IPPROTO_TCP TCP_NODELAY 1
              else io_return ()) (\<lambda>_.
     io_bind (configure_busy_poll api descriptor profile) (\<lambda>busy_poll.
     io_bind (rearm_tcp_quickack api descriptor profile) (\<lambda>_.
     io_bind (socket_integer_option api descriptor SOL_SOCKET SO_SNDBUF) (\<lambda>send_buffer.
     io_bind (socket_integer_option api descriptor SOL_SOCKET SO_RCVBUF) (\<lambda>receive_buffer.
     io_bind (socket_integer_option api descriptor IPPROTO_TCP TCP_NODELAY) (\<lambda>nodelay.
     if nodelay \<noteq> (if tcp_nodelay profile then 1 else 0)
     then io_throw (Runtime_error ''server TCP_NODELAY verification failed'')
     else io_return \<lparr>st_busy_poll_us = busy_poll, st_send_buffer_bytes = send_buffer,
       st_receive_buffer_bytes = receive_buffer, st_tcp_nodelay = nodelay\<rparr>))))))"

section \<open>The echo and the exchange\<close>

definition echo_turn :: "'k socket_api \<Rightarrow> 'k host \<Rightarrow> int \<Rightarrow> profile_spec \<Rightarrow> nat \<Rightarrow> u8 list \<times> server_report \<Rightarrow>
    (u8 list \<times> server_report, 'k) io" where
  "echo_turn api host descriptor profile index s =
     io_bind (receive_all api host descriptor (fst s) (receive_wait profile) no_deadline) (\<lambda>message.
     io_bind (transmit_all api descriptor message) (\<lambda>_.
     io_bind (rearm_tcp_quickack api descriptor profile) (\<lambda>_.
     io_return (message, (snd s)\<lparr>sv_messages := sv_messages (snd s) + 1\<rparr>))))"

definition tcp_server :: "'k socket_api \<Rightarrow> 'k host \<Rightarrow> int \<Rightarrow> size_t \<Rightarrow> socket_options \<Rightarrow> (server_report, 'k) io" where
  "tcp_server api host descriptor payload_bytes c =
     io_bind (io_loop (echo_turn api host descriptor (so_profile c)) [0..<unat (so_warmup c + so_samples c)]
       (replicate (unat payload_bytes) 0, new_report)) (\<lambda>s. io_return (snd s))"

definition tcp_spin_safety_timeout_ns :: u64 where
  "tcp_spin_safety_timeout_ns = 5000000000"

definition tcp_exchange :: "'k socket_api \<Rightarrow> 'k host \<Rightarrow> int \<Rightarrow> profile_spec \<Rightarrow> 'k exchange" where
  "tcp_exchange api host descriptor profile outbound inbound started =
     io_bind (transmit_all api descriptor outbound) (\<lambda>_.
     receive_all api host descriptor inbound (receive_wait profile) (started + tcp_spin_safety_timeout_ns))"

section \<open>Runs that pass\<close>

text \<open>The clock, a count of nanoseconds, read in 64 bits, and what an operation may add to it.\<close>

definition takes :: "('k \<Rightarrow> nat) \<Rightarrow> nat \<Rightarrow> 'k \<Rightarrow> 'k \<Rightarrow> bool" where
  "takes time d k k' \<longleftrightarrow> time k \<le> time k' \<and> time k' \<le> time k + d"

definition clock_reads :: "'k host \<Rightarrow> ('k \<Rightarrow> nat) \<Rightarrow> nat \<Rightarrow> ('k \<Rightarrow> bool) \<Rightarrow> ('k \<Rightarrow> u64) \<Rightarrow> bool" where
  "clock_reads host time d good count \<longleftrightarrow> (\<forall>k. good k \<longrightarrow> (\<exists>k'. host_clock host k = (of_nat (time k), k') \<and>
     good k' \<and> takes time d k k' \<and> count k' = count k))"

text \<open>An exchange that brings its message back takes at least a nanosecond, and is counted by the server.\<close>

definition echoes :: "'k exchange \<Rightarrow> nat \<Rightarrow> ('k \<Rightarrow> nat) \<Rightarrow> nat \<Rightarrow> ('k \<Rightarrow> bool) \<Rightarrow> ('k \<Rightarrow> u64) \<Rightarrow> bool" where
  "echoes exchange n time d good count \<longleftrightarrow> (\<forall>k m b t. good k \<longrightarrow> length m = n \<longrightarrow> length b = n \<longrightarrow>
     (\<exists>k'. exchange m b t k = Some (Inr m, k') \<and> good k' \<and> takes time d k k' \<and> time k < time k' \<and>
       count k' = count k + 1))"

definition harmless :: "(unit, 'k) io \<Rightarrow> ('k \<Rightarrow> nat) \<Rightarrow> nat \<Rightarrow> ('k \<Rightarrow> bool) \<Rightarrow> ('k \<Rightarrow> u64) \<Rightarrow> bool" where
  "harmless post time d good count \<longleftrightarrow> (\<forall>k. good k \<longrightarrow> (\<exists>k'. post k = Some (Inr (), k') \<and> good k' \<and>
     takes time d k k' \<and> count k' = count k))"

lemma io_bind_run: "m k = Some (Inr a, k1) \<Longrightarrow> io_bind m f k = f a k1"
  by (simp add: io_bind_def)

lemma io_lift_run: "io_bind (io_lift (Inr a)) f k = f a k"
  by (simp add: io_bind_def io_lift_def)

lemma read_clock_run: "host_clock host k = (t, k1) \<Longrightarrow> io_bind (read_clock host) f k = f t k1"
  by (simp add: io_bind_def read_clock_def)

lemmas io_run = io_lift_run io_bind_run read_clock_run

definition buffers_ok :: "nat \<Rightarrow> protocol \<Rightarrow> u8 list \<times> u8 list \<Rightarrow> bool" where
  "buffers_ok n p buffers \<longleftrightarrow> (\<exists>s. fst buffers = wire_message n p s) \<and> length (snd buffers) = n"

lemma warmup_exchange_passes:
  assumes n: "8 \<le> n" and laws: "clock_reads host time d good count" "echoes exchange n time d good count"
    "harmless post time d good count" and "good k" "buffers_ok n p buffers"
  shows "\<exists>buffers' k'. warmup_exchange p host exchange post i buffers k = Some (Inr buffers', k') \<and>
    buffers_ok n p buffers' \<and> good k' \<and> time k' \<le> time k + 3 * d \<and> count k' = count k + 1"
proof -
  obtain s where out: "fst buffers = wire_message n p s" "length (snd buffers) = n" using assms(6) by (auto simp: buffers_ok_def)
  let ?m = "wire_message n p (of_nat i)"
  obtain k1 where k1: "host_clock host k = (of_nat (time k), k1)" "good k1" "takes time d k k1" "count k1 = count k"
    using laws(1) assms(5) unfolding clock_reads_def by blast
  obtain k2 where k2: "exchange ?m (snd buffers) (of_nat (time k)) k1 = Some (Inr ?m, k2)" "good k2" "takes time d k1 k2"
    "count k2 = count k1 + 1"
    using laws(2) k1(2) out(2) length_wire_message [OF n] unfolding echoes_def by blast
  obtain k3 where k3: "post k2 = Some (Inr (), k3)" "good k3" "takes time d k2 k3" "count k3 = count k2"
    using laws(3) k2(2) unfolding harmless_def by blast
  have "warmup_exchange p host exchange post i buffers k = Some (Inr (?m, ?m), k3)"
    using read_wire_message [OF n, of p "of_nat i" p "of_nat i"]
    by (simp add: warmup_exchange_def Let_def out rewrite_header [OF n] io_run k1(1) k2(1) k3(1) io_return_def)
  moreover have "buffers_ok n p (?m, ?m)" using n by (auto simp: buffers_ok_def)
  ultimately show ?thesis using k1 k2 k3 by (intro exI [of _ "(?m, ?m)"] exI [of _ k3]) (simp add: takes_def)
qed

lemma measured_exchange_passes:
  assumes n: "8 \<le> n" "n = unat payload" and laws: "clock_reads host time d good count" "echoes exchange n time d good count"
    "harmless post time d good count" and "good k" "mr_outbound r = wire_message n p s" "length (mr_inbound r) = n"
    and room: "time k + 4 * d < 2 ^ 64"
  shows "\<exists>r' k'. measured_exchange p payload warmup host exchange post i r k = Some (Inr r', k') \<and>
    (\<exists>s'. mr_outbound r' = wire_message n p s') \<and> length (mr_inbound r') = n \<and>
    mr_checksum r' = update_checksum (mr_checksum r) (ucast (warmup + of_nat i)) payload p \<and>
    mr_valid_responses r' = mr_valid_responses r + 1 \<and>
    length (mr_latencies r') = length (mr_latencies r) \<and>
    good k' \<and> time k' \<le> time k + 4 * d \<and> count k' = count k + 1"
proof -
  let ?s = "ucast (warmup + of_nat i) :: u32"
  let ?m = "wire_message n p ?s"
  obtain k1 where k1: "host_clock host k = (of_nat (time k), k1)" "good k1" "takes time d k k1" "count k1 = count k"
    using laws(1) assms(6) unfolding clock_reads_def by blast
  obtain k2 where k2: "exchange ?m (mr_inbound r) (of_nat (time k)) k1 = Some (Inr ?m, k2)" "good k2" "takes time d k1 k2"
    "time k1 < time k2" "count k2 = count k1 + 1"
    using laws(2) k1(2) assms(8) length_wire_message [OF n(1)] unfolding echoes_def by blast
  obtain k3 where k3: "host_clock host k2 = (of_nat (time k2), k3)" "good k3" "takes time d k2 k3" "count k3 = count k2"
    using laws(1) k2(2) unfolding clock_reads_def by blast
  obtain k4 where k4: "post k3 = Some (Inr (), k4)" "good k4" "takes time d k3 k4" "count k4 = count k3"
    using laws(3) k3(2) unfolding harmless_def by blast
  have "time k < time k2" "time k2 < 2 ^ 64" using k1(3) k2(3,4) room unfolding takes_def by linarith+
  then have "\<not> (of_nat (time k2) :: u64) \<le> of_nat (time k)"
    by (simp add: u64_le_unat unat_of_nat64 not_le)
  moreover have "read_sequence ?m p = Inr ?s" using read_wire_message [OF n(1)] by blast
  ultimately have "measured_exchange p payload warmup host exchange post i r k =
      Some (Inr \<lparr>mr_outbound = ?m, mr_inbound = ?m, mr_latencies = (mr_latencies r)[i := of_nat (time k2) - of_nat (time k)],
        mr_checksum = update_checksum (mr_checksum r) ?s payload p, mr_valid_responses = mr_valid_responses r + 1\<rparr>, k4)"
    by (simp add: measured_exchange_def Let_def assms(7) rewrite_header [OF n(1)] io_run k1(1) k2(1) k3(1) k4(1) io_return_def)
  then show ?thesis using k1 k2 k3 k4 length_wire_message [OF n(1)] by (auto simp: takes_def)
qed

lemma run_client_completes:
  assumes "initialize_message (replicate (unat payload) 0) p = Inr out" "\<not> so_warmup c + so_samples c > 0xffffffff"
    and "io_loop (warmup_exchange p host exchange post) [0..<unat (so_warmup c)] (out, replicate (unat payload) 0) k =
      Some (Inr buffers, k1)"
    and "io_loop (measured_exchange p payload (so_warmup c) host exchange post) [0..<unat (so_samples c)]
      \<lparr>mr_outbound = fst buffers, mr_inbound = snd buffers, mr_latencies = replicate (unat (so_samples c)) 0,
       mr_checksum = checksum_seed, mr_valid_responses = 0\<rparr> k1 = Some (Inr r, k2)"
    and "join_server k2 = Some (Inr server, k3)" "sv_messages server = so_warmup c + so_samples c"
    and "mr_checksum r = expected_run_checksum p payload (so_warmup c) (unat (so_samples c))"
    and "summarize_run p payload run c (mr_latencies r) connect_ns client_settings (sv_settings server) \<lparr>ct_deadline_misses = so_samples c - mr_valid_responses r,
      ct_requests_unobserved = 0, ct_response_deadline_misses = 0, ct_duplicates = sv_duplicates server,
      ct_reordered = sv_reordered server, ct_invalid = 0, ct_truncated = 0\<rparr> (mr_checksum r) = Inr row"
  shows "run_client p payload run c host exchange post join_server connect_ns client_settings k = Some (Inr row, k3)"
  using assms by (simp add: run_client_def Let_def io_bind_def io_lift_def)

text \<open>C22: A serialized run over an exchange that brings every message back passes: when the clock goes
  forward across every exchange and does not wrap during the run, and the server's report counts
  one message per exchange, \<open>run_client\<close> returns a row with every sample for every payload
  that holds a header: none of its validations fails, the aggregate checksum included.\<close>

theorem echoing_run_passes:
  assumes n: "8 \<le> unat payload" and samples: "0 < unat (so_samples c)" "unat (so_warmup c) + unat (so_samples c) < 2 ^ 32"
    and laws: "clock_reads host time d good count" "echoes exchange (unat payload) time d good count"
      "harmless post_exchange time d good count"
    and join: "\<And>k. good k \<Longrightarrow> \<exists>server k'. join_server k = Some (Inr server, k') \<and> sv_messages server = count k"
    and start: "good k" "count k = 0"
      "time k + 4 * d * (unat (so_warmup c) + unat (so_samples c)) < 2 ^ 64"
  shows "\<exists>row k'. run_client p payload run c host exchange post_exchange join_server connect_ns client_settings k = Some (Inr row, k') \<and>
    row_samples row = so_samples c \<and> ct_deadline_misses (row_counters row) = 0"
proof -
  let ?n = "unat payload" and ?w = "unat (so_warmup c)" and ?s = "unat (so_samples c)"
  let ?W = "\<lambda>i buffers k1. buffers_ok ?n p buffers \<and> good k1 \<and> time k1 \<le> time k + 3 * d * i \<and> count k1 = of_nat i"
  have "\<exists>b' k'. warmup_exchange p host exchange post_exchange i b k1 = Some (Inr b', k') \<and> ?W (Suc i) b' k'" if "?W i b k1" for i b k1
    using warmup_exchange_passes [OF n laws, of k1 p b i] that by (auto simp: algebra_simps)
  moreover have "?W 0 (wire_message ?n p 0, replicate ?n 0) k" using start(1,2) by (auto simp: buffers_ok_def)
  ultimately have "\<exists>buffers k1. io_loop (warmup_exchange p host exchange post_exchange) [0..<?w]
      (wire_message ?n p 0, replicate ?n 0) k = Some (Inr buffers, k1) \<and> ?W ?w buffers k1"
    by (intro io_loop_completes [where I = ?W]) blast+
  then obtain buffers k1 where warm: "io_loop (warmup_exchange p host exchange post_exchange) [0..<?w]
      (wire_message ?n p 0, replicate ?n 0) k = Some (Inr buffers, k1)" "?W ?w buffers k1"
    by blast
  let ?r0 = "\<lparr>mr_outbound = fst buffers, mr_inbound = snd buffers, mr_latencies = replicate ?s 0,
    mr_checksum = checksum_seed, mr_valid_responses = 0\<rparr>"
  let ?M = "\<lambda>i r k2. (\<exists>s. mr_outbound r = wire_message ?n p s) \<and> length (mr_inbound r) = ?n \<and> length (mr_latencies r) = ?s \<and>
    mr_checksum r = expected_run_checksum p payload (so_warmup c) i \<and> mr_valid_responses r = of_nat i \<and>
    good k2 \<and> time k2 \<le> time k + 3 * d * ?w + 4 * d * i \<and> count k2 = of_nat (?w + i)"
  have "\<exists>r' k'. measured_exchange p payload (so_warmup c) host exchange post_exchange i r k2 = Some (Inr r', k') \<and> ?M (Suc i) r' k'"
    if i: "i < ?s" "?M i r k2" for i r k2
  proof -
    have "time k2 + 4 * d \<le> time k + 3 * d * ?w + 4 * d * Suc i" using i(2) by simp
    also have "\<dots> \<le> time k + 4 * d * (?w + ?s)"
      using mult_le_mono2 [of "Suc i" ?s "4 * d"] i(1) by (simp add: algebra_simps)
    finally have "time k2 + 4 * d < 2 ^ 64" using start(3) by linarith
    moreover obtain s where "mr_outbound r = wire_message ?n p s" using i(2) by blast
    ultimately show ?thesis
      using measured_exchange_passes [OF n refl laws, of k2 r p s "so_warmup c" i] i(2)
      by (fastforce simp: expected_run_checksum_Suc algebra_simps)
  qed
  moreover have "?M 0 ?r0 k1" using warm(2) by (auto simp: buffers_ok_def expected_run_checksum_def)
  ultimately have "\<exists>r k2. io_loop (measured_exchange p payload (so_warmup c) host exchange post_exchange) [0..<?s] ?r0 k1 =
      Some (Inr r, k2) \<and> ?M ?s r k2"
    by (intro io_loop_completes [where I = ?M]) blast+
  then obtain r k2 where meas: "io_loop (measured_exchange p payload (so_warmup c) host exchange post_exchange) [0..<?s] ?r0 k1 =
      Some (Inr r, k2)" and r: "?M ?s r k2"
    by blast
  obtain server k3 where join': "join_server k2 = Some (Inr server, k3)" "sv_messages server = count k2" using join r by blast
  have served: "sv_messages server = so_warmup c + so_samples c" using r join'(2) by simp
  have sums: "mr_checksum r = expected_run_checksum p payload (so_warmup c) ?s" using r by blast
  have small: "\<not> so_warmup c + so_samples c > 0xffffffff"
    using samples(2) unat_add_no_wrap [of "so_warmup c" "so_samples c"] by (simp add: u64_less_unat)
  have init: "initialize_message (replicate ?n 0) p = Inr (wire_message ?n p 0)" using n by (simp add: initialize_message_layout)
  obtain row where row: "summarize_run p payload run c (mr_latencies r) connect_ns client_settings (sv_settings server) \<lparr>ct_deadline_misses = so_samples c - mr_valid_responses r,
      ct_requests_unobserved = 0, ct_response_deadline_misses = 0, ct_duplicates = sv_duplicates server,
      ct_reordered = sv_reordered server, ct_invalid = 0, ct_truncated = 0\<rparr> (mr_checksum r) = Inr row"
    and d: "describes row (mr_latencies r)" "ct_deadline_misses (row_counters row) = so_samples c - mr_valid_responses r"
    using summarize_run_exact [of "mr_latencies r" p payload run c connect_ns client_settings "sv_settings server"] r samples by fastforce
  have "run_client p payload run c host exchange post_exchange join_server connect_ns client_settings k = Some (Inr row, k3)"
    by (rule run_client_completes [where join_server = join_server and k = k, OF init small warm(1) meas join'(1) served sums row])
  then show ?thesis using d r by (auto simp: describes_def)
qed

theorem echoing_run_passes_witness:
  "\<exists>row k'. run_client Tcp 64 1 (default_socket_options\<lparr>so_warmup := 1, so_samples := 2\<rparr>)
      \<lparr>host_clock = (\<lambda>k. (of_nat (fst k), k)), host_poll = (\<lambda>k _ _. (Inr Timed_out, k)), host_cancelled = (\<lambda>k. (False, k))\<rparr>
      (\<lambda>m b t k. Some (Inr m, (Suc (fst k), snd k + 1))) (\<lambda>k. Some (Inr (), k))
      (\<lambda>k. Some (Inr (new_report\<lparr>sv_messages := snd k\<rparr>), k)) 0 (sv_settings new_report) (7, 0) = Some (Inr row, k') \<and>
    row_samples row = 2 \<and> ct_deadline_misses (row_counters row) = 0"
proof -
  let ?host = "\<lparr>host_clock = (\<lambda>k. (of_nat (fst k), k)), host_poll = (\<lambda>k _ _. (Inr Timed_out, k)),
    host_cancelled = (\<lambda>k. (False, k))\<rparr> :: (nat \<times> u64) host"
  let ?c = "default_socket_options\<lparr>so_warmup := 1, so_samples := 2\<rparr>"
  have "clock_reads ?host fst 1 (\<lambda>_. True) snd" "harmless (\<lambda>k. Some (Inr (), k)) fst 1 (\<lambda>_. True) snd"
    "echoes (\<lambda>m b t k. Some (Inr m, (Suc (fst k), snd k + 1))) (unat (64 :: u64)) fst 1 (\<lambda>_. True) snd"
    by (simp_all add: clock_reads_def echoes_def harmless_def takes_def)
  from echoing_run_passes [where c = ?c and k = "(7, 0)" and payload = 64 and p = Tcp and run = 1, OF _ _ _ this(1,3,2),
      of "\<lambda>k. Some (Inr (new_report\<lparr>sv_messages := snd k\<rparr>), k)" 0 "sv_settings new_report"]
  show ?thesis by simp
qed

section \<open>Both ends\<close>

text \<open>
  A pipe of the connection: bytes accepted from \<open>tx\<close> become pending in \<open>flow\<close> and are delivered
  in order at \<open>rx\<close>; the other pipe, \<open>back\<close>, is not touched. With data pending, a call that brings
  nothing is interrupted or, where it may not wait, too early, and neither for ever.
\<close>

definition fruitless :: "u32 \<Rightarrow> int \<Rightarrow> bool" where
  "fruitless flags e \<longleftrightarrow> e = EINTR \<or> flags AND MSG_DONTWAIT \<noteq> 0 \<and> (e = EAGAIN \<or> e = EWOULDBLOCK)"

definition sends_into :: "'k socket_api \<Rightarrow> int \<Rightarrow> ('k \<Rightarrow> u8 list) \<Rightarrow> ('k \<Rightarrow> 'b) \<Rightarrow> ('k \<Rightarrow> nat) \<Rightarrow> bool" where
  "sends_into api tx flow back patience \<longleftrightarrow> (\<forall>k bytes. bytes \<noteq> [] \<longrightarrow>
     (case sys_send api k tx bytes MSG_NOSIGNAL of
        (Inr n, k') \<Rightarrow> 0 < n \<and> n \<le> length bytes \<and> flow k' = flow k @ take n bytes \<and> back k' = back k
      | (Inl e, k') \<Rightarrow> e = EINTR \<and> patience k' < patience k \<and> flow k' = flow k \<and> back k' = back k))"

definition receives_from :: "'k socket_api \<Rightarrow> int \<Rightarrow> ('k \<Rightarrow> u8 list) \<Rightarrow> ('k \<Rightarrow> 'b) \<Rightarrow> ('k \<Rightarrow> nat) \<Rightarrow> bool" where
  "receives_from api rx flow back patience \<longleftrightarrow> (\<forall>k n flags. 0 < n \<longrightarrow> flow k \<noteq> [] \<longrightarrow>
     (case sys_recv api k rx n flags of
        (Inr bytes, k') \<Rightarrow> bytes \<noteq> [] \<and> length bytes \<le> n \<and> flow k = bytes @ flow k' \<and> back k' = back k
      | (Inl e, k') \<Rightarrow> fruitless flags e \<and> patience k' < patience k \<and> flow k' = flow k \<and> back k' = back k))"

text \<open>Reading the clock leaves the pipes alone.\<close>

definition clock_apart :: "'k host \<Rightarrow> ('k \<Rightarrow> 'b) \<Rightarrow> ('k \<Rightarrow> nat) \<Rightarrow> bool" where
  "clock_apart host pipes patience \<longleftrightarrow>
     (\<forall>k. pipes (snd (host_clock host k)) = pipes k \<and> patience (snd (host_clock host k)) \<le> patience k)"

lemma transmit_loop_into:
  assumes "sends_into api tx flow back patience"
  shows "\<exists>k'. transmit_loop api tx bytes offset k = Some (Inr (), k') \<and> flow k' = flow k @ drop offset bytes \<and> back k' = back k"
proof (induction offset k rule: progress_induct [where m = "\<lambda>offset. length bytes - offset" and p = patience])
  case (1 offset k)
  show ?case
  proof (cases "offset < length bytes")
    case True
    obtain out k1 where call: "sys_send api k tx (drop offset bytes) MSG_NOSIGNAL = (out, k1)" by fastforce
    have law: "case out of
        Inr n \<Rightarrow> 0 < n \<and> n \<le> length bytes - offset \<and> flow k1 = flow k @ take n (drop offset bytes) \<and> back k1 = back k
      | Inl e \<Rightarrow> e = EINTR \<and> patience k1 < patience k \<and> flow k1 = flow k \<and> back k1 = back k"
      using assms [unfolded sends_into_def, rule_format, of "drop offset bytes" k] True call by (cases out) auto
    show ?thesis
    proof (cases out)
      case (Inr n)
      then have "length bytes - (offset + n) < length bytes - offset" using law True by auto
      from 1(1) [OF this, of k1] show ?thesis
        using law True call Inr take_drop [of n "offset" bytes]
        by (auto simp: transmit_loop.simps [of api tx bytes offset k] add.commute) (metis append_take_drop_id drop_drop)
    next
      case (Inl e)
      then show ?thesis using 1(2) [of k1] law True call by (auto simp: transmit_loop.simps [of api tx bytes offset k])
    qed
  qed (simp add: transmit_loop.simps [of api tx bytes offset k])
qed

lemma transmit_all_into:
  assumes "sends_into api tx flow back patience"
  shows "\<exists>k'. transmit_all api tx bytes k = Some (Inr (), k') \<and> flow k' = flow k @ bytes \<and> back k' = back k"
  using transmit_loop_into [OF assms, of bytes 0 k] by (simp add: transmit_all_def)

text \<open>
  What a receive needs of the world: in the states \<open>good\<close>, with bytes to come, a call brings some
  of them or goes down in \<open>rank\<close>, a well-founded order that reading the clock does not climb.
\<close>

definition brings :: "'s socket_api \<Rightarrow> 's host \<Rightarrow> int \<Rightarrow> ('s \<Rightarrow> u8 list) \<Rightarrow> ('s \<Rightarrow> bool) \<Rightarrow> ('s \<times> 's) set \<Rightarrow> bool" where
  "brings api host rx flow good rank \<longleftrightarrow> wf rank \<and>
     (\<forall>s n flags. good s \<longrightarrow> 0 < n \<longrightarrow> flow s \<noteq> [] \<longrightarrow>
       (case sys_recv api s rx n flags of
          (Inr bytes, s') \<Rightarrow> bytes \<noteq> [] \<and> length bytes \<le> n \<and> flow s = bytes @ flow s' \<and> good s'
        | (Inl e, s') \<Rightarrow> fruitless flags e \<and> (s', s) \<in> rank \<and> flow s' = flow s \<and> good s')) \<and>
     (\<forall>s s0. good s \<longrightarrow> (s, s0) \<in> rank \<longrightarrow>
       (snd (host_clock host s), s0) \<in> rank \<and> flow (snd (host_clock host s)) = flow s \<and> good (snd (host_clock host s)))"

text \<open>How a spinning receive gives up: its last act was to read a clock past its deadline.\<close>

definition timed_out :: "'s host \<Rightarrow> wait_strategy \<Rightarrow> u64 \<Rightarrow> exception + u8 list \<Rightarrow> 's \<Rightarrow> bool" where
  "timed_out host strategy deadline r s' \<longleftrightarrow> r = Inl (Runtime_error ''TCP spin receive exceeded its safety timeout'') \<and>
     strategy = Spin \<and> deadline \<noteq> no_deadline \<and> (\<exists>s t. host_clock host s = (t, s') \<and> deadline \<le> t)"

lemma receive_all_loop_brings:
  assumes brings: "brings api host rx flow good rank"
    and "good s" "offset \<le> length buffer" "length buffer - offset \<le> length (flow s)"
  shows "\<exists>r s'. receive_all_loop api host rx strategy deadline spins offset buffer s = Some (r, s') \<and>
      (r = Inr (take offset buffer @ take (length buffer - offset) (flow s)) \<and>
       flow s' = drop (length buffer - offset) (flow s) \<and> good s' \<or> timed_out host strategy deadline r s')"
proof -
  have "wf (less_than <*lex*> rank)" using brings by (intro wf_lex_prod wf_less_than) (simp add: brings_def)
  then show ?thesis using assms(2-4)
  proof (induction "(length buffer - offset, s)" arbitrary: offset buffer spins s rule: wf_induct_rule)
    case (less offset buffer s spins)
    show ?case
    proof (cases "offset < length buffer")
      case False
      then have "offset = length buffer" using less(3) by simp
      then show ?thesis using less(2) by (simp add: receive_all_loop.simps [of api host rx strategy deadline spins _ buffer s])
    next
      case True
      let ?flags = "if strategy = Spin then MSG_DONTWAIT else 0 :: u32"
      obtain out s1 where call: "sys_recv api s rx (length buffer - offset) ?flags = (out, s1)" by fastforce
      have "flow s \<noteq> []" using less(4) True by auto
      then have law: "case out of
          Inr bytes \<Rightarrow> bytes \<noteq> [] \<and> length bytes \<le> length buffer - offset \<and> flow s = bytes @ flow s1 \<and> good s1
        | Inl e \<Rightarrow> fruitless ?flags e \<and> (s1, s) \<in> rank \<and> flow s1 = flow s \<and> good s1"
        using brings [unfolded brings_def, THEN conjunct2, THEN conjunct1, rule_format, of s "length buffer - offset" ?flags]
          less(2) True call by (cases out) auto
      note loop = receive_all_loop.simps [of api host rx strategy deadline spins offset buffer s]
      show ?thesis
      proof (cases out)
        case (Inr bytes)
        let ?buffer = "write_at buffer offset bytes" and ?offset = "offset + length bytes"
        have b: "bytes \<noteq> []" "length bytes \<le> length buffer - offset" "flow s = bytes @ flow s1" "good s1"
          using law Inr by auto
        have len: "length ?buffer = length buffer" using b(2) True by simp
        have shorter: "length ?buffer - ?offset < length buffer - offset" using b True len by (cases bytes) auto
        have pre: "take ?offset ?buffer = take offset buffer @ bytes" using True by (simp add: write_at_def)
        have all: "take offset buffer @ bytes @ take (length buffer - ?offset) (flow s1) =
            take offset buffer @ take (length buffer - offset) (flow s)"
          "drop (length buffer - ?offset) (flow s1) = drop (length buffer - offset) (flow s)"
          using b(2,3) True by auto
        have "\<exists>r s'. receive_all_loop api host rx strategy deadline spins ?offset ?buffer s1 = Some (r, s') \<and>
            (r = Inr (take ?offset ?buffer @ take (length ?buffer - ?offset) (flow s1)) \<and>
             flow s' = drop (length ?buffer - ?offset) (flow s1) \<and> good s' \<or> timed_out host strategy deadline r s')"
          using b less(4) True len shorter by (intro less(1)) auto
        then show ?thesis
          using True call Inr b(1) unfolding len pre append_assoc all by (simp add: loop)
      next
        case (Inl e)
        have e: "fruitless ?flags e" "(s1, s) \<in> rank" "flow s1 = flow s" "good s1" using law Inl by auto
        have again: "\<exists>r s'. receive_all_loop api host rx strategy deadline spins' offset buffer s2 = Some (r, s') \<and>
            (r = Inr (take offset buffer @ take (length buffer - offset) (flow s)) \<and>
             flow s' = drop (length buffer - offset) (flow s) \<and> good s' \<or> timed_out host strategy deadline r s')"
          if "(s2, s) \<in> rank" "flow s2 = flow s" "good s2" for s2 spins'
          using that less(3,4) less(1) [where offset = offset and buffer = buffer and s = s2 and spins = spins'] by simp
        obtain t s2 where clock: "host_clock host s1 = (t, s2)" by fastforce
        have s2: "(s2, s) \<in> rank" "flow s2 = flow s" "good s2"
          using brings [unfolded brings_def, THEN conjunct2, THEN conjunct2, rule_format, OF e(4,2)] clock e(3) by simp_all
        show ?thesis
        proof (cases "e = EINTR")
          case True
          then show ?thesis using again [OF e(2-4), of spins] call Inl \<open>offset < length buffer\<close> by (simp add: loop)
        next
          case False
          obtain unbounded where no: "(deadline = no_deadline) = unbounded" by blast
          have spin: "strategy = Spin" "e = EAGAIN \<or> e = EWOULDBLOCK" using e(1) False by (auto simp: fruitless_def split: if_splits)
          consider unbounded | "\<not> unbounded" "spins - 1 \<noteq> 0"
            | "\<not> unbounded" "spins - 1 = 0" "\<not> t \<ge> deadline" | "\<not> unbounded" "spins - 1 = 0" "t \<ge> deadline"
            by blast
          then show ?thesis
          proof cases
            case 1
            then show ?thesis using again [OF e(2-4), of spins] call Inl False spin \<open>offset < length buffer\<close> by (simp add: loop [unfolded spin(1)] no)
          next
            case 2
            then show ?thesis using again [OF e(2-4), of "spins - 1"] call Inl False spin \<open>offset < length buffer\<close> by (simp add: loop [unfolded spin(1)] no)
          next
            case 3
            then show ?thesis using again [OF s2, of spin_deadline_check_interval] call Inl False spin clock \<open>offset < length buffer\<close>
              by (simp add: loop [unfolded spin(1)] no)
          next
            case 4
            then have "timed_out host strategy deadline (Inl (Runtime_error ''TCP spin receive exceeded its safety timeout'')) s2"
              using spin(1) clock no by (auto simp: timed_out_def)
            then show ?thesis using 4 call Inl False spin clock \<open>offset < length buffer\<close> by (simp add: loop [unfolded spin(1)] no)
          qed
        qed
      qed
    qed
  qed
qed

text \<open>The pipe is such a world.\<close>

lemma receives_from_brings:
  assumes "receives_from api rx flow back patience" "clock_apart host (\<lambda>k. (flow k, back k)) patience"
  shows "brings api host rx flow (\<lambda>k. back k = z) (measure patience)"
  unfolding brings_def
proof (intro conjI allI impI)
  fix k n flags assume "back k = z" "0 < (n :: nat)" "flow k \<noteq> []"
  then show "case sys_recv api k rx n flags of
      (Inr bytes, s') \<Rightarrow> bytes \<noteq> [] \<and> length bytes \<le> n \<and> flow k = bytes @ flow s' \<and> back s' = z
    | (Inl e, s') \<Rightarrow> fruitless flags e \<and> (s', k) \<in> measure patience \<and> flow s' = flow k \<and> back s' = z"
    using assms(1) [unfolded receives_from_def, rule_format, of n k flags] by (auto split: prod.splits sum.splits)
next
  fix k k0 assume "back k = z" "(k, k0) \<in> measure patience"
  then show "(snd (host_clock host k), k0) \<in> measure patience" "flow (snd (host_clock host k)) = flow k"
    "back (snd (host_clock host k)) = z"
    using assms(2) le_less_trans by (auto simp: clock_apart_def)
qed simp

lemma receive_all_from:
  assumes "receives_from api rx flow back patience" "clock_apart host (\<lambda>k. (flow k, back k)) patience"
    and "flow k = bytes @ rest" "length buffer = length bytes"
  shows "\<exists>k'. receive_all api host rx buffer strategy no_deadline k = Some (Inr bytes, k') \<and> flow k' = rest \<and> back k' = back k"
  using receive_all_loop_brings [OF receives_from_brings [OF assms(1,2)], of k "back k" 0 buffer strategy no_deadline
      spin_deadline_check_interval] assms(3,4)
  by (auto simp: receive_all_def timed_out_def)

text \<open>The connection of both ends: the client's pipe up, the server's pipe down.\<close>

definition connects :: "'k socket_api \<Rightarrow> 'k host \<Rightarrow> int \<Rightarrow> int \<Rightarrow> ('k \<Rightarrow> u8 list) \<Rightarrow> ('k \<Rightarrow> u8 list) \<Rightarrow> ('k \<Rightarrow> nat) \<Rightarrow> bool" where
  "connects api host client server up down patience \<longleftrightarrow>
     sends_into api client up down patience \<and> receives_from api server up down patience \<and>
     sends_into api server down up patience \<and> receives_from api client down up patience \<and>
     clock_apart host (\<lambda>k. (up k, down k)) patience \<and>
     (\<forall>k. \<exists>k'. sys_setsockopt api k server IPPROTO_TCP TCP_QUICKACK 1 = (Inr (), k') \<and> up k' = up k \<and> down k' = down k)"

text \<open>The server's turn echoes the next message of its pipe.\<close>

lemma echo_turn_returns:
  assumes "connects api host client server up down patience" "up k = m @ rest" "length buffer = length m"
  shows "\<exists>k'. echo_turn api host server profile i (buffer, report) k =
    Some (Inr (m, report\<lparr>sv_messages := sv_messages report + 1\<rparr>), k') \<and> up k' = rest \<and> down k' = down k @ m"
proof -
  note laws = assms(1) [unfolded connects_def]
  obtain k2 where k2: "receive_all api host server buffer (receive_wait profile) no_deadline k = Some (Inr m, k2)"
    "up k2 = rest" "down k2 = down k"
    using receive_all_from [of api server up down patience host k m rest buffer "receive_wait profile"] assms(2,3) laws by fast
  obtain k3 where k3: "transmit_all api server m k2 = Some (Inr (), k3)" "down k3 = down k @ m" "up k3 = rest"
    using transmit_all_into [of api server down up patience m k2] laws k2 by auto
  obtain k4 where k4: "rearm_tcp_quickack api server profile k3 = Some (Inr (), k4)" "down k4 = down k @ m" "up k4 = rest"
    using laws k3 by (cases "tcp_quickack_rearm profile")
      (auto simp: rearm_tcp_quickack_def set_socket_integer_option_def io_return_def dest!: spec [of _ k3])
  show ?thesis using k2(1) k3(1) k4 by (simp add: echo_turn_def io_bind_def io_return_def)
qed

text \<open>The server's loop echoes a whole stream of messages, whatever follows it.\<close>

lemma tcp_server_echoes:
  assumes "connects api host client server up down patience" "up k = concat ms @ rest"
    and "length ms = unat (so_warmup c + so_samples c)" "\<forall>m \<in> set ms. length m = unat payload"
  shows "\<exists>k'. tcp_server api host server payload c k = Some (Inr (new_report\<lparr>sv_messages := of_nat (length ms)\<rparr>), k') \<and>
    up k' = rest \<and> down k' = down k @ concat ms"
proof -
  let ?I = "\<lambda>i s k1. length (fst s) = unat payload \<and> snd s = new_report\<lparr>sv_messages := of_nat i\<rparr> \<and>
    up k1 = concat (drop i ms) @ rest \<and> down k1 = down k @ concat (take i ms)"
  have "\<exists>s' k2. echo_turn api host server (so_profile c) i s k1 = Some (Inr s', k2) \<and> ?I (Suc i) s' k2"
    if i: "i < length ms" "?I i s k1" for i s k1
  proof -
    obtain buffer report where s: "s = (buffer, report)" by (cases s)
    have "drop i ms = ms ! i # drop (Suc i) ms" "take (Suc i) ms = take i ms @ [ms ! i]"
      using i(1) by (simp_all add: Cons_nth_drop_Suc take_Suc_conv_app_nth)
    then show ?thesis
      using i assms(4) echo_turn_returns [OF assms(1), where k = k1 and m = "ms ! i" and rest = "concat (drop (Suc i) ms) @ rest"
        and buffer = buffer and profile = "so_profile c" and i = i and report = report] s
      by fastforce
  qed
  moreover have "?I 0 (replicate (unat payload) 0, new_report) k"
    using assms(2) by (simp add: new_report_def)
  ultimately have "\<exists>s' k'. io_loop (echo_turn api host server (so_profile c)) [0..<length ms]
      (replicate (unat payload) 0, new_report) k = Some (Inr s', k') \<and> ?I (length ms) s' k'"
    by (intro io_loop_completes [where I = ?I]) blast+
  then show ?thesis unfolding tcp_server_def assms(3) [symmetric] by (auto simp: io_bind_def io_return_def)
qed

text \<open>
  The connection as the client's thread sees it: beside the world stands the server's thread,
  with its buffer and report. When a whole message is pending for it, the server takes its turn
  at the client's next receive, after the first \<open>es_delay\<close> receives that may not wait.
\<close>

record echo_server =
  es_buffer :: "u8 list"
  es_report :: server_report
  es_delay :: nat

definition served_api :: "'k socket_api \<Rightarrow> 'k host \<Rightarrow> ('k \<Rightarrow> u8 list) \<Rightarrow> int \<Rightarrow> profile_spec \<Rightarrow> ('k \<times> echo_server) socket_api" where
  "served_api api host up server profile = (beside_api api)\<lparr>sys_recv := (\<lambda>(k, s) fd n flags.
     if es_buffer s \<noteq> [] \<and> length (es_buffer s) \<le> length (up k)
     then if flags AND MSG_DONTWAIT \<noteq> 0 \<and> 0 < es_delay s then (Inl EAGAIN, (k, s\<lparr>es_delay := es_delay s - 1\<rparr>))
       else case echo_turn api host server profile 0 (es_buffer s, es_report s) k of
           Some (Inr (buffer, report), k') \<Rightarrow> beside (sys_recv api k' fd n flags) (s\<lparr>es_buffer := buffer, es_report := report\<rparr>)
         | _ \<Rightarrow> beside (sys_recv api k fd n flags) s
     else beside (sys_recv api k fd n flags) s)\<rparr>"

definition beside_host :: "'k host \<Rightarrow> ('k \<times> 'x) host" where
  "beside_host host = \<lparr>host_clock = (\<lambda>(k, x). beside (host_clock host k) x),
     host_poll = (\<lambda>(k, x) fd timeout. beside (host_poll host k fd timeout) x),
     host_cancelled = (\<lambda>(k, x). beside (host_cancelled host k) x)\<rparr>"

lemma served_sends:
  assumes "sends_into api client up down patience"
  shows "sends_into (served_api api host up server profile) client (\<lambda>s. up (fst s)) (\<lambda>s. (down (fst s), snd s)) (\<lambda>s. patience (fst s))"
  unfolding sends_into_def
proof (intro allI impI)
  fix s :: "'a \<times> echo_server" and bytes :: "u8 list" assume "bytes \<noteq> []"
  from assms [unfolded sends_into_def, rule_format, OF this, of "fst s"]
  show "case sys_send (served_api api host up server profile) s client bytes MSG_NOSIGNAL of
      (Inr n, s') \<Rightarrow> 0 < n \<and> n \<le> length bytes \<and> up (fst s') = up (fst s) @ take n bytes \<and> (down (fst s'), snd s') = (down (fst s), snd s)
    | (Inl e, s') \<Rightarrow> e = EINTR \<and> patience (fst s') < patience (fst s) \<and> up (fst s') = up (fst s) \<and>
        (down (fst s'), snd s') = (down (fst s), snd s)"
    by (cases s) (auto simp: served_api_def beside_api_def beside_def split: prod.splits sum.splits)
qed

text \<open>The client's wait: the message is pending for the server, or the echo is on its way back.\<close>

definition awaits_echo :: "('k \<Rightarrow> u8 list) \<Rightarrow> ('k \<Rightarrow> u8 list) \<Rightarrow> u8 list \<Rightarrow> server_report \<Rightarrow> 'k \<times> echo_server \<Rightarrow> bool" where
  "awaits_echo up down m report s \<longleftrightarrow> length (es_buffer (snd s)) = length m \<and>
     (if up (fst s) = [] then es_report (snd s) = report\<lparr>sv_messages := sv_messages report + 1\<rparr>
      else up (fst s) = m \<and> down (fst s) = [] \<and> es_report (snd s) = report)"

definition echo_rank :: "('k \<Rightarrow> u8 list) \<Rightarrow> ('k \<Rightarrow> nat) \<Rightarrow> (('k \<times> echo_server) \<times> 'k \<times> echo_server) set" where
  "echo_rank up patience = inv_image (less_than <*lex*> less_than)
     (\<lambda>s. (if up (fst s) = [] then 0 else Suc (es_delay (snd s)), patience (fst s)))"

lemma served_brings:
  assumes "connects api host client server up down patience" "m \<noteq> []"
  shows "brings (served_api api host up server profile) (beside_host host) client (\<lambda>s. down (fst s) @ up (fst s))
    (awaits_echo up down m report) (echo_rank up patience)"
  unfolding brings_def
proof (intro conjI allI impI)
  show "wf (echo_rank up patience)" by (simp add: echo_rank_def wf_inv_image wf_lex_prod)
next
  fix s :: "'a \<times> echo_server" and n :: nat and flags
  assume good: "awaits_echo up down m report s" and n: "0 < n" and flow: "down (fst s) @ up (fst s) \<noteq> []"
  obtain k x where s: "s = (k, x)" by (cases s)
  let ?api = "served_api api host up server profile"
  have recv: "case sys_recv api k fd n flags of
      (Inr bytes, k') \<Rightarrow> bytes \<noteq> [] \<and> length bytes \<le> n \<and> down k = bytes @ down k' \<and> up k' = up k
    | (Inl e, k') \<Rightarrow> fruitless flags e \<and> patience k' < patience k \<and> down k' = down k \<and> up k' = up k"
    if "fd = client" "down k \<noteq> []" for fd k
  proof -
    have "receives_from api client down up patience" using assms(1) by (simp add: connects_def)
    from this [unfolded receives_from_def, rule_format, OF n that(2), of flags] show ?thesis unfolding that(1) .
  qed
  show "case sys_recv ?api s client n flags of
      (Inr bytes, s') \<Rightarrow> bytes \<noteq> [] \<and> length bytes \<le> n \<and> down (fst s) @ up (fst s) = bytes @ down (fst s') @ up (fst s') \<and>
        awaits_echo up down m report s'
    | (Inl e, s') \<Rightarrow> fruitless flags e \<and> (s', s) \<in> echo_rank up patience \<and>
        down (fst s') @ up (fst s') = down (fst s) @ up (fst s) \<and> awaits_echo up down m report s'"
  proof (cases "up k = []")
    case True
    then have call: "sys_recv ?api s client n flags = beside (sys_recv api k client n flags) x"
      using good assms(2) by (auto simp: served_api_def s awaits_echo_def)
    show ?thesis using recv [OF refl, of k] flow True good unfolding call
      by (auto simp: s beside_def awaits_echo_def echo_rank_def split: prod.splits sum.splits)
  next
    case False
    then have up: "up k = m" "down k = []" "length (es_buffer x) = length m" "es_report x = report"
      using good by (auto simp: awaits_echo_def s split: if_splits)
    then have whole: "es_buffer x \<noteq> []" "length (es_buffer x) \<le> length (up k)" using assms(2) by auto
    show ?thesis
    proof (cases "flags AND MSG_DONTWAIT \<noteq> 0 \<and> 0 < es_delay x")
      case True
      then have "sys_recv ?api s client n flags = (Inl EAGAIN, (k, x\<lparr>es_delay := es_delay x - 1\<rparr>))"
        using whole by (simp add: served_api_def s)
      then show ?thesis using True False up by (simp add: s fruitless_def echo_rank_def awaits_echo_def)
    next
      case now: False
      obtain k1 where turn: "echo_turn api host server profile 0 (es_buffer x, report) k =
          Some (Inr (m, report\<lparr>sv_messages := sv_messages report + 1\<rparr>), k1)" "up k1 = []" "down k1 = m"
        using echo_turn_returns [OF assms(1), of k m "[]" "es_buffer x" profile 0 report] up by auto
      let ?x = "x\<lparr>es_buffer := m, es_report := report\<lparr>sv_messages := sv_messages report + 1\<rparr>\<rparr>"
      have call: "sys_recv ?api s client n flags = beside (sys_recv api k1 client n flags) ?x"
        using whole now turn(1) up(4) by (auto simp: served_api_def s)
      show ?thesis using recv [OF refl, of k1] turn(2,3) assms(2) False up unfolding call
        by (auto simp: s beside_def awaits_echo_def echo_rank_def split: prod.splits sum.splits)
    qed
  qed
next
  fix s s0 :: "'a \<times> echo_server"
  assume good: "awaits_echo up down m report s" and rank: "(s, s0) \<in> echo_rank up patience"
  obtain k x where s: "s = (k, x)" by (cases s)
  let ?k = "snd (host_clock host k)"
  have clock: "snd (host_clock (beside_host host) s) = (?k, x)" by (simp add: beside_host_def beside_def s)
  have same: "up ?k = up k" "down ?k = down k" "patience ?k \<le> patience k"
    using assms(1) by (simp_all add: connects_def clock_apart_def)
  then show "(snd (host_clock (beside_host host) s), s0) \<in> echo_rank up patience"
    using rank unfolding clock by (auto simp: s echo_rank_def)
  show "down (fst (snd (host_clock (beside_host host) s))) @ up (fst (snd (host_clock (beside_host host) s))) =
      down (fst s) @ up (fst s)"
    "awaits_echo up down m report (snd (host_clock (beside_host host) s))"
    using good same unfolding clock by (auto simp: s awaits_echo_def split: if_splits)
qed

lemma served_tcp_exchange:
  assumes c: "connects api host client server up down patience" and "m \<noteq> []" "up k = []" "down k = []"
    and "length (es_buffer s) = length m" "length inbound = length m"
  shows "\<exists>r k1 s1. tcp_exchange (served_api api host up server profile) (beside_host host) client profile m inbound started (k, s) =
      Some (r, k1, s1) \<and>
    (r = Inr m \<and> up k1 = [] \<and> down k1 = [] \<and> es_report s1 = (es_report s)\<lparr>sv_messages := sv_messages (es_report s) + 1\<rparr> \<or>
     timed_out (beside_host host) (receive_wait profile) (started + tcp_spin_safety_timeout_ns) r (k1, s1))"
proof -
  let ?api = "served_api api host up server profile"
  have "sends_into api client up down patience" using c by (simp add: connects_def)
  from transmit_all_into [OF served_sends [OF this], of host server profile m "(k, s)"]
  obtain k0 where sent: "transmit_all ?api client m (k, s) = Some (Inr (), (k0, s))" "up k0 = m" "down k0 = []"
    using assms(3,4) by auto
  have good: "awaits_echo up down m (es_report s) (k0, s)" using sent(2,3) assms(2,5) by (simp add: awaits_echo_def)
  have enough: "length inbound - 0 \<le> length (down (fst (k0, s)) @ up (fst (k0, s)))" using sent(2) assms(6) by simp
  obtain r s1 where run: "receive_all ?api (beside_host host) client inbound (receive_wait profile)
      (started + tcp_spin_safety_timeout_ns) (k0, s) = Some (r, s1)"
    and res: "r = Inr m \<and> down (fst s1) @ up (fst s1) = [] \<and> awaits_echo up down m (es_report s) s1 \<or>
      timed_out (beside_host host) (receive_wait profile) (started + tcp_spin_safety_timeout_ns) r s1"
    using receive_all_loop_brings [where strategy = "receive_wait profile" and deadline = "started + tcp_spin_safety_timeout_ns"
        and spins = spin_deadline_check_interval, OF served_brings [where profile = profile, OF c assms(2)] good le0 enough] sent(2,3)
    unfolding receive_all_def by (auto simp: assms(6))
  have "r = Inr m \<and> up (fst s1) = [] \<and> down (fst s1) = [] \<and>
      es_report (snd s1) = (es_report s)\<lparr>sv_messages := sv_messages (es_report s) + 1\<rparr> \<or>
    timed_out (beside_host host) (receive_wait profile) (started + tcp_spin_safety_timeout_ns) r s1"
    using res by (auto simp: awaits_echo_def)
  moreover have "tcp_exchange ?api (beside_host host) client profile m inbound started (k, s) = Some (r, s1)"
    using sent(1) run by (simp add: tcp_exchange_def io_bind_def)
  ultimately show ?thesis by (cases s1) auto
qed

text \<open>C21: Over a connection that delivers what it accepts, however it splits, interrupts or delays the calls,
  the TCP client's exchange, run against a server thread that takes its echoing turn when the
  message is there and the client is receiving, returns for every profile of the table. Either it
  brings the message back unchanged, with nothing left in either direction and one message more in
  the server's report, or it spins and throws its safety timeout, its last act having been to read
  a clock at least five seconds past the start. And the server's whole loop, given a stream of as
  many messages as the run has exchanges, sends back the same stream, takes nothing beyond it and
  reports their number.\<close>

theorem tcp_echo_roundtrip:
  assumes "connects api host client server up down patience" "m \<noteq> []" "up k = []" "down k = []"
    and "length (es_buffer s) = length m" "length inbound = length m"
    and "up j = concat ms @ rest" "length ms = unat (so_warmup c + so_samples c)" "\<forall>m \<in> set ms. length m = unat payload"
  shows "(\<exists>r k1 s1. tcp_exchange (served_api api host up server profile) (beside_host host) client profile m inbound started (k, s) =
      Some (r, k1, s1) \<and>
    (r = Inr m \<and> up k1 = [] \<and> down k1 = [] \<and> es_report s1 = (es_report s)\<lparr>sv_messages := sv_messages (es_report s) + 1\<rparr> \<or>
     timed_out (beside_host host) (receive_wait profile) (started + tcp_spin_safety_timeout_ns) r (k1, s1))) \<and>
   (\<exists>j'. tcp_server api host server payload c j = Some (Inr (new_report\<lparr>sv_messages := of_nat (length ms)\<rparr>), j') \<and>
     up j' = rest \<and> down j' = down j @ concat ms)"
  using served_tcp_exchange [OF assms(1-6)] tcp_server_echoes [OF assms(1,7-9)] by blast

text \<open>A connection that splits the bytes, interrupts some calls and answers some too early.\<close>

record duplex =
  dx_interrupts :: nat
  dx_up :: "u8 list"
  dx_down :: "u8 list"

definition duplex_api :: "duplex socket_api" where
  "duplex_api = \<lparr>
     sys_getsockopt = (\<lambda>k fd level option. (Inr (0, 4), k)),
     sys_setsockopt = (\<lambda>k fd level option v. (Inr (), k)),
     sys_send = (\<lambda>k fd bytes flags. case dx_interrupts k of
         Suc n \<Rightarrow> (Inl EINTR, k\<lparr>dx_interrupts := n\<rparr>)
       | 0 \<Rightarrow> (Inr (length (take 5 bytes)), if fd = 1 then k\<lparr>dx_up := dx_up k @ take 5 bytes\<rparr>
           else k\<lparr>dx_down := dx_down k @ take 5 bytes\<rparr>)),
     sys_sendto = (\<lambda>k fd bytes flags to. (Inl EINVAL, k)),
     sys_recv = (\<lambda>k fd n flags. case dx_interrupts k of
         Suc i \<Rightarrow> (Inl (if flags AND MSG_DONTWAIT \<noteq> 0 then EAGAIN else EINTR), k\<lparr>dx_interrupts := i\<rparr>)
       | 0 \<Rightarrow> if fd = 2 then (Inr (take (min n 3) (dx_up k)), k\<lparr>dx_up := drop (min n 3) (dx_up k)\<rparr>)
           else (Inr (take (min n 3) (dx_down k)), k\<lparr>dx_down := drop (min n 3) (dx_down k)\<rparr>)),
     sys_recvmsg = (\<lambda>k fd n flags. (Inl EINVAL, k))\<rparr>"

definition duplex_host :: "duplex host" where
  "duplex_host = \<lparr>host_clock = (\<lambda>k. (0, k)), host_poll = (\<lambda>k fd timeout. (Inr Timed_out, k)),
     host_cancelled = (\<lambda>k. (False, k))\<rparr>"

lemma duplex_connects: "connects duplex_api duplex_host 1 2 dx_up dx_down dx_interrupts"
proof -
  have "sends_into duplex_api 1 dx_up dx_down dx_interrupts" "sends_into duplex_api 2 dx_down dx_up dx_interrupts"
    by (auto simp: sends_into_def duplex_api_def take_min_length split: nat.splits)
  moreover have "receives_from duplex_api 2 dx_up dx_down dx_interrupts" "receives_from duplex_api 1 dx_down dx_up dx_interrupts"
    by (auto simp: receives_from_def fruitless_def duplex_api_def split: nat.splits)
  moreover have "clock_apart duplex_host (\<lambda>k. (dx_up k, dx_down k)) dx_interrupts"
    by (simp add: clock_apart_def duplex_host_def)
  moreover have "\<exists>k'. sys_setsockopt duplex_api k 2 IPPROTO_TCP TCP_QUICKACK 1 = (Inr (), k') \<and> dx_up k' = dx_up k \<and> dx_down k' = dx_down k" for k
    by (simp add: duplex_api_def)
  ultimately show ?thesis by (simp add: connects_def)
qed

theorem tcp_echo_roundtrip_witness:
  "(\<exists>k' s'. tcp_exchange (served_api duplex_api duplex_host dx_up 2 (profiles ! 8)) (beside_host duplex_host) 1 (profiles ! 8)
      (wire_message 8 Tcp 7) (replicate 8 0) 5 (\<lparr>dx_interrupts = 3, dx_up = [], dx_down = []\<rparr>,
        \<lparr>es_buffer = replicate 8 0, es_report = new_report, es_delay = 2\<rparr>) =
    Some (Inr (wire_message 8 Tcp 7), k', s') \<and> sv_messages (es_report s') = 1) \<and>
   (\<exists>j'. tcp_server duplex_api duplex_host 2 8 (default_socket_options\<lparr>so_warmup := 1, so_samples := 1\<rparr>)
      \<lparr>dx_interrupts = 2, dx_up = concat [wire_message 8 Tcp 0, wire_message 8 Tcp 1] @ [9], dx_down = []\<rparr> =
    Some (Inr (new_report\<lparr>sv_messages := 2\<rparr>), j') \<and> dx_up j' = [9])"
proof -
  let ?c = "default_socket_options\<lparr>so_warmup := 1, so_samples := 1\<rparr>"
  let ?k = "\<lparr>dx_interrupts = 3, dx_up = [], dx_down = []\<rparr>"
  let ?s = "\<lparr>es_buffer = replicate 8 0, es_report = new_report, es_delay = 2\<rparr>"
  let ?j = "\<lparr>dx_interrupts = 2, dx_up = concat [wire_message 8 Tcp 0, wire_message 8 Tcp 1] @ [9], dx_down = []\<rparr>"
  have m: "wire_message 8 Tcp 7 \<noteq> []" "length (wire_message 8 Tcp 7) = 8"
    using length_wire_message [of 8 Tcp 7] by (auto simp del: length_wire_message)
  have never: "\<not> timed_out (beside_host duplex_host) w 5000000005 r z" for w r and z :: "duplex \<times> echo_server"
    by (auto simp: timed_out_def beside_host_def beside_def duplex_host_def)
  have deadline: "(5 :: u64) + tcp_spin_safety_timeout_ns = 5000000005" by (simp add: tcp_spin_safety_timeout_ns_def)
  have "length (es_buffer ?s) = length (wire_message 8 Tcp 7)" "length (replicate 8 (0 :: u8)) = length (wire_message 8 Tcp 7)"
    "dx_up ?k = []" "dx_down ?k = []" "dx_up ?j = concat [wire_message 8 Tcp 0, wire_message 8 Tcp 1] @ [9]"
    "length [wire_message 8 Tcp 0, wire_message 8 Tcp 1] = unat (so_warmup ?c + so_samples ?c)"
    "\<forall>m \<in> set [wire_message 8 Tcp 0, wire_message 8 Tcp 1]. length m = unat (8 :: size_t)"
    using m(2) by simp_all
  from tcp_echo_roundtrip [OF duplex_connects m(1) this(3,4,1,2,5,6,7), of "profiles ! 8" 5]
  obtain r k' s' j' where run: "tcp_exchange (served_api duplex_api duplex_host dx_up 2 (profiles ! 8)) (beside_host duplex_host) 1
      (profiles ! 8) (wire_message 8 Tcp 7) (replicate 8 0) 5 (?k, ?s) = Some (r, k', s')"
    and "r = Inr (wire_message 8 Tcp 7) \<and> es_report s' = new_report\<lparr>sv_messages := sv_messages new_report + 1\<rparr> \<or>
      timed_out (beside_host duplex_host) (receive_wait (profiles ! 8)) (5 + tcp_spin_safety_timeout_ns) r (k', s')"
    and server: "tcp_server duplex_api duplex_host 2 8 ?c ?j = Some (Inr (new_report\<lparr>sv_messages := of_nat (length
      [wire_message 8 Tcp 0, wire_message 8 Tcp 1])\<rparr>), j')" "dx_up j' = [9]"
    by (elim conjE exE) (simp only: echo_server.select_convs, blast)
  then have "r = Inr (wire_message 8 Tcp 7)" "sv_messages (es_report s') = 1"
    using never unfolding deadline by (auto simp: new_report_def)
  then show ?thesis using run server by auto
qed

end
