(* ===== verification/Udp_Server.thy ===== *)
theory Udp_Server
  imports Tcp_Echo
begin

text \<open>
  The server of the UDP workload of \<open>socket_latency.cpp\<close>, where datagrams may be lost, repeated,
  reordered or foreign: its loop judges, echoes and counts every datagram. Usage snapshots are
  not modelled, only when the server takes them.
\<close>

unbundle bit_operations_syntax

section \<open>Arrivals\<close>

text \<open>
  Both ends keep which measured sequences have arrived and the highest of them; an arrival is
  repeated, or it is new, and then late if a higher one was there before it.
\<close>

record arrivals =
  ar_seen :: "u8 list"
  ar_high_water_valid :: bool
  ar_high_water :: u32

definition no_arrivals :: "size_t \<Rightarrow> arrivals" where
  "no_arrivals samples = \<lparr>ar_seen = replicate (unat samples) 0, ar_high_water_valid = False, ar_high_water = 0\<rparr>"

definition measured_index :: "size_t \<Rightarrow> u32 \<Rightarrow> nat" where
  "measured_index warmup observed = unat (ucast observed - warmup)"

datatype arrival = Repeated | Fresh | Late

definition arrive :: "size_t \<Rightarrow> u32 \<Rightarrow> arrivals \<Rightarrow> arrival \<times> arrivals" where
  "arrive warmup observed a =
     (let index = measured_index warmup observed
      in if ar_seen a ! index \<noteq> 0 then (Repeated, a)
         else let kind = (if ar_high_water_valid a \<and> observed < ar_high_water a then Late else Fresh);
                  a = a\<lparr>ar_seen := (ar_seen a)[index := 1]\<rparr>
           in (kind, if \<not> ar_high_water_valid a \<or> observed > ar_high_water a
                     then a\<lparr>ar_high_water_valid := True, ar_high_water := observed\<rparr> else a))"

section \<open>The server\<close>

record udp_server =
  us_report :: server_report
  us_arrivals :: arrivals
  us_usage_started :: bool
  us_usage_finished :: bool

definition new_udp_server :: "size_t \<Rightarrow> udp_server" where
  "new_udp_server samples = \<lparr>us_report = new_report, us_arrivals = no_arrivals samples, us_usage_started = False,
     us_usage_finished = False\<rparr>"

datatype verdict = Truncated | Invalid | Accepted u32

definition judge_request :: "nat \<Rightarrow> size_t \<Rightarrow> received_datagram \<Rightarrow> verdict" where
  "judge_request message_size total_messages d =
     (if rd_flags d AND MSG_TRUNC \<noteq> 0 \<or> rd_bytes d > message_size then Truncated
      else if rd_bytes d \<noteq> message_size then Invalid
      else case read_sequence (rd_buffer d) Udp of
          Inl _ \<Rightarrow> Invalid
        | Inr observed \<Rightarrow> if ucast observed \<ge> total_messages then Invalid else Accepted observed)"

text \<open>What is counted of an echoed request.\<close>

definition count_request :: "size_t \<Rightarrow> size_t \<Rightarrow> u32 \<Rightarrow> udp_server \<Rightarrow> udp_server" where
  "count_request warmup total_messages observed s =
     (let s = s\<lparr>us_report := (us_report s)\<lparr>sv_messages := sv_messages (us_report s) + 1\<rparr>\<rparr>
      in if ucast observed < warmup
         then if ucast (observed + 1) = warmup then s\<lparr>us_usage_started := True\<rparr> else s
         else case arrive warmup observed (us_arrivals s) of
             (Repeated, a) \<Rightarrow>
               s\<lparr>us_report := (us_report s)\<lparr>sv_duplicates := sv_duplicates (us_report s) + 1\<rparr>, us_arrivals := a\<rparr>
           | (kind, a) \<Rightarrow>
               s\<lparr>us_report := (us_report s)\<lparr>
                   sv_reordered := sv_reordered (us_report s) + (if kind = Late then 1 else 0),
                   sv_measured_unique_requests := sv_measured_unique_requests (us_report s) + 1\<rparr>,
                 us_arrivals := a,
                 us_usage_finished := (us_usage_finished s \<or> ucast (observed + 1) = total_messages)\<rparr>)"

definition count_rejected :: "verdict \<Rightarrow> udp_server \<Rightarrow> udp_server" where
  "count_rejected v s = (case v of
       Truncated \<Rightarrow> s\<lparr>us_report := (us_report s)\<lparr>sv_truncated := sv_truncated (us_report s) + 1\<rparr>\<rparr>
     | _ \<Rightarrow> s\<lparr>us_report := (us_report s)\<lparr>sv_invalid := sv_invalid (us_report s) + 1\<rparr>\<rparr>)"

partial_function (option) udp_server_loop :: "'k socket_api \<Rightarrow> 'k host \<Rightarrow> int \<Rightarrow> profile_spec \<Rightarrow> size_t \<Rightarrow> size_t \<Rightarrow>
    u8 list \<Rightarrow> udp_server \<Rightarrow> 'k \<Rightarrow> ((exception + udp_server) \<times> 'k) option" where
  [code]: "udp_server_loop api host descriptor profile warmup total_messages message s k =
     (case receive_udp_server_datagram api host descriptor message (receive_wait profile) k of
        None \<Rightarrow> None
      | Some (Inl e, k1) \<Rightarrow> Some (Inl e, k1)
      | Some (Inr None, k1) \<Rightarrow> Some (Inr s, k1)
      | Some (Inr (Some d), k1) \<Rightarrow>
          (case judge_request (length message) total_messages d of
             Accepted observed \<Rightarrow>
               (case send_profile_datagram api descriptor (rd_buffer d) (rd_peer d) profile k1 of
                  None \<Rightarrow> None
                | Some (Inl e, k2) \<Rightarrow> Some (Inl e, k2)
                | Some (Inr _, k2) \<Rightarrow> udp_server_loop api host descriptor profile warmup total_messages (rd_buffer d)
                    (count_request warmup total_messages observed s) k2)
           | v \<Rightarrow> udp_server_loop api host descriptor profile warmup total_messages (rd_buffer d) (count_rejected v s) k1))"

definition udp_server :: "'k socket_api \<Rightarrow> 'k host \<Rightarrow> int \<Rightarrow> size_t \<Rightarrow> socket_options \<Rightarrow> (udp_server, 'k) io" where
  "udp_server api host descriptor payload_bytes c =
     udp_server_loop api host descriptor (so_profile c) (so_warmup c) (so_warmup c + so_samples c)
       (replicate (unat payload_bytes) 0) (new_udp_server (so_samples c))"

section \<open>What arrivals tell\<close>

text \<open>The sequences of the measured part, and the arrivals after a list of them.\<close>

definition measured_sequence :: "size_t \<Rightarrow> size_t \<Rightarrow> u32 \<Rightarrow> bool" where
  "measured_sequence warmup samples s \<longleftrightarrow> unat warmup \<le> unat s \<and> unat s < unat warmup + unat samples"

definition knows :: "size_t \<Rightarrow> size_t \<Rightarrow> u32 list \<Rightarrow> arrivals \<Rightarrow> bool" where
  "knows warmup samples obs a \<longleftrightarrow> length (ar_seen a) = unat samples \<and> (\<forall>s \<in> set obs. measured_sequence warmup samples s) \<and>
     (\<forall>i < unat samples. ar_seen a ! i \<noteq> 0 \<longleftrightarrow> (\<exists>s \<in> set obs. unat s = unat warmup + i)) \<and>
     (ar_high_water_valid a \<longleftrightarrow> obs \<noteq> []) \<and> (obs \<noteq> [] \<longrightarrow> ar_high_water a = Max (set obs))"

lemma knows_nothing: "knows warmup samples [] (no_arrivals samples)"
  by (simp add: knows_def no_arrivals_def)

lemma unat_ucast32: "unat (ucast (s :: u32) :: u64) = unat s"
proof -
  have "unat s < 2 ^ 32" using unsigned_less [of s] by simp
  then have "unat s < 2 ^ 64" by (rule less_le_trans) simp
  then show ?thesis by (simp add: unsigned_ucast_eq take_bit_nat_eq_self)
qed

lemma measured_index_unat:
  assumes "measured_sequence warmup samples s"
  shows "measured_index warmup s = unat s - unat warmup" "measured_index warmup s < unat samples"
    "unat s = unat warmup + measured_index warmup s"
proof -
  have "warmup \<le> ucast s" using assms by (simp add: measured_sequence_def u64_le_unat unat_ucast32)
  then show "measured_index warmup s = unat s - unat warmup"
    unfolding measured_index_def by (simp only: unat_sub_le unat_ucast32)
  then show "measured_index warmup s < unat samples" "unat s = unat warmup + measured_index warmup s"
    using assms by (auto simp: measured_sequence_def)
qed

definition arrival_kind :: "u32 list \<Rightarrow> u32 \<Rightarrow> arrival" where
  "arrival_kind obs s = (if s \<in> set obs then Repeated else if \<exists>x \<in> set obs. s < x then Late else Fresh)"

lemma arrive_knows:
  assumes k: "knows warmup samples obs a" and s: "measured_sequence warmup samples s" and "arrive warmup s a = (kind, a')"
  shows "kind = arrival_kind obs s" "knows warmup samples (obs @ [s]) a'"
proof -
  let ?i = "measured_index warmup s"
  note idx = measured_index_unat [OF s]
  have seen: "ar_seen a ! ?i \<noteq> 0 \<longleftrightarrow> s \<in> set obs"
  proof -
    have "ar_seen a ! ?i \<noteq> 0 \<longleftrightarrow> (\<exists>x \<in> set obs. unat x = unat s)" using k idx by (simp add: knows_def)
    also have "\<dots> \<longleftrightarrow> s \<in> set obs" by (metis word_unat_eq_iff)
    finally show ?thesis .
  qed
  have late: "ar_high_water_valid a \<and> s < ar_high_water a \<longleftrightarrow> (\<exists>x \<in> set obs. s < x)"
    using k by (auto simp: knows_def Max_gr_iff)
  show "kind = arrival_kind obs s" using assms(3) seen late by (auto simp: arrive_def Let_def arrival_kind_def split: if_splits)
  show "knows warmup samples (obs @ [s]) a'"
  proof (cases "s \<in> set obs")
    case True
    then have "a' = a" using assms(3) seen by (simp add: arrive_def Let_def)
    moreover have "insert s (set obs) = set obs" using True by blast
    ultimately show ?thesis using k s True unfolding knows_def by auto
  next
    case False
    let ?h = "if \<not> ar_high_water_valid a \<or> s > ar_high_water a then s else ar_high_water a"
    have a': "ar_seen a' = (ar_seen a)[?i := 1]" "ar_high_water_valid a'" "ar_high_water a' = ?h"
      using assms(3) seen False by (auto simp: arrive_def Let_def split: if_splits)
    have high: "?h = Max (set (obs @ [s]))"
    proof (cases "obs = []")
      case nonempty: False
      then have "Max (set (obs @ [s])) = max s (ar_high_water a)" and valid: "ar_high_water_valid a"
        using k by (simp_all add: knows_def)
      then show ?thesis using leD [of s "ar_high_water a"] leI [of "ar_high_water a" s] by (auto simp: max_def)
    qed (use k in \<open>simp add: knows_def\<close>)
    have seen': "ar_seen a' ! j \<noteq> 0 \<longleftrightarrow> (\<exists>x \<in> set (obs @ [s]). unat x = unat warmup + j)" if "j < unat samples" for j
      using k idx that unfolding a'(1) by (auto simp: knows_def nth_list_update)
    show ?thesis
      unfolding knows_def
    proof (intro conjI ballI allI impI)
      show "length (ar_seen a') = unat samples" "\<And>x. x \<in> set (obs @ [s]) \<Longrightarrow> measured_sequence warmup samples x"
        using k s a'(1) by (auto simp: knows_def)
    qed (use seen' a'(2,3) high in auto)
  qed
qed

text \<open>How many of a list are repeated, and how many arrive behind a higher one.\<close>

fun repeats :: "u32 list \<Rightarrow> u32 list \<Rightarrow> nat" where
  "repeats before [] = 0"
| "repeats before (s # obs) = (if s \<in> set before then 1 else 0) + repeats (before @ [s]) obs"

fun lates :: "u32 list \<Rightarrow> u32 list \<Rightarrow> nat" where
  "lates before [] = 0"
| "lates before (s # obs) = (if arrival_kind before s = Late then 1 else 0) + lates (before @ [s]) obs"

lemma repeats_snoc: "repeats before (obs @ [s]) = repeats before obs + (if s \<in> set (before @ obs) then 1 else 0)"
  by (induction before obs rule: repeats.induct) auto

lemma lates_snoc: "lates before (obs @ [s]) = lates before obs + (if arrival_kind (before @ obs) s = Late then 1 else 0)"
  by (induction before obs rule: lates.induct) auto

lemma repeats_card: "repeats [] obs + card (set obs) = length obs"
  by (induction obs rule: rev_induct) (simp_all add: repeats_snoc insert_absorb)

section \<open>What the server reports\<close>

definition accepted :: "verdict list \<Rightarrow> u32 list" where
  "accepted vs = concat (map (\<lambda>v. case v of Accepted s \<Rightarrow> [s] | _ \<Rightarrow> []) vs)"

definition measured_requests :: "size_t \<Rightarrow> verdict list \<Rightarrow> u32 list" where
  "measured_requests warmup vs = filter (\<lambda>s. unat warmup \<le> unat s) (accepted vs)"

definition tallies :: "size_t \<Rightarrow> verdict list \<Rightarrow> server_report \<Rightarrow> bool" where
  "tallies warmup vs r \<longleftrightarrow> sv_messages r = of_nat (length (accepted vs)) \<and>
     sv_truncated r = of_nat (length (filter (\<lambda>v. v = Truncated) vs)) \<and>
     sv_invalid r = of_nat (length (filter (\<lambda>v. v = Invalid) vs)) \<and>
     sv_measured_unique_requests r = of_nat (card (set (measured_requests warmup vs))) \<and>
     sv_duplicates r = of_nat (repeats [] (measured_requests warmup vs)) \<and>
     sv_reordered r = of_nat (lates [] (measured_requests warmup vs))"

text \<open>The loop's step on a judged datagram, without the echo.\<close>

definition count_datagram :: "size_t \<Rightarrow> size_t \<Rightarrow> verdict \<Rightarrow> udp_server \<Rightarrow> udp_server" where
  "count_datagram warmup total_messages v s =
     (case v of Accepted observed \<Rightarrow> count_request warmup total_messages observed s | _ \<Rightarrow> count_rejected v s)"

lemma count_datagram_simps [simp]:
  "count_datagram warmup total_messages (Accepted observed) s = count_request warmup total_messages observed s"
  "v \<in> {Truncated, Invalid} \<Longrightarrow> count_datagram warmup total_messages v s = count_rejected v s"
  by (auto simp: count_datagram_def)

definition in_run :: "size_t \<Rightarrow> size_t \<Rightarrow> verdict \<Rightarrow> bool" where
  "in_run warmup samples v \<longleftrightarrow> (\<forall>s. v = Accepted s \<longrightarrow> unat s < unat warmup + unat samples)"

lemma accepted_snoc [simp]: "accepted (vs @ [v]) = accepted vs @ (case v of Accepted s \<Rightarrow> [s] | _ \<Rightarrow> [])"
  by (simp add: accepted_def)

lemma measured_requests_snoc [simp]: "measured_requests warmup (vs @ [v]) = measured_requests warmup vs @
    (case v of Accepted s \<Rightarrow> if unat warmup \<le> unat s then [s] else [] | _ \<Rightarrow> [])"
  by (simp add: measured_requests_def split: verdict.splits)

lemma arrival_kind_simps [simp]:
  "arrival_kind obs s = Repeated \<longleftrightarrow> s \<in> set obs"
  "arrival_kind obs s = Late \<Longrightarrow> s \<notin> set obs" "arrival_kind obs s = Fresh \<Longrightarrow> s \<notin> set obs"
  by (auto simp: arrival_kind_def split: if_splits)

lemma count_request_tallies:
  assumes "tallies warmup vs (us_report s)" "knows warmup samples (measured_requests warmup vs) (us_arrivals s)"
    and "unat observed < unat warmup + unat samples"
  shows "tallies warmup (vs @ [Accepted observed]) (us_report (count_request warmup total_messages observed s)) \<and>
    knows warmup samples (measured_requests warmup (vs @ [Accepted observed]))
      (us_arrivals (count_request warmup total_messages observed s))"
proof (cases "unat warmup \<le> unat observed")
  case False
  then have "ucast observed < warmup" by (simp add: u64_less_unat unat_ucast32)
  then show ?thesis using assms(1,2) False by (simp add: count_request_def Let_def tallies_def)
next
  case True
  then have m: "\<not> ucast observed < warmup" "measured_sequence warmup samples observed"
    using assms(3) by (simp_all add: u64_less_unat unat_ucast32 measured_sequence_def not_less)
  let ?m = "measured_requests warmup vs"
  obtain kind a where arr: "arrive warmup observed (us_arrivals s) = (kind, a)" by fastforce
  have k: "kind = arrival_kind ?m observed" "knows warmup samples (?m @ [observed]) a"
    using arrive_knows [OF assms(2) m(2) arr] by auto
  then show ?thesis
    using assms(1) True m(1) arr
    by (cases "arrival_kind ?m observed") (auto simp: count_request_def Let_def tallies_def repeats_snoc lates_snoc insert_absorb)
qed

lemma count_datagram_tallies:
  assumes "tallies warmup vs (us_report s) \<and> knows warmup samples (measured_requests warmup vs) (us_arrivals s)"
    and "in_run warmup samples v"
  shows "tallies warmup (vs @ [v]) (us_report (count_datagram warmup total_messages v s)) \<and>
    knows warmup samples (measured_requests warmup (vs @ [v])) (us_arrivals (count_datagram warmup total_messages v s))"
proof (cases v)
  case (Accepted observed)
  then show ?thesis
    using assms count_request_tallies [of warmup vs s samples observed total_messages] by (simp add: in_run_def)
qed (use assms in \<open>auto simp: count_datagram_def count_rejected_def tallies_def\<close>)

lemma judge_request_in_run:
  assumes "unat warmup + unat samples < 2 ^ 32"
  shows "in_run warmup samples (judge_request message_size (warmup + samples) d)"
proof -
  have "unat warmup + unat samples < 2 ^ 64" using assms by (rule less_le_trans) simp
  then have "unat (warmup + samples) = unat warmup + unat samples" by (rule unat_add_no_wrap)
  then show ?thesis
    by (auto simp: in_run_def judge_request_def u64_le_unat unat_ucast32 split: if_splits sum.splits)
qed

text \<open>
  The datagrams a server has received when it ends: each was delivered to its buffer, and those
  it accepted were sent back to where they came from.
\<close>

inductive serves :: "'k socket_api \<Rightarrow> 'k host \<Rightarrow> int \<Rightarrow> profile_spec \<Rightarrow> size_t \<Rightarrow> u8 list \<Rightarrow> 'k \<Rightarrow> received_datagram list \<Rightarrow>
    'k \<Rightarrow> bool" for api host descriptor profile total_messages where
  cancelled: "receive_udp_server_datagram api host descriptor message (receive_wait profile) k = Some (Inr None, k') \<Longrightarrow>
    serves api host descriptor profile total_messages message k [] k'"
| rejected: "receive_udp_server_datagram api host descriptor message (receive_wait profile) k = Some (Inr (Some d), k1) \<Longrightarrow>
    judge_request (length message) total_messages d \<in> {Truncated, Invalid} \<Longrightarrow>
    serves api host descriptor profile total_messages (rd_buffer d) k1 ds k' \<Longrightarrow>
    serves api host descriptor profile total_messages message k (d # ds) k'"
| echoed: "receive_udp_server_datagram api host descriptor message (receive_wait profile) k = Some (Inr (Some d), k1) \<Longrightarrow>
    judge_request (length message) total_messages d = Accepted s \<Longrightarrow>
    send_profile_datagram api descriptor (rd_buffer d) (rd_peer d) profile k1 = Some (Inr (), k2) \<Longrightarrow>
    serves api host descriptor profile total_messages (rd_buffer d) k2 ds k' \<Longrightarrow>
    serves api host descriptor profile total_messages message k (d # ds) k'"

text \<open>The verdicts on them; the buffer's size is that of the last datagram's buffer.\<close>

fun verdicts :: "size_t \<Rightarrow> u8 list \<Rightarrow> received_datagram list \<Rightarrow> verdict list" where
  "verdicts total_messages message [] = []"
| "verdicts total_messages message (d # ds) =
     judge_request (length message) total_messages d # verdicts total_messages (rd_buffer d) ds"

lemma udp_server_loop_serves:
  assumes "udp_server_loop api host fd profile warmup total_messages message s k = Some y" "y = (Inr s', k')"
  shows "\<exists>ds. serves api host fd profile total_messages message k ds k' \<and>
    s' = fold (count_datagram warmup total_messages) (verdicts total_messages message ds) s"
  using assms
proof (induction rule: udp_server_loop.raw_induct [rotated, consumes 1, case_names unfold])
  case (unfold loop api host fd profile warmup total_messages message s k y)
  obtain r k1 where recv: "receive_udp_server_datagram api host fd message (receive_wait profile) k = Some (Inr r, k1)"
    using unfold(2,3) by (auto split: option.splits sum.splits)
  show ?case
  proof (cases r)
    case None
    then show ?thesis using unfold(2,3) recv by (intro exI [of _ "[]"]) (auto intro: serves.cancelled)
  next
    case (Some d)
    let ?v = "judge_request (length message) total_messages d"
    show ?thesis
    proof (cases "\<exists>o'. ?v = Accepted o'")
      case True
      then obtain seq where v: "?v = Accepted seq" by blast
      then obtain k2 where send: "send_profile_datagram api fd (rd_buffer d) (rd_peer d) profile k1 = Some (Inr (), k2)"
        and rest: "loop api host fd profile warmup total_messages (rd_buffer d) (count_request warmup total_messages seq s) k2 = Some y"
        using unfold(2,3) recv Some by (auto split: option.splits sum.splits)
      from unfold(1) [OF rest unfold(3)] obtain ds where "serves api host fd profile total_messages (rd_buffer d) k2 ds k'"
        "s' = fold (count_datagram warmup total_messages) (verdicts total_messages (rd_buffer d) ds) (count_request warmup total_messages seq s)"
        by blast
      then show ?thesis using recv Some v send
        by (intro exI [of _ "d # ds"]) (auto intro: serves.echoed)
    next
      case False
      then have v: "?v \<in> {Truncated, Invalid}" by (cases ?v) auto
      then have rest: "loop api host fd profile warmup total_messages (rd_buffer d) (count_rejected ?v s) k1 = Some y"
        using unfold(2) recv Some by auto
      from unfold(1) [OF rest unfold(3)] obtain ds where "serves api host fd profile total_messages (rd_buffer d) k1 ds k'"
        "s' = fold (count_datagram warmup total_messages) (verdicts total_messages (rd_buffer d) ds) (count_rejected ?v s)"
        by blast
      then show ?thesis using recv Some v
        by (intro exI [of _ "d # ds"]) (auto intro: serves.rejected)
    qed
  qed
qed

lemma serves_udp_server_loop:
  assumes "serves api host fd profile total_messages message k ds k'"
  shows "udp_server_loop api host fd profile warmup total_messages message s k =
    Some (Inr (fold (count_datagram warmup total_messages) (verdicts total_messages message ds) s), k')"
  using assms
proof (induction arbitrary: s rule: serves.induct)
  case (cancelled message k k')
  then show ?case by (simp add: udp_server_loop.simps [of api host fd profile warmup total_messages message s k])
next
  case (rejected message k d k1 ds k')
  then show ?case
    by (auto simp: udp_server_loop.simps [of api host fd profile warmup total_messages message s k])
next
  case (echoed message k d k1 seq k2 ds k')
  then show ?case
    by (simp add: udp_server_loop.simps [of api host fd profile warmup total_messages message s k])
qed

lemma verdicts_in_run:
  assumes "unat warmup + unat samples < 2 ^ 32" "v \<in> set (verdicts (warmup + samples) message ds)"
  shows "in_run warmup samples v"
  using assms(2) judge_request_in_run [OF assms(1)]
  by (induction "warmup + samples" message ds rule: verdicts.induct) auto

lemma count_datagrams_tally:
  assumes "\<forall>v \<in> set vs. in_run warmup samples v"
  shows "tallies warmup vs (us_report (fold (count_datagram warmup total_messages) vs (new_udp_server samples))) \<and>
    knows warmup samples (measured_requests warmup vs)
      (us_arrivals (fold (count_datagram warmup total_messages) vs (new_udp_server samples)))"
  using assms
proof (induction vs rule: rev_induct)
  case Nil
  then show ?case
    by (simp add: tallies_def new_udp_server_def new_report_def knows_nothing measured_requests_def accepted_def)
next
  case (snoc v vs)
  then show ?case using count_datagram_tallies [of warmup vs _ samples v] by simp
qed

lemma verdict_counts:
  "length (accepted vs) + length (filter (\<lambda>v. v = Truncated) vs) + length (filter (\<lambda>v. v = Invalid) vs) = length vs"
  by (induction vs) (auto simp: accepted_def split: verdict.splits)

lemma length_verdicts [simp]: "length (verdicts total_messages message ds) = length ds"
  by (induction total_messages message ds rule: verdicts.induct) auto

text \<open>What each verdict says of its datagram, received into the buffer the one before it left.\<close>

definition sorted_out :: "size_t \<Rightarrow> nat \<Rightarrow> received_datagram \<Rightarrow> verdict \<Rightarrow> bool" where
  "sorted_out total_messages whole d v \<longleftrightarrow>
     (v = Truncated \<longleftrightarrow> rd_flags d AND MSG_TRUNC \<noteq> 0 \<or> whole < rd_bytes d) \<and>
     (\<forall>q. v = Accepted q \<longleftrightarrow> rd_flags d AND MSG_TRUNC = 0 \<and> rd_bytes d = whole \<and>
       read_sequence (rd_buffer d) Udp = Inr q \<and> unat q < unat total_messages)"

lemma judge_request_sorts: "sorted_out total_messages whole d (judge_request whole total_messages d)"
  by (auto simp: sorted_out_def judge_request_def u64_le_unat unat_ucast32 split: sum.splits)

lemma verdicts_sort:
  "i < length ds \<Longrightarrow>
     sorted_out total_messages (length ((message # map rd_buffer ds) ! i)) (ds ! i) (verdicts total_messages message ds ! i)"
proof (induction total_messages message ds arbitrary: i rule: verdicts.induct)
  case (2 total_messages message d ds)
  then show ?case using judge_request_sorts by (cases i) auto
qed simp

text \<open>C19: The UDP server's report is exact: when the loop ends it has received a list of datagrams, has sent
  every accepted one back to its source, and each datagram is counted once: as truncated when the
  kernel says so or it is longer than the buffer, as a message when it fills the buffer exactly and
  carries a sequence of the run, and as invalid otherwise. Of the measured requests among the messages it counts the distinct
  sequences, the repeated ones and those that arrived behind a higher sequence, and its table
  marks exactly the sequences that arrived.\<close>

theorem udp_server_counts:
  assumes "unat (so_warmup c) + unat (so_samples c) < 2 ^ 32"
    and "udp_server api host fd payload_bytes c k = Some (Inr s, k')"
  shows "\<exists>ds. serves api host fd (so_profile c) (so_warmup c + so_samples c) (replicate (unat payload_bytes) 0) k ds k' \<and>
    (let vs = verdicts (so_warmup c + so_samples c) (replicate (unat payload_bytes) 0) ds; r = us_report s
     in tallies (so_warmup c) vs r \<and> knows (so_warmup c) (so_samples c) (measured_requests (so_warmup c) vs) (us_arrivals s) \<and>
       sv_messages r + sv_truncated r + sv_invalid r = of_nat (length ds) \<and>
       sv_measured_unique_requests r + sv_duplicates r = of_nat (length (measured_requests (so_warmup c) vs)) \<and>
       (\<forall>i < length ds. sorted_out (so_warmup c + so_samples c)
         (length ((replicate (unat payload_bytes) 0 # map rd_buffer ds) ! i)) (ds ! i) (vs ! i)))"
proof -
  let ?w = "so_warmup c" and ?t = "so_warmup c + so_samples c" and ?b = "replicate (unat payload_bytes) (0 :: u8)"
  obtain ds where ds: "serves api host fd (so_profile c) ?t ?b k ds k'"
    and s: "s = fold (count_datagram ?w ?t) (verdicts ?t ?b ds) (new_udp_server (so_samples c))"
    using udp_server_loop_serves [OF assms(2) [unfolded udp_server_def] refl] by blast
  let ?vs = "verdicts ?t ?b ds"
  have t: "tallies ?w ?vs (us_report s)" "knows ?w (so_samples c) (measured_requests ?w ?vs) (us_arrivals s)"
    using count_datagrams_tally [of ?vs ?w "so_samples c" ?t] verdicts_in_run [OF assms(1)] s by blast+
  moreover have "sv_messages (us_report s) + sv_truncated (us_report s) + sv_invalid (us_report s) = of_nat (length ds)"
    using t(1) verdict_counts [of ?vs] unfolding tallies_def by (simp flip: of_nat_add)
  moreover have "sv_measured_unique_requests (us_report s) + sv_duplicates (us_report s) =
      of_nat (length (measured_requests ?w ?vs))"
    using t(1) repeats_card [of "measured_requests ?w ?vs"] unfolding tallies_def by (simp flip: of_nat_add add: add.commute)
  moreover note verdicts_sort [of _ ds ?t ?b]
  ultimately show ?thesis using ds unfolding Let_def by blast
qed

text \<open>A spinning server with the datagrams of a list and then the cancellation.\<close>

definition inbox_api :: "u8 list list socket_api" where
  "inbox_api = \<lparr>
     sys_getsockopt = (\<lambda>k fd level option. (Inr (0, 4), k)),
     sys_setsockopt = (\<lambda>k fd level option v. (Inr (), k)),
     sys_send = (\<lambda>k fd bytes flags. (Inr (length bytes), k)),
     sys_sendto = (\<lambda>k fd bytes flags to. (Inr (length bytes), k)),
     sys_recv = (\<lambda>k fd n flags. (Inl EINVAL, k)),
     sys_recvmsg = (\<lambda>k fd n flags. case k of [] \<Rightarrow> (Inl EAGAIN, k)
       | p # ps \<Rightarrow> (Inr \<lparr>msg_wire = length p, msg_bytes = take n p, msg_peer = no_address, msg_namelen = 16,
           msg_out_flags = 0\<rparr>, ps))\<rparr>"

definition inbox_host :: "u8 list list host" where
  "inbox_host = \<lparr>host_clock = (\<lambda>k. (0, k)), host_poll = (\<lambda>k fd timeout. (Inr Timed_out, k)),
     host_cancelled = (\<lambda>k. (k = [], k))\<rparr>"

definition inbox_options :: socket_options where
  "inbox_options = default_socket_options\<lparr>so_warmup := 1, so_samples := 2, so_profile := profiles ! 8\<rparr>"

lemma inbox_receive:
  "receive_udp_server_datagram inbox_api inbox_host 3 message Spin (p # ps) =
    Some (Inr (Some \<lparr>rd_bytes = length p, rd_peer = no_address, rd_flags = 0,
      rd_buffer = write_at message 0 (take (length message) p)\<rparr>), ps)"
  "receive_udp_server_datagram inbox_api inbox_host 3 message Spin [] = Some (Inr None, [])"
  by (simp_all add: receive_udp_server_datagram_def spin_receive.simps inbox_host_def attempt_receive_datagram_def
      receive_message.simps inbox_api_def)

lemma inbox_send: "send_profile_datagram inbox_api 3 bytes to (profiles ! 8) k = Some (Inr (), k)"
  by (simp add: send_profile_datagram_def profiles_def profile_of_def transmit_to.simps
      inbox_api_def)

lemma inbox_wait: "receive_wait (profiles ! 8) = Spin"
  by (simp add: profiles_def profile_of_def)

theorem udp_server_counts_witness:
  "\<exists>s k'. udp_server inbox_api inbox_host 3 8 inbox_options [[1, 2, 3], wire_message 8 Udp 2] = Some (Inr s, k') \<and>
    (\<exists>vs. tallies 1 vs (us_report s))"
proof -
  let ?ds = "[[1, 2, 3], wire_message 8 Udp 2] :: u8 list list"
  have "\<exists>s k'. udp_server inbox_api inbox_host 3 8 inbox_options ?ds = Some (Inr s, k')"
    using read_wire_message [of 8 Udp 2 Udp 2]
    by (simp add: udp_server_def udp_server_loop.simps inbox_options_def inbox_wait inbox_receive inbox_send judge_request_def write_at_def
        split: verdict.splits)
  then obtain s k' where run: "udp_server inbox_api inbox_host 3 8 inbox_options ?ds = Some (Inr s, k')" by blast
  have "unat (so_warmup inbox_options) + unat (so_samples inbox_options) < 2 ^ 32" by (simp add: inbox_options_def)
  from udp_server_counts [OF this run] show ?thesis using run by (auto simp: Let_def inbox_options_def)
qed

end
