(* ===== verification/Udp_Client.thy ===== *)
theory Udp_Client
  imports Udp_Server
begin

text \<open>
  The client of the UDP workload of \<open>socket_latency.cpp\<close>: its warm-up and measured rounds with
  their deadlines, and the accounting of \<open>run_udp\<close> that joins it with the server's report.
  Creating and connecting the sockets and the usage snapshots are not modelled.
\<close>

unbundle bit_operations_syntax

section \<open>The client\<close>

record udp_client =
  uc_expected :: "u8 list"
  uc_inbound :: "u8 list"
  uc_latencies :: "u64 list"
  uc_arrivals :: arrivals
  uc_checksum :: u64
  uc_duplicates :: u64
  uc_reordered :: u64
  uc_invalid :: u64
  uc_truncated :: u64

text \<open>A response with when it was received: whether the round is over, and the client after it.\<close>

definition judge_response :: "profile_spec \<Rightarrow> sockaddr_in \<Rightarrow> size_t \<Rightarrow> size_t \<Rightarrow> size_t \<Rightarrow> u32 \<Rightarrow> u64 \<Rightarrow> u64 \<Rightarrow>
    u64 \<Rightarrow> received_datagram \<Rightarrow> udp_client \<Rightarrow> exception + bool \<times> udp_client" where
  "judge_response profile server_address warmup total_messages payload_bytes sequence sent_at deadline received_at d c =
     (let size = length (uc_inbound c);
          c = c\<lparr>uc_inbound := rd_buffer d\<rparr>;
          invalid = c\<lparr>uc_invalid := uc_invalid c + 1\<rparr>
      in if rd_flags d AND MSG_TRUNC \<noteq> 0 \<or> rd_bytes d > size then Inr (False, c\<lparr>uc_truncated := uc_truncated c + 1\<rparr>)
         else if rd_bytes d \<noteq> size \<or> (\<not> udp_connected profile \<and> \<not> same_endpoint (rd_peer d) server_address)
         then Inr (False, invalid)
         else case read_sequence (rd_buffer d) Udp of
           Inl _ \<Rightarrow> Inr (False, invalid)
         | Inr observed \<Rightarrow>
             if ucast observed < warmup \<or> ucast observed \<ge> total_messages then Inr (False, invalid)
             else case write_header (uc_expected c) Udp observed of
               Inl e \<Rightarrow> Inl e
             | Inr expected \<Rightarrow>
                 if uc_inbound c \<noteq> expected then Inr (False, invalid\<lparr>uc_expected := expected\<rparr>)
                 else let c = c\<lparr>uc_expected := expected\<rparr> in case arrive warmup observed (uc_arrivals c) of
                   (Repeated, a) \<Rightarrow> Inr (False, c\<lparr>uc_arrivals := a, uc_duplicates := uc_duplicates c + 1\<rparr>)
                 | (kind, a) \<Rightarrow>
                     let c = c\<lparr>uc_arrivals := a, uc_reordered := uc_reordered c + (if kind = Late then 1 else 0)\<rparr>
                     in if observed \<noteq> sequence \<or> received_at > deadline then Inr (False, c)
                        else if received_at \<le> sent_at then Inl (Runtime_error ''non-positive UDP RTT sample'')
                        else Inr (True, c\<lparr>uc_latencies := uc_latencies c @ [received_at - sent_at],
                          uc_checksum := update_checksum (uc_checksum c) observed payload_bytes Udp\<rparr>))"

text \<open>The responses of one round, until it is over or its deadline is.\<close>

partial_function (option) await_response :: "'k socket_api \<Rightarrow> 'k host \<Rightarrow> int \<Rightarrow> profile_spec \<Rightarrow> u64 \<Rightarrow>
    (u64 \<Rightarrow> received_datagram \<Rightarrow> udp_client \<Rightarrow> exception + bool \<times> udp_client) \<Rightarrow> udp_client \<Rightarrow> 'k \<Rightarrow>
    ((exception + bool \<times> udp_client) \<times> 'k) option" where
  [code]: "await_response api host descriptor profile deadline judge c k =
     (case receive_udp_until api host descriptor (uc_inbound c) deadline (receive_wait profile) k of
        None \<Rightarrow> None
      | Some (Inl e, k1) \<Rightarrow> Some (Inl e, k1)
      | Some (Inr None, k1) \<Rightarrow> Some (Inr (False, c), k1)
      | Some (Inr (Some d), k1) \<Rightarrow>
          (case host_clock host k1 of (received_at, k2) \<Rightarrow>
            (case judge received_at d c of
               Inl e \<Rightarrow> Some (Inl e, k2)
             | Inr (over, c') \<Rightarrow> if over then Some (Inr (True, c'), k2)
                 else await_response api host descriptor profile deadline judge c' k2)))"

definition udp_timeout_ns :: "socket_options \<Rightarrow> u64" where
  "udp_timeout_ns c = so_udp_timeout_ms c * 1000000"

text \<open>\<open>server_failed\<close> reads the server's state flag.\<close>

definition measured_round :: "'k socket_api \<Rightarrow> 'k host \<Rightarrow> int \<Rightarrow> sockaddr_in \<Rightarrow> ('k \<Rightarrow> bool \<times> 'k) \<Rightarrow> socket_options \<Rightarrow> size_t \<Rightarrow>
    nat \<Rightarrow> u8 list \<times> udp_client \<Rightarrow> (u8 list \<times> udp_client, 'k) io" where
  "measured_round api host descriptor server_address server_failed c payload_bytes index s =
     (let absolute_index = so_warmup c + of_nat index; sequence = ucast absolute_index :: u32; profile = so_profile c
      in io_bind (io_lift (write_header (fst s) Udp sequence)) (\<lambda>outbound.
         io_bind (read_clock host) (\<lambda>sent_at.
         io_bind (send_profile_datagram api descriptor outbound server_address profile) (\<lambda>_.
         let deadline = sent_at + udp_timeout_ns c
         in io_bind (await_response api host descriptor profile deadline
                (judge_response profile server_address (so_warmup c) (so_warmup c + so_samples c) payload_bytes sequence
                   sent_at deadline) (snd s)) (\<lambda>(current_received, client) k.
              if \<not> current_received
              then case server_failed k of (failed, k') \<Rightarrow>
                if failed then Some (Inl (Runtime_error ''UDP server failed during measurement''), k')
                else Some (Inr (outbound, client), k')
              else Some (Inr (outbound, client), k))))))"

definition udp_warmup_timeout_ns :: u64 where
  "udp_warmup_timeout_ns = 5000000000"

definition warmup_round :: "'k socket_api \<Rightarrow> 'k host \<Rightarrow> int \<Rightarrow> sockaddr_in \<Rightarrow> socket_options \<Rightarrow> nat \<Rightarrow>
    u8 list \<times> u8 list \<Rightarrow> (u8 list \<times> u8 list, 'k) io" where
  "warmup_round api host descriptor server_address c index s =
     (let sequence = of_nat index :: u32; profile = so_profile c;
          timeout_ns = max (udp_timeout_ns c) udp_warmup_timeout_ns
      in io_bind (io_lift (write_header (fst s) Udp sequence)) (\<lambda>outbound.
         io_bind (read_clock host) (\<lambda>sent_at.
         io_bind (send_profile_datagram api descriptor outbound server_address profile) (\<lambda>_.
         io_bind (receive_udp_until api host descriptor (snd s) (sent_at + timeout_ns) (receive_wait profile)) (\<lambda>response.
         case response of
           None \<Rightarrow> io_throw (Runtime_error ''UDP warmup response timed out'')
         | Some d \<Rightarrow>
             if rd_flags d AND MSG_TRUNC \<noteq> 0 \<or> rd_bytes d \<noteq> length (snd s) \<or>
                (\<not> udp_connected profile \<and> \<not> same_endpoint (rd_peer d) server_address)
             then io_throw (Runtime_error ''UDP warmup validation failed'')
             else io_bind (io_lift (read_sequence (rd_buffer d) Udp)) (\<lambda>observed.
               if observed \<noteq> sequence \<or> rd_buffer d \<noteq> outbound
               then io_throw (Runtime_error ''UDP warmup validation failed'')
               else io_return (outbound, rd_buffer d)))))))"

section \<open>The run\<close>

definition udp_accounting :: "u64 \<Rightarrow> u64 \<Rightarrow> u64 \<Rightarrow> exception + u64 \<times> u64 \<times> u64" where
  "udp_accounting attempted completed measured_unique_requests =
     (let requests_unobserved = attempted - measured_unique_requests;
          deadline_misses = attempted - completed
      in if requests_unobserved > deadline_misses then Inl (Runtime_error ''inconsistent UDP deadline accounting'')
         else Inr (deadline_misses, requests_unobserved, deadline_misses - requests_unobserved))"

definition new_udp_client :: "u8 list \<Rightarrow> u8 list \<Rightarrow> size_t \<Rightarrow> udp_client" where
  "new_udp_client expected inbound samples = \<lparr>uc_expected = expected, uc_inbound = inbound, uc_latencies = [],
     uc_arrivals = no_arrivals samples, uc_checksum = checksum_seed, uc_duplicates = 0, uc_reordered = 0,
     uc_invalid = 0, uc_truncated = 0\<rparr>"

definition run_udp_client :: "'k socket_api \<Rightarrow> 'k host \<Rightarrow> int \<Rightarrow> sockaddr_in \<Rightarrow> ('k \<Rightarrow> bool \<times> 'k) \<Rightarrow> (server_report, 'k) io \<Rightarrow>
    size_t \<Rightarrow> size_t \<Rightarrow> socket_options \<Rightarrow> socket_settings \<Rightarrow> socket_settings \<Rightarrow> (run_row, 'k) io" where
  "run_udp_client api host descriptor server_address server_failed join_server payload_bytes run c client_settings
     server_settings =
     io_bind (io_lift (initialize_message (replicate (unat payload_bytes) 0) Udp)) (\<lambda>outbound.
     io_bind (io_lift (initialize_message (replicate (unat payload_bytes) 0) Udp)) (\<lambda>expected.
     io_bind (io_loop (warmup_round api host descriptor server_address c) [0..<unat (so_warmup c)]
       (outbound, replicate (unat payload_bytes) 0)) (\<lambda>buffers.
     io_bind (io_loop (measured_round api host descriptor server_address server_failed c payload_bytes)
       [0..<unat (so_samples c)] (fst buffers, new_udp_client expected (snd buffers) (so_samples c))) (\<lambda>(_, client).
     io_bind join_server (\<lambda>server.
     io_bind (io_lift (udp_accounting (so_samples c) (of_nat (length (uc_latencies client)))
       (sv_measured_unique_requests server))) (\<lambda>(deadline_misses, requests_unobserved, response_deadline_misses).
     io_lift (summarize_run Udp payload_bytes run c (uc_latencies client) 0 client_settings server_settings
       \<lparr>ct_deadline_misses = deadline_misses, ct_requests_unobserved = requests_unobserved,
        ct_response_deadline_misses = response_deadline_misses,
        ct_duplicates = uc_duplicates client + sv_duplicates server,
        ct_reordered = uc_reordered client + sv_reordered server,
        ct_invalid = uc_invalid client + sv_invalid server,
        ct_truncated = uc_truncated client + sv_truncated server\<rparr> (uc_checksum client))))))))"


section \<open>What a round takes\<close>

text \<open>
  The waits of a round: from state \<open>k\<close> the client has received datagrams before the deadline and
  read the clock after each, and is now in state \<open>k'\<close>.
\<close>

inductive waited_on :: "'k socket_api \<Rightarrow> 'k host \<Rightarrow> int \<Rightarrow> u64 \<Rightarrow> wait_strategy \<Rightarrow> 'k \<Rightarrow> 'k \<Rightarrow> bool"
  for api host descriptor deadline strategy k where
  Nothing_yet: "waited_on api host descriptor deadline strategy k k"
| Another: "waited_on api host descriptor deadline strategy k k1 \<Longrightarrow>
    receive_udp_until api host descriptor inbound deadline strategy k1 = Some (Inr (Some d), k2) \<Longrightarrow>
    host_clock host k2 = (t, k3) \<Longrightarrow> waited_on api host descriptor deadline strategy k k3"

text \<open>
  A round that the message \<open>m\<close> answers: the client reads the clock, sends \<open>m\<close>, waits, and
  receives \<open>m\<close> itself before the deadline set by that reading, from the server and whole; it
  reads the clock again, and the latency is the time between the two readings. \<open>least\<close> is the
  size of the buffer it receives into: with the length of \<open>m\<close> for it, exactly that many bytes
  came.
\<close>

definition answered :: "'k socket_api \<Rightarrow> 'k host \<Rightarrow> int \<Rightarrow> sockaddr_in \<Rightarrow> socket_options \<Rightarrow> nat \<Rightarrow> u8 list \<Rightarrow> u64 \<Rightarrow> bool" where
  "answered api host descriptor server_address c least m latency \<longleftrightarrow> (\<exists>k0 k1 k2 k3 k4 k5 inbound sent_at received_at d.
     host_clock host k0 = (sent_at, k1) \<and>
     send_profile_datagram api descriptor m server_address (so_profile c) k1 = Some (Inr (), k2) \<and>
     waited_on api host descriptor (sent_at + udp_timeout_ns c) (receive_wait (so_profile c)) k2 k3 \<and>
     receive_udp_until api host descriptor inbound (sent_at + udp_timeout_ns c) (receive_wait (so_profile c)) k3 =
       Some (Inr (Some d), k4) \<and> host_clock host k4 = (received_at, k5) \<and>
     rd_flags d AND MSG_TRUNC = 0 \<and> rd_buffer d = m \<and> least \<le> rd_bytes d \<and> rd_bytes d \<le> length m \<and>
     (udp_connected (so_profile c) \<or> same_endpoint (rd_peer d) server_address) \<and>
     sent_at < received_at \<and> received_at \<le> sent_at + udp_timeout_ns c \<and> latency = received_at - sent_at)"

text \<open>The responses that a client has heard, those of the rounds \<open>taken\<close> among them.\<close>

definition heard :: "size_t \<Rightarrow> size_t \<Rightarrow> nat list \<Rightarrow> udp_client \<Rightarrow> bool" where
  "heard warmup samples taken client \<longleftrightarrow> (\<exists>obs. knows warmup samples obs (uc_arrivals client) \<and>
     uc_duplicates client = of_nat (repeats [] obs) \<and> uc_reordered client = of_nat (lates [] obs) \<and>
     (\<forall>i \<in> set taken. \<exists>s \<in> set obs. unat s = unat warmup + i))"

text \<open>The client after rounds of which those of \<open>taken\<close> were answered in time.\<close>

definition took :: "'k socket_api \<Rightarrow> 'k host \<Rightarrow> int \<Rightarrow> sockaddr_in \<Rightarrow> socket_options \<Rightarrow> size_t \<Rightarrow> nat \<Rightarrow> nat list \<Rightarrow> udp_client \<Rightarrow> bool" where
  "took api host descriptor server_address c payload_bytes least taken client \<longleftrightarrow>
     sorted_wrt (<) taken \<and> least \<le> length (uc_inbound client) \<and>
     list_all2 (\<lambda>i latency. answered api host descriptor server_address c least (run_message Udp payload_bytes (so_warmup c) i) latency \<and>
       0 < latency \<and> latency \<le> udp_timeout_ns c) taken (uc_latencies client) \<and>
     uc_checksum client = fold (\<lambda>i checksum. update_checksum checksum (ucast (so_warmup c + of_nat i)) payload_bytes Udp)
       taken checksum_seed \<and>
     (\<exists>s. uc_expected client = wire_message (unat payload_bytes) Udp s) \<and>
     heard (so_warmup c) (so_samples c) taken client"

lemma latency_within:
  assumes "(sent :: u64) < received" "received \<le> sent + timeout"
  shows "0 < received - sent" "received - sent \<le> timeout"
proof -
  show "0 < received - sent" using assms(1) by (auto simp: word_gt_0)
  have "unat (sent + timeout) \<le> unat sent + unat timeout" by (simp add: unat_word_ariths)
  then have "unat received \<le> unat sent + unat timeout" using assms(2) by (simp add: u64_le_unat)
  moreover have "unat (received - sent) = unat received - unat sent" using assms(1) by (intro unat_sub_le) simp
  ultimately show "received - sent \<le> timeout" by (simp add: u64_le_unat)
qed

text \<open>A response is ignored, or it is a message of the run that arrives.\<close>

definition ignores :: "udp_client \<Rightarrow> udp_client \<Rightarrow> bool" where
  "ignores client client' \<longleftrightarrow> uc_latencies client' = uc_latencies client \<and> uc_checksum client' = uc_checksum client \<and>
     uc_arrivals client' = uc_arrivals client \<and> uc_duplicates client' = uc_duplicates client \<and>
     uc_reordered client' = uc_reordered client"

definition receives :: "size_t \<Rightarrow> size_t \<Rightarrow> u32 \<Rightarrow> u64 \<Rightarrow> u64 \<Rightarrow> u64 \<Rightarrow> u32 \<Rightarrow> bool \<Rightarrow> udp_client \<Rightarrow> udp_client \<Rightarrow> bool" where
  "receives warmup payload sequence sent_at deadline received_at s over client client' \<longleftrightarrow>
     (\<exists>kind a. arrive warmup s (uc_arrivals client) = (kind, a) \<and> uc_arrivals client' = a \<and>
       uc_duplicates client' = uc_duplicates client + (if kind = Repeated then 1 else 0) \<and>
       uc_reordered client' = uc_reordered client + (if kind = Late then 1 else 0) \<and>
       (if over
        then s = sequence \<and> sent_at < received_at \<and> received_at \<le> deadline \<and>
          uc_latencies client' = uc_latencies client @ [received_at - sent_at] \<and>
          uc_checksum client' = update_checksum (uc_checksum client) s payload Udp
        else uc_latencies client' = uc_latencies client \<and> uc_checksum client' = uc_checksum client))"

text \<open>A buffer that a datagram was received into does not shrink.\<close>

lemma length_write_at_start: "length buffer \<le> length (write_at buffer 0 bytes)"
  by (simp add: write_at_def)

lemma receive_message_buffer:
  "receive_message api fd buffer flags k = Some y \<Longrightarrow> fst y = Inr d \<Longrightarrow> length buffer \<le> length (rd_buffer d)"
proof (induction rule: receive_message.raw_induct [rotated, consumes 1, case_names unfold])
  case (unfold loop api fd buffer flags k y)
  then show ?case using length_write_at_start by (auto split: prod.splits sum.splits if_splits)
qed

lemma spin_receive_buffer:
  "spin_receive ended attempt k = Some y \<Longrightarrow> fst y = Inr (Some d) \<Longrightarrow>
     (\<And>k k'. attempt k = Some (Inr (Some d), k') \<Longrightarrow> P d) \<Longrightarrow> P d"
proof (induction rule: spin_receive.raw_induct [rotated, consumes 1, case_names unfold])
  case (unfold loop ended attempt k y)
  obtain stop k1 where stop: "ended k = (stop, k1)" by fastforce
  show ?case
    using unfold(2-4) unfold(1) [OF _ unfold(3,4)] stop by (fastforce split: if_splits option.splits sum.splits prod.splits)
qed

lemma map_sum_Inr_iff: "map_sum f g x = Inr y \<longleftrightarrow> (\<exists>z. x = Inr z \<and> y = g z)"
  by (cases x) auto

lemma receive_udp_until_buffer:
  assumes "receive_udp_until api host fd buffer deadline strategy k = Some (Inr (Some d), k')"
  shows "length buffer \<le> length (rd_buffer d)"
proof -
  have one: "length buffer \<le> length (rd_buffer d)" if "receive_datagram api fd buffer k1 = Some (Inr d, k2)" for k1 k2
    using that receive_message_buffer [of api fd buffer MSG_TRUNC k1 _ d]
    by (auto simp: receive_datagram_def map_sum_Inr_iff)
  have two: "length buffer \<le> length (rd_buffer d)" if got: "attempt_receive_datagram api fd buffer k1 = Some (Inr (Some d), k2)" for k1 k2
  proof -
    obtain outcome where "receive_message api fd buffer (MSG_TRUNC OR MSG_DONTWAIT) k1 = Some (outcome, k2)"
      and "(case outcome of Inr d \<Rightarrow> Inr (Some d) | Inl errno \<Rightarrow> if errno = EAGAIN \<or> errno = EWOULDBLOCK then Inr None
        else Inl (System_error ''recvmsg'' errno)) = Inr (Some d)"
      using got by (auto simp: attempt_receive_datagram_def)
    then show ?thesis using receive_message_buffer by (cases outcome) (fastforce split: if_splits)+
  qed
  show ?thesis
  proof (cases "strategy = Kernel")
    case True
    then show ?thesis using assms one
      by (auto simp: receive_udp_until_def after_wait_def map_sum_Inr_iff split: option.splits sum.splits if_splits prod.splits)
  next
    case False
    then have "spin_receive (deadline_over host deadline) (attempt_receive_datagram api fd buffer) k = Some (Inr (Some d), k')"
      using assms by (simp add: receive_udp_until_def)
    from spin_receive_buffer [where P = "\<lambda>d. length buffer \<le> length (rd_buffer d)", OF this]
    show ?thesis using two by simp
  qed
qed

lemma judge_response_inbound:
  assumes "judge_response profile server_address warmup total_messages payload sequence sent_at deadline received_at d client =
      Inr (over, client')"
  shows "uc_inbound client' = rd_buffer d"
  using assms by (auto simp: judge_response_def Let_def split: if_splits sum.splits prod.splits arrival.splits)

lemma judge_response_cases:
  assumes n: "8 \<le> n" and expected: "uc_expected client = wire_message n Udp s0"
    and judge: "judge_response profile server_address warmup total_messages payload sequence sent_at deadline received_at d client =
      Inr (over, client')"
  shows "\<not> over \<and> ignores client client' \<and> (\<exists>s. uc_expected client' = wire_message n Udp s) \<or>
    (\<exists>s. \<not> ucast s < warmup \<and> \<not> ucast s \<ge> total_messages \<and> rd_buffer d = wire_message n Udp s \<and> rd_flags d AND MSG_TRUNC = 0 \<and>
      rd_bytes d = length (uc_inbound client) \<and> (udp_connected profile \<or> same_endpoint (rd_peer d) server_address) \<and> uc_expected client' = wire_message n Udp s \<and>
      receives warmup payload sequence sent_at deadline received_at s over client client')"
proof -
  let ?bad = "rd_flags d AND MSG_TRUNC \<noteq> 0 \<or> rd_bytes d > length (uc_inbound client)"
  let ?foreign = "rd_bytes d \<noteq> length (uc_inbound client) \<or> (\<not> udp_connected profile \<and> \<not> same_endpoint (rd_peer d) server_address)"
  show ?thesis
  proof (cases "\<not> ?bad \<and> \<not> ?foreign \<and> (\<exists>s. read_sequence (rd_buffer d) Udp = Inr s \<and> \<not> ucast s < warmup \<and>
      \<not> ucast s \<ge> total_messages \<and> rd_buffer d = wire_message n Udp s)")
    case False
    then have "\<not> over \<and> ignores client client' \<and> (\<exists>s. uc_expected client' = wire_message n Udp s)"
      using judge n expected
      by (cases ?bad; cases ?foreign; cases "read_sequence (rd_buffer d) Udp")
        (auto simp: judge_response_def Let_def rewrite_header ignores_def split: if_splits)
    then show ?thesis by blast
  next
    case True
    then obtain s where s: "read_sequence (rd_buffer d) Udp = Inr s" "\<not> ucast s < warmup" "\<not> ucast s \<ge> total_messages"
      "rd_buffer d = wire_message n Udp s" and ok: "\<not> ?bad" "\<not> ?foreign" by blast
    obtain kind a where arr: "arrive warmup s (uc_arrivals client) = (kind, a)" by fastforce
    have "uc_expected client' = wire_message n Udp s \<and> receives warmup payload sequence sent_at deadline received_at s over client client'"
      using judge n expected s ok arr
      by (cases kind) (auto simp: judge_response_def Let_def rewrite_header receives_def split: if_splits)
    then show ?thesis using s ok by blast
  qed
qed

lemma receives_heard:
  assumes "heard warmup samples taken client" "measured_sequence warmup samples s"
    and "receives warmup payload sequence sent_at deadline received_at s over client client'"
    and "\<forall>i \<in> set taken' - set taken. unat s = unat warmup + i"
  shows "heard warmup samples taken' client'"
proof -
  obtain obs where obs: "knows warmup samples obs (uc_arrivals client)"
      "uc_duplicates client = of_nat (repeats [] obs)" "uc_reordered client = of_nat (lates [] obs)"
      "\<forall>i \<in> set taken. \<exists>s \<in> set obs. unat s = unat warmup + i"
    using assms(1) unfolding heard_def by blast
  obtain kind a where arr: "arrive warmup s (uc_arrivals client) = (kind, a)" "uc_arrivals client' = a"
    and counts: "uc_duplicates client' = uc_duplicates client + (if kind = Repeated then 1 else 0)"
      "uc_reordered client' = uc_reordered client + (if kind = Late then 1 else 0)"
    using assms(3) unfolding receives_def by blast
  note k = arrive_knows [OF obs(1) assms(2) arr(1)]
  have "knows warmup samples (obs @ [s]) (uc_arrivals client')" "uc_duplicates client' = of_nat (repeats [] (obs @ [s]))"
    "uc_reordered client' = of_nat (lates [] (obs @ [s]))"
    using k arr(2) counts obs(2,3) by (simp_all add: repeats_snoc lates_snoc)
  moreover have "\<exists>s' \<in> set (obs @ [s]). unat s' = unat warmup + i" if "i \<in> set taken'" for i
    using obs(4) assms(4) that by (cases "i \<in> set taken") auto
  ultimately show ?thesis unfolding heard_def by blast
qed

lemma judge_response_takes:
  assumes n: "8 \<le> unat payload" and w: "unat (so_warmup c) + unat (so_samples c) < 2 ^ 32" and i: "i < unat (so_samples c)"
    and took: "took api host fd server_address c payload least taken client" "\<forall>j \<in> set taken. j < i"
    and sent: "host_clock host k0 = (sent_at, k1)"
      "send_profile_datagram api fd (run_message Udp payload (so_warmup c) i) server_address (so_profile c) k1 = Some (Inr (), k2)"
      "waited_on api host fd (sent_at + udp_timeout_ns c) (receive_wait (so_profile c)) k2 k3"
    and recv: "receive_udp_until api host fd (uc_inbound client) (sent_at + udp_timeout_ns c) (receive_wait (so_profile c)) k3 =
        Some (Inr (Some d), k4)" "host_clock host k4 = (received_at, k5)"
    and judge: "judge_response (so_profile c) server_address (so_warmup c) (so_warmup c + so_samples c) payload
      (ucast (so_warmup c + of_nat i)) sent_at (sent_at + udp_timeout_ns c) received_at d client = Inr (over, client')"
  shows "took api host fd server_address c payload least (if over then taken @ [i] else taken) client'"
proof -
  let ?n = "unat payload" and ?w = "so_warmup c" and ?S = "so_samples c"
  obtain s0 where s0: "uc_expected client = wire_message ?n Udp s0" and heard: "heard ?w ?S taken client"
    and least: "least \<le> length (uc_inbound client)"
    and rest: "sorted_wrt (<) taken"
      "list_all2 (\<lambda>i latency. answered api host fd server_address c least (run_message Udp payload ?w i) latency \<and>
         0 < latency \<and> latency \<le> udp_timeout_ns c) taken (uc_latencies client)"
      "uc_checksum client = fold (\<lambda>i checksum. update_checksum checksum (ucast (?w + of_nat i)) payload Udp) taken checksum_seed"
    using took(1) unfolding took_def by blast
  have grows: "length (uc_inbound client) \<le> length (rd_buffer d)" by (rule receive_udp_until_buffer [OF recv(1)])
  then have least': "least \<le> length (uc_inbound client')" using least judge_response_inbound [OF judge] by simp
  consider (ignored) s where "\<not> over" "ignores client client'" "uc_expected client' = wire_message ?n Udp s"
    | (arrived) s where "\<not> ucast s < ?w" "\<not> ucast s \<ge> ?w + ?S" "rd_buffer d = wire_message ?n Udp s"
        "rd_flags d AND MSG_TRUNC = 0" "rd_bytes d = length (uc_inbound client)" "udp_connected (so_profile c) \<or> same_endpoint (rd_peer d) server_address"
        "uc_expected client' = wire_message ?n Udp s"
        "receives ?w payload (ucast (?w + of_nat i)) sent_at (sent_at + udp_timeout_ns c) received_at s over client client'"
    using judge_response_cases [OF n s0 judge] by blast
  then show ?thesis
  proof cases
    case (ignored s)
    then show ?thesis using took(1) least' by (auto simp: took_def ignores_def heard_def)
  next
    case (arrived s)
    note range = arrived(1,2) and d = arrived(3-6) and expected = arrived(7) and receives = arrived(8)
    have "unat (?w + ?S) = unat ?w + unat ?S" using w by (intro unat_add_no_wrap) (rule less_le_trans, assumption, simp)
    then have s: "measured_sequence ?w ?S s"
      using range by (simp add: measured_sequence_def u64_less_unat u64_le_unat unat_ucast32 not_less not_le)
    show ?thesis
    proof (cases over)
      case False
      then have "heard ?w ?S taken client'" by (intro receives_heard [OF heard s receives]) simp
      moreover have "uc_latencies client' = uc_latencies client" "uc_checksum client' = uc_checksum client"
        using receives False unfolding receives_def by auto
      ultimately show ?thesis using rest least' expected False unfolding took_def by auto
    next
      case True
      then have over: "s = ucast (?w + of_nat i)" "sent_at < received_at" "received_at \<le> sent_at + udp_timeout_ns c"
        "uc_latencies client' = uc_latencies client @ [received_at - sent_at]"
        "uc_checksum client' = update_checksum (uc_checksum client) s payload Udp"
        using receives unfolding receives_def by auto
      have "answered api host fd server_address c least (run_message Udp payload ?w i) (received_at - sent_at)"
        unfolding answered_def
      proof (intro exI conjI)
        show "rd_buffer d = run_message Udp payload ?w i" using d(1) over(1) by (simp add: run_message_def)
        show "least \<le> rd_bytes d" "rd_bytes d \<le> length (run_message Udp payload ?w i)"
          using d(1,3) over(1) least grows by (simp_all add: run_message_def)
      qed (rule sent recv d(2,4) over(2,3) refl)+
      then have all2: "list_all2 (\<lambda>i latency. answered api host fd server_address c least (run_message Udp payload ?w i) latency \<and>
          0 < latency \<and> latency \<le> udp_timeout_ns c) (taken @ [i]) (uc_latencies client')"
        using rest(2) latency_within [OF over(2,3)] over(4) by (simp add: list_all2_appendI)
      have "sorted_wrt (<) (taken @ [i])" using rest(1) took(2) by (auto simp: sorted_wrt_append)
      moreover have "heard ?w ?S (taken @ [i]) client'"
        using run_sequence [of ?w i] w i over(1) by (intro receives_heard [OF heard s receives]) auto
      ultimately show ?thesis using rest(3) least' all2 expected over(1,5) True unfolding took_def by auto
    qed
  qed
qed

lemma await_response_takes:
  assumes "await_response api host fd profile deadline judge client k = Some y" "y = (Inr (over, client'), k')"
    and "8 \<le> unat payload" "unat (so_warmup c) + unat (so_samples c) < 2 ^ 32" "i < unat (so_samples c)"
    and "profile = so_profile c" "deadline = sent_at + udp_timeout_ns c"
    and "judge = judge_response profile server_address (so_warmup c) (so_warmup c + so_samples c) payload
      (ucast (so_warmup c + of_nat i)) sent_at deadline"
    and "took api host fd server_address c payload least taken client" "\<forall>j \<in> set taken. j < i"
    and "host_clock host k0 = (sent_at, k1)"
    and "send_profile_datagram api fd (run_message Udp payload (so_warmup c) i) server_address profile k1 = Some (Inr (), k2)"
    and "waited_on api host fd deadline (receive_wait profile) k2 k"
  shows "took api host fd server_address c payload least (if over then taken @ [i] else taken) client'"
  using assms
proof (induction rule: await_response.raw_induct [rotated, consumes 1, case_names unfold])
  case (unfold loop api host fd profile deadline judge client k y)
  obtain r k4 where recv: "receive_udp_until api host fd (uc_inbound client) deadline (receive_wait profile) k = Some (Inr r, k4)"
    using unfold(2,3) by (auto split: option.splits sum.splits)
  show ?case
  proof (cases r)
    case None
    then show ?thesis using unfold(2,3,10) recv by auto
  next
    case (Some d)
    obtain t k5 where clock: "host_clock host k4 = (t, k5)" by fastforce
    obtain over1 client1 where j: "judge t d client = Inr (over1, client1)"
      using unfold(2,3) recv Some clock by (auto split: sum.splits)
    have step: "took api host fd server_address c payload least (if over1 then taken @ [i] else taken) client1"
      using recv Some j unfolding unfold(7-9)
      by (intro judge_response_takes [OF unfold(4-6,10,11,12) unfold(13,14) [unfolded unfold(7,8)] _ clock]) auto
    show ?thesis
    proof (cases over1)
      case True
      then show ?thesis using unfold(2,3) recv Some clock j step by auto
    next
      case False
      then have "loop api host fd profile deadline judge client1 k5 = Some y"
        using unfold(2) recv Some clock j by auto
      moreover have "waited_on api host fd deadline (receive_wait profile) k2 k5"
        using waited_on.Another [OF unfold(14) recv [unfolded Some] clock] .
      ultimately show ?thesis using unfold(1) [OF _ unfold(3-9) _ unfold(11-13)] step False by simp
    qed
  qed
qed

text \<open>The buffers and the client before round \<open>i\<close>.\<close>

definition rounds_so_far :: "'k socket_api \<Rightarrow> 'k host \<Rightarrow> int \<Rightarrow> sockaddr_in \<Rightarrow> socket_options \<Rightarrow> size_t \<Rightarrow> nat \<Rightarrow> nat \<Rightarrow>
    u8 list \<times> udp_client \<Rightarrow> bool" where
  "rounds_so_far api host fd server_address c payload least i s \<longleftrightarrow> (\<exists>seq. fst s = wire_message (unat payload) Udp seq) \<and>
     (\<exists>taken. took api host fd server_address c payload least taken (snd s) \<and> (\<forall>j \<in> set taken. j < i))"

lemma measured_round_keeps:
  assumes "8 \<le> unat payload" "unat (so_warmup c) + unat (so_samples c) < 2 ^ 32" "i < unat (so_samples c)"
    and "rounds_so_far api host fd server_address c payload least i s"
    and "measured_round api host fd server_address failed c payload i s k = Some (Inr s', k')"
  shows "rounds_so_far api host fd server_address c payload least (Suc i) s'"
proof -
  obtain seq taken where out: "fst s = wire_message (unat payload) Udp seq"
    and taken: "took api host fd server_address c payload least taken (snd s)" "\<forall>j \<in> set taken. j < i"
    using assms(4) unfolding rounds_so_far_def by blast
  let ?seq = "ucast (so_warmup c + of_nat i) :: u32"
  obtain sent_at k1 k2 k3 over client where s': "s' = (wire_message (unat payload) Udp ?seq, client)"
    and sent: "host_clock host k = (sent_at, k1)"
      "send_profile_datagram api fd (wire_message (unat payload) Udp ?seq) server_address (so_profile c) k1 = Some (Inr (), k2)"
    and await: "await_response api host fd (so_profile c) (sent_at + udp_timeout_ns c)
      (judge_response (so_profile c) server_address (so_warmup c) (so_warmup c + so_samples c) payload ?seq sent_at
        (sent_at + udp_timeout_ns c)) (snd s) k2 = Some (Inr (over, client), k3)"
    using assms(1,5) out
    by (auto simp: measured_round_def Let_def io_result rewrite_header split: if_splits prod.splits)
  have "took api host fd server_address c payload least (if over then taken @ [i] else taken) client"
    using await_response_takes [OF await refl assms(1-3) refl refl refl taken sent(1) _ waited_on.Nothing_yet] sent(2)
    by (simp add: run_message_def)
  then show ?thesis using taken(2) s' unfolding rounds_so_far_def
    by (intro conjI exI [of _ "if over then taken @ [i] else taken"]) auto
qed

lemma rounds_start:
  "least \<le> length inbound \<Longrightarrow> rounds_so_far api host fd server_address c payload least 0
     (wire_message (unat payload) Udp seq, new_udp_client (wire_message (unat payload) Udp seq') inbound (so_samples c))"
  unfolding rounds_so_far_def took_def heard_def new_udp_client_def using knows_nothing
  by (auto intro!: exI [of _ "[]"])

lemma rounds_end:
  assumes "8 \<le> unat payload" "unat (so_warmup c) + unat (so_samples c) < 2 ^ 32"
    and "io_loop (measured_round api host fd server_address failed c payload) [0..<unat (so_samples c)]
      (wire_message (unat payload) Udp seq, new_udp_client (wire_message (unat payload) Udp seq') inbound (so_samples c)) k =
        Some (Inr (outbound, client), k')"
    and "least \<le> length inbound"
  obtains taken where "took api host fd server_address c payload least taken client" "set taken \<subseteq> {..<unat (so_samples c)}"
proof -
  have "rounds_so_far api host fd server_address c payload least (unat (so_samples c)) (outbound, client)"
    by (rule io_loop_invariant [OF assms(3) le0, where I = "rounds_so_far api host fd server_address c payload least"])
      (rule rounds_start [OF assms(4)], rule measured_round_keeps [OF assms(1,2)])
  then show ?thesis using that unfolding rounds_so_far_def by auto
qed

lemma took_lengths:
  assumes "took api host fd server_address c payload least taken client"
  shows "length taken = length (uc_latencies client)" "card (set taken) = length (uc_latencies client)"
  using assms unfolding took_def by (auto simp: strict_sorted_iff list_all2_lengthD distinct_card)

text \<open>The table of a client marks the rounds it took.\<close>

lemma took_seen:
  assumes "took api host fd server_address c payload least taken client" "i \<in> set taken" "i < unat (so_samples c)"
  shows "ar_seen (uc_arrivals client) ! i \<noteq> 0"
  using assms unfolding took_def heard_def knows_def by blast

section \<open>What the server's report is worth\<close>

lemma knows_card:
  assumes "knows warmup samples obs a"
  shows "card (set obs) = card {i. i < unat samples \<and> ar_seen a ! i \<noteq> 0}"
proof (rule bij_betw_same_card)
  show "bij_betw (\<lambda>s. unat s - unat warmup) (set obs) {i. i < unat samples \<and> ar_seen a ! i \<noteq> 0}"
  proof (rule bij_betw_imageI)
    show "inj_on (\<lambda>s. unat s - unat warmup) (set obs)"
    proof (rule inj_onI)
      fix x y assume "x \<in> set obs" "y \<in> set obs" "unat x - unat warmup = unat y - unat warmup"
      moreover from this have "unat warmup \<le> unat x" "unat warmup \<le> unat y"
        using assms by (simp_all add: knows_def measured_sequence_def)
      ultimately have "unat x = unat y" by linarith
      then show "x = y" by (rule unsigned_word_eqI)
    qed
    have seen: "ar_seen a ! i \<noteq> 0 \<longleftrightarrow> (\<exists>s \<in> set obs. unat s = unat warmup + i)" if "i < unat samples" for i
      using assms that by (simp add: knows_def)
    have range: "unat warmup \<le> unat s \<and> unat s < unat warmup + unat samples" if "s \<in> set obs" for s
      using assms that by (simp add: knows_def measured_sequence_def)
    show "(\<lambda>s. unat s - unat warmup) ` set obs = {i. i < unat samples \<and> ar_seen a ! i \<noteq> 0}"
    proof (intro set_eqI iffI)
      fix i assume "i \<in> (\<lambda>s. unat s - unat warmup) ` set obs"
      then obtain s where s: "s \<in> set obs" "i = unat s - unat warmup" by blast
      then have "i < unat samples" "unat s = unat warmup + i" using range [OF s(1)] by linarith+
      then show "i \<in> {i. i < unat samples \<and> ar_seen a ! i \<noteq> 0}" using seen s(1) by blast
    next
      fix i assume "i \<in> {i. i < unat samples \<and> ar_seen a ! i \<noteq> 0}"
      then obtain s where s: "s \<in> set obs" "unat s = unat warmup + i" using seen by blast
      then have "i = unat s - unat warmup" by simp
      then show "i \<in> (\<lambda>s. unat s - unat warmup) ` set obs" using s(1) by blast
    qed
  qed
qed

lemma udp_server_unique:
  assumes "unat (so_warmup c) + unat (so_samples c) < 2 ^ 32" "udp_server api host fd payload c k = Some (Inr s, k')"
  shows "sv_measured_unique_requests (us_report s) =
    of_nat (card {i. i < unat (so_samples c) \<and> ar_seen (us_arrivals s) ! i \<noteq> 0})"
proof -
  let ?w = "so_warmup c" and ?t = "so_warmup c + so_samples c" and ?b = "replicate (unat payload) (0 :: u8)"
  obtain ds where "s = fold (count_datagram ?w ?t) (verdicts ?t ?b ds) (new_udp_server (so_samples c))"
    using udp_server_loop_serves [OF assms(2) [unfolded udp_server_def] refl] by blast
  then have "tallies ?w (verdicts ?t ?b ds) (us_report s)"
      "knows ?w (so_samples c) (measured_requests ?w (verdicts ?t ?b ds)) (us_arrivals s)"
    using count_datagrams_tally [of "verdicts ?t ?b ds" ?w "so_samples c" ?t] verdicts_in_run [OF assms(1)] by blast+
  then show ?thesis by (simp only: tallies_def knows_card)
qed

lemma udp_accounting_exact:
  assumes "completed \<le> unique" "unique \<le> unat samples"
  shows "\<exists>misses unobserved responses. udp_accounting samples (of_nat completed) (of_nat unique) = Inr (misses, unobserved, responses) \<and>
    unat misses = unat samples - completed \<and> unat unobserved = unat samples - unique \<and> unat responses = unique - completed"
proof -
  have u: "unat (of_nat completed :: u64) = completed" "unat (of_nat unique :: u64) = unique"
    by (rule unat_of_nat_le64 [OF order_trans [OF assms]], rule unat_of_nat_le64 [OF assms(2)])
  have d: "unat (samples - of_nat completed) = unat samples - completed" "unat (samples - of_nat unique) = unat samples - unique"
    using assms u by (simp_all add: unat_sub_le u64_le_unat)
  have le: "samples - of_nat unique \<le> samples - of_nat completed"
    unfolding u64_le_unat d using assms by linarith
  have "unat (samples - of_nat completed - (samples - of_nat unique)) = (unat samples - completed) - (unat samples - unique)"
    by (simp only: unat_sub_le [OF le] d)
  also have "\<dots> = unique - completed" using assms by linarith
  finally show ?thesis using d le by (auto simp: udp_accounting_def Let_def not_less)
qed

lemma udp_accounting_result:
  assumes "udp_accounting samples (of_nat completed) unique = Inr (misses, unobserved, responses)" "completed \<le> unat samples"
  shows "unat misses = unat samples - completed" "unobserved = samples - unique"
    "unat unobserved + unat responses = unat misses"
proof -
  have u: "unat (of_nat completed :: u64) = completed" using assms(2) by (rule unat_of_nat_le64)
  have r: "misses = samples - of_nat completed" "unobserved = samples - unique" "responses = misses - unobserved" "unobserved \<le> misses"
    using assms(1) by (auto simp: udp_accounting_def Let_def not_less split: if_splits)
  show "unat misses = unat samples - completed" using u assms(2) by (simp add: r(1) unat_sub_le u64_le_unat)
  show "unobserved = samples - unique" by (rule r(2))
  show "unat unobserved + unat responses = unat misses" using r(3,4) by (simp add: unat_sub_le u64_le_unat)
qed

section \<open>The row and the accounting\<close>

lemma card_split: "card {i. i < n \<and> f i \<noteq> z} + card {i. i < n \<and> f i = z} = n"
proof -
  have "{i. i < n \<and> f i \<noteq> z} \<union> {i. i < n \<and> f i = z} = {..<n}" by auto
  moreover have "card ({i. i < n \<and> f i \<noteq> z} \<union> {i. i < n \<and> f i = z}) = card {i. i < n \<and> f i \<noteq> z} + card {i. i < n \<and> f i = z}"
    by (rule card_Un_disjoint) auto
  ultimately show ?thesis by simp
qed

lemma warmup_round_keeps:
  assumes "8 \<le> n" "\<exists>seq. fst buffers = wire_message n Udp seq"
    and "warmup_round api host fd server_address c i buffers k = Some (Inr buffers', k')"
  shows "(\<exists>seq. fst buffers' = wire_message n Udp seq) \<and> length (snd buffers') = n"
  using assms by (auto simp: warmup_round_def Let_def io_result rewrite_header split: if_splits option.splits)

lemma initialized_message:
  assumes "initialize_message (replicate n 0) p = Inr out"
  shows "8 \<le> n" "out = wire_message n p 0"
proof -
  show n: "8 \<le> n"
    using assms write_header_short [of "replicate n 0" p 0] by (cases "n < 8") (auto simp: initialize_message_def)
  show "out = wire_message n p 0" using assms initialize_message_layout [OF n, of "replicate n 0"] by simp
qed


text \<open>C18: The UDP accounting never fails: when every response the client has seen is of a request the server
  has seen, as it is on any network that does not make up messages, the run's accounting returns,
  misses and completed rounds add up to the attempts, the unobserved requests are exactly the
  measured sequences that never reached the server, and the missed responses exactly the requests
  that did reach it but were not completed.\<close>

theorem udp_accounting_consistent:
  assumes "unat (so_warmup c) + unat (so_samples c) < 2 ^ 32"
    and "udp_server server_api server_host server_fd n c k = Some (Inr s, k')"
    and "initialize_message (replicate (unat n) 0) Udp = Inr message"
    and "write_header message Udp sequence = Inr first"
    and "io_loop (measured_round api host fd server_address failed c n) [0..<unat (so_samples c)]
      (first, new_udp_client message inbound (so_samples c)) j = Some (Inr (outbound, client), j')"
    and "\<forall>i < unat (so_samples c). ar_seen (uc_arrivals client) ! i \<noteq> 0 \<longrightarrow> ar_seen (us_arrivals s) ! i \<noteq> 0"
  shows "\<exists>misses unobserved responses. udp_accounting (so_samples c) (of_nat (length (uc_latencies client)))
      (sv_measured_unique_requests (us_report s)) = Inr (misses, unobserved, responses) \<and>
    unat misses + length (uc_latencies client) = unat (so_samples c) \<and>
    unat unobserved = card {i. i < unat (so_samples c) \<and> ar_seen (us_arrivals s) ! i = 0} \<and>
    unat responses + length (uc_latencies client) = card {i. i < unat (so_samples c) \<and> ar_seen (us_arrivals s) ! i \<noteq> 0}"
proof -
  let ?S = "unat (so_samples c)"
  let ?seen = "{i. i < ?S \<and> ar_seen (us_arrivals s) ! i \<noteq> 0}" and ?unseen = "{i. i < ?S \<and> ar_seen (us_arrivals s) ! i = 0}"
  note n = initialized_message(1) [OF assms(3)] and message = initialized_message(2) [OF assms(3)]
  have "first = wire_message (unat n) Udp sequence" using assms(4) n by (simp add: message rewrite_header)
  then obtain taken where taken: "took api host fd server_address c n 0 taken client" "set taken \<subseteq> {..<?S}"
    using rounds_end [OF n assms(1), of api host fd server_address failed sequence 0 inbound j outbound client j' 0] assms(5)
    by (auto simp: message)
  have "set taken \<subseteq> ?seen" using took_seen [OF taken(1)] taken(2) assms(6) by blast
  then have le: "length (uc_latencies client) \<le> card ?seen"
    using card_mono [of ?seen "set taken"] took_lengths(2) [OF taken(1)] by simp
  have sum: "card ?seen + card ?unseen = ?S" by (rule card_split)
  then have le': "card ?seen \<le> ?S" by linarith
  obtain misses unobserved responses where acc: "udp_accounting (so_samples c) (of_nat (length (uc_latencies client)))
      (sv_measured_unique_requests (us_report s)) = Inr (misses, unobserved, responses)"
    and eq: "unat misses = ?S - length (uc_latencies client)" "unat unobserved = ?S - card ?seen"
      "unat responses = card ?seen - length (uc_latencies client)"
    using udp_accounting_exact [OF le le'] unfolding udp_server_unique [OF assms(1,2)] by blast
  show ?thesis
    using le le' sum by (intro exI [of _ misses] exI [of _ unobserved] exI [of _ responses]) (simp add: acc eq)
qed

text \<open>A socket whose datagrams come back at once, and a clock of one tick per reading.\<close>

definition mirror_address :: sockaddr_in where
  "mirror_address = \<lparr>sin_family = AF_INET, sin_port = htons 4000, sin_addr = htonl 0x7f000001\<rparr>"

definition mirror_api :: "(u64 \<times> u8 list list) socket_api" where
  "mirror_api = \<lparr>
     sys_getsockopt = (\<lambda>k fd level option. (Inr (0, 4), k)),
     sys_setsockopt = (\<lambda>k fd level option v. (Inr (), k)),
     sys_send = (\<lambda>k fd bytes flags. (Inr (length bytes), (fst k, snd k @ [bytes]))),
     sys_sendto = (\<lambda>k fd bytes flags to. (Inr (length bytes), (fst k, snd k @ [bytes]))),
     sys_recv = (\<lambda>k fd n flags. (Inl EINVAL, k)),
     sys_recvmsg = (\<lambda>k fd n flags. case snd k of [] \<Rightarrow> (Inl EAGAIN, k)
       | p # ps \<Rightarrow> (Inr \<lparr>msg_wire = length p, msg_bytes = take n p, msg_peer = mirror_address, msg_namelen = 16,
           msg_out_flags = 0\<rparr>, (fst k, ps)))\<rparr>"

definition mirror_host :: "(u64 \<times> u8 list list) host" where
  "mirror_host = \<lparr>host_clock = (\<lambda>k. (fst k, (fst k + 1, snd k))), host_poll = (\<lambda>k fd timeout. (Inr Timed_out, k)),
     host_cancelled = (\<lambda>k. (False, k))\<rparr>"

definition mirror_options :: socket_options where
  "mirror_options = default_socket_options\<lparr>so_warmup := 1, so_samples := 1, so_runs := 1, so_client_cpu := 0, so_server_cpu := 1,
     so_profile := profiles ! 8, so_protocol_filter := Some Udp, so_payload_filter := Some 8\<rparr>"

lemma mirror_send:
  "send_profile_datagram mirror_api 3 bytes to (profiles ! 8) (t, q) = Some (Inr (), (t, q @ [bytes]))"
  by (simp add: send_profile_datagram_def profiles_def profile_of_def transmit_to.simps
      mirror_api_def)

lemma mirror_receive:
  assumes "t < deadline"
  shows "receive_udp_until mirror_api mirror_host 3 buffer deadline Spin (t, p # ps) =
    Some (Inr (Some \<lparr>rd_bytes = length p, rd_peer = mirror_address, rd_flags = 0,
      rd_buffer = write_at buffer 0 (take (length buffer) p)\<rparr>), (t + 1, ps))"
  using assms by (simp add: receive_udp_until_def spin_receive.simps deadline_over_def mirror_host_def
      attempt_receive_datagram_def receive_message.simps mirror_api_def)

lemma mirror_clock: "host_clock mirror_host (t, q) = (t, (t + 1, q))"
  by (simp add: mirror_host_def)

lemma mirror_wait: "receive_wait (profiles ! 8) = Spin" "udp_connected (profiles ! 8) = False"
  by (simp_all add: profiles_def profile_of_def)

lemma mirror_warmup:
  "warmup_round mirror_api mirror_host 3 mirror_address mirror_options 0 (wire_message 8 Udp 0, replicate 8 0) (0, []) =
    Some (Inr (wire_message 8 Udp 0, wire_message 8 Udp 0), (2, []))"
  using read_wire_message [of 8 Udp 0 Udp 0]
  by (simp add: warmup_round_def Let_def io_bind_def io_lift_def read_clock_def mirror_clock mirror_options_def mirror_wait
      mirror_send mirror_receive rewrite_header udp_timeout_ns_def udp_warmup_timeout_ns_def default_socket_options_def
      write_at_def same_endpoint_def mirror_address_def io_return_def)

lemma mirror_judge:
  "\<exists>client. judge_response (profiles ! 8) mirror_address 1 2 8 1 2 100000002 4 \<lparr>rd_bytes = 8, rd_peer = mirror_address, rd_flags = 0,
      rd_buffer = wire_message 8 Udp 1\<rparr> (new_udp_client (wire_message 8 Udp 0) (wire_message 8 Udp 0) 1) = Inr (True, client) \<and>
    length (uc_latencies client) = 1"
  using read_wire_message [of 8 Udp 1 Udp 1]
  by (simp add: judge_response_def Let_def mirror_wait same_endpoint_def mirror_address_def rewrite_header new_udp_client_def
      arrive_def no_arrivals_def measured_index_def u64_le_unat)

lemma mirror_round:
  "\<exists>client. measured_round mirror_api mirror_host 3 mirror_address failed mirror_options 8 0
      (wire_message 8 Udp 0, new_udp_client (wire_message 8 Udp 0) (wire_message 8 Udp 0) 1) (2, []) =
    Some (Inr (wire_message 8 Udp 1, client), (5, [])) \<and> length (uc_latencies client) = 1"
proof -
  let ?c = "new_udp_client (wire_message 8 Udp 0) (wire_message 8 Udp 0) 1"
  obtain client where judge: "judge_response (profiles ! 8) mirror_address 1 2 8 1 2 100000002 4
      \<lparr>rd_bytes = 8, rd_peer = mirror_address, rd_flags = 0, rd_buffer = wire_message 8 Udp 1\<rparr> ?c = Inr (True, client)"
    and one: "length (uc_latencies client) = 1"
    using mirror_judge by blast
  have "uc_inbound ?c = wire_message 8 Udp 0" by (simp add: new_udp_client_def)
  then have "await_response mirror_api mirror_host 3 (profiles ! 8) 100000002 (judge_response (profiles ! 8) mirror_address 1 2 8 1 2 100000002)
      ?c (3, [wire_message 8 Udp 1]) = Some (Inr (True, client), (5, []))"
    using judge by (simp add: await_response.simps [of mirror_api] mirror_wait mirror_receive mirror_clock write_at_def)
  then show ?thesis using one
    by (simp add: measured_round_def Let_def io_bind_def io_lift_def read_clock_def mirror_clock mirror_options_def mirror_wait
      mirror_send rewrite_header udp_timeout_ns_def default_socket_options_def)
qed

text \<open>The whole run of one round, with a server that reports its request.\<close>

lemma mirror_buffers: "initialize_message (replicate 8 0) Udp = Inr (wire_message 8 Udp 0)"
  by (rule initialize_message_layout) simp_all

lemma mirror_rounds:
  "\<exists>client. io_loop (measured_round mirror_api mirror_host 3 mirror_address failed mirror_options 8)
      [0..<unat (so_samples mirror_options)]
      (wire_message 8 Udp 0, new_udp_client (wire_message 8 Udp 0) (wire_message 8 Udp 0) (so_samples mirror_options)) (2, []) =
    Some (Inr (wire_message 8 Udp 1, client), (5, [])) \<and> length (uc_latencies client) = 1"
  using mirror_round [of failed] by (auto simp: mirror_options_def io_bind_def io_return_def)

lemma mirror_run:
  "\<exists>row k'. run_udp_client mirror_api mirror_host 3 mirror_address (\<lambda>k. (False, k))
      (io_return (new_report\<lparr>sv_measured_unique_requests := 1\<rparr>)) 8 run mirror_options settings settings' (0, []) = Some (Inr row, k')"
proof -
  have one: "so_warmup mirror_options = 1" "so_samples mirror_options = 1" by (simp_all add: mirror_options_def)
  obtain client where client: "io_loop (measured_round mirror_api mirror_host 3 mirror_address (\<lambda>k. (False, k)) mirror_options 8)
      [0..<unat (so_samples mirror_options)]
      (wire_message 8 Udp 0, new_udp_client (wire_message 8 Udp 0) (wire_message 8 Udp 0) (so_samples mirror_options)) (2, []) =
    Some (Inr (wire_message 8 Udp 1, client), (5, []))" and latencies: "length (uc_latencies client) = 1"
    using mirror_rounds by blast
  have warm: "io_loop (warmup_round mirror_api mirror_host 3 mirror_address mirror_options) [0..<unat (so_warmup mirror_options)]
      (wire_message 8 Udp 0, replicate 8 0) (0, []) = Some (Inr (wire_message 8 Udp 0, wire_message 8 Udp 0), (2, []))"
    using mirror_warmup by (simp add: one io_bind_def io_return_def)
  have ok: "uc_latencies client \<noteq> []" "length (uc_latencies client) \<le> 2 ^ 32" using latencies by auto
  show ?thesis
    using client warm summarize_run_exact [OF ok] latencies
    by (simp add: run_udp_client_def io_bind_def io_lift_def io_return_def mirror_buffers udp_accounting_def one) metis
qed


text \<open>The server of that run, which receives both messages before it is cancelled.\<close>

lemma mirror_server:
  "\<exists>s. udp_server inbox_api inbox_host 3 8 mirror_options [wire_message 8 Udp 0, wire_message 8 Udp 1] = Some (Inr s, []) \<and>
    ar_seen (us_arrivals s) ! 0 \<noteq> 0"
  using read_wire_message [of 8 Udp 0 Udp 0] read_wire_message [of 8 Udp 1 Udp 1]
  by (simp add: udp_server_def udp_server_loop.simps [of inbox_api] mirror_options_def mirror_wait inbox_receive inbox_send
      judge_request_def write_at_def count_request_def Let_def arrive_def new_udp_server_def no_arrivals_def measured_index_def
      u64_le_unat)

theorem udp_accounting_consistent_witness:
  "\<exists>s client outbound j' misses unobserved responses.
    udp_server inbox_api inbox_host 3 8 mirror_options [wire_message 8 Udp 0, wire_message 8 Udp 1] = Some (Inr s, []) \<and>
    io_loop (measured_round mirror_api mirror_host 3 mirror_address (\<lambda>k. (False, k)) mirror_options 8)
      [0..<unat (so_samples mirror_options)]
      (wire_message 8 Udp 0, new_udp_client (wire_message 8 Udp 0) (wire_message 8 Udp 0) (so_samples mirror_options)) (2, []) =
        Some (Inr (outbound, client), j') \<and>
    udp_accounting (so_samples mirror_options) (of_nat (length (uc_latencies client)))
      (sv_measured_unique_requests (us_report s)) = Inr (misses, unobserved, responses)"
proof -
  obtain s where server: "udp_server inbox_api inbox_host 3 8 mirror_options [wire_message 8 Udp 0, wire_message 8 Udp 1] =
      Some (Inr s, [])" and seen: "ar_seen (us_arrivals s) ! 0 \<noteq> 0"
    using mirror_server by blast
  obtain client where client: "io_loop (measured_round mirror_api mirror_host 3 mirror_address (\<lambda>k. (False, k)) mirror_options 8)
      [0..<unat (so_samples mirror_options)]
      (wire_message 8 Udp 0, new_udp_client (wire_message 8 Udp 0) (wire_message 8 Udp 0) (so_samples mirror_options)) (2, []) =
    Some (Inr (wire_message 8 Udp 1, client), (5, []))"
    using mirror_rounds by blast
  have bound: "unat (so_warmup mirror_options) + unat (so_samples mirror_options) < 2 ^ 32"
    and law: "\<forall>i < unat (so_samples mirror_options). ar_seen (uc_arrivals client) ! i \<noteq> 0 \<longrightarrow> ar_seen (us_arrivals s) ! i \<noteq> 0"
    using seen by (simp_all add: mirror_options_def)
  have message: "initialize_message (replicate (unat (8 :: size_t)) 0) Udp = Inr (wire_message 8 Udp 0)"
    and header: "write_header (wire_message 8 Udp 0) Udp 0 = Inr (wire_message 8 Udp 0)"
    using mirror_buffers by (simp_all add: rewrite_header)
  from udp_accounting_consistent [OF bound server message header client law] show ?thesis using server client by blast
qed

end
