(* ===== verification/Socket_Runs.thy ===== *)
theory Socket_Runs
  imports Udp_Client "HOL-Library.Sublist"
begin

text \<open>
  The runs of \<open>socket_latency.cpp\<close> as a whole: \<open>run_tcp\<close> and \<open>run_udp\<close> with the sockets they create
  and close, and \<open>main\<close> over the schedule. The kernel's calls on sockets and the server's thread,
  as its creator sees it, are parameters. Pinning, the clock's overhead and the format of the
  printed rows are not modelled.
\<close>

unbundle bit_operations_syntax

section \<open>Sockets\<close>

definition SOCK_STREAM :: int where "SOCK_STREAM = 1"
definition SOCK_DGRAM :: int where "SOCK_DGRAM = 2"
definition SOCK_CLOEXEC :: int where "SOCK_CLOEXEC = 0x80000"
definition IPPROTO_UDP :: int where "IPPROTO_UDP = 17"
definition INADDR_LOOPBACK :: u32 where "INADDR_LOOPBACK = 0x7f000001"

record 'k network =
  nw_socket :: "'k \<Rightarrow> u16 \<Rightarrow> int \<Rightarrow> int \<Rightarrow> (int + int) \<times> 'k"
  nw_bind :: "'k \<Rightarrow> int \<Rightarrow> sockaddr_in \<Rightarrow> (int + unit) \<times> 'k"
  nw_getsockname :: "'k \<Rightarrow> int \<Rightarrow> (int + sockaddr_in \<times> nat) \<times> 'k"
  nw_listen :: "'k \<Rightarrow> int \<Rightarrow> int \<Rightarrow> (int + unit) \<times> 'k"
  nw_connect :: "'k \<Rightarrow> int \<Rightarrow> sockaddr_in \<Rightarrow> (int + unit) \<times> 'k"
  nw_accept :: "'k \<Rightarrow> int \<Rightarrow> (int + int) \<times> 'k"
  nw_shutdown :: "'k \<Rightarrow> int \<Rightarrow> 'k"
  nw_close :: "'k \<Rightarrow> int \<Rightarrow> 'k"

text \<open>A call that fails throws its error under its name.\<close>

definition checked :: "string \<Rightarrow> ('k \<Rightarrow> (int + 'a) \<times> 'k) \<Rightarrow> ('a, 'k) io" where
  "checked operation call k = (case call k of (outcome, k') \<Rightarrow> Some (map_sum (System_error operation) id outcome, k'))"

text \<open>
  The scope of a \<open>unique_fd\<close> that owns \<open>descriptor\<close>: its destructor closes the descriptor however
  the scope is left.
\<close>

definition with_fd :: "'k network \<Rightarrow> int \<Rightarrow> ('a, 'k) io \<Rightarrow> ('a, 'k) io" where
  "with_fd net descriptor body k =
     map_option (\<lambda>(outcome, k'). (outcome, if descriptor \<ge> 0 then nw_close net k' descriptor else k')) (body k)"

definition make_socket :: "'k network \<Rightarrow> int \<Rightarrow> int \<Rightarrow> (int, 'k) io" where
  "make_socket net type socket_protocol =
     checked ''socket'' (\<lambda>k. nw_socket net k AF_INET (type OR SOCK_CLOEXEC) socket_protocol)"

text \<open>The rest of a function after \<open>auto x = make_socket(...)\<close>.\<close>

definition with_socket :: "'k network \<Rightarrow> int \<Rightarrow> int \<Rightarrow> (int \<Rightarrow> ('a, 'k) io) \<Rightarrow> ('a, 'k) io" where
  "with_socket net type socket_protocol body =
     io_bind (make_socket net type socket_protocol) (\<lambda>descriptor. with_fd net descriptor (body descriptor))"

definition loopback_address :: "u16 \<Rightarrow> sockaddr_in" where
  "loopback_address port = \<lparr>sin_family = AF_INET, sin_port = htons port, sin_addr = htonl INADDR_LOOPBACK\<rparr>"

definition bound_port :: "'k network \<Rightarrow> int \<Rightarrow> (u16, 'k) io" where
  "bound_port net descriptor =
     io_bind (checked ''getsockname'' (\<lambda>k. nw_getsockname net k descriptor)) (\<lambda>(address, len).
     if len \<noteq> sizeof_sockaddr_in \<or> sin_family address \<noteq> AF_INET
     then io_throw (Runtime_error ''getsockname returned an unexpected address'')
     else io_return (htons (sin_port address)))"

definition bind_ephemeral_loopback :: "'k network \<Rightarrow> int \<Rightarrow> (unit, 'k) io" where
  "bind_ephemeral_loopback net descriptor = checked ''bind'' (\<lambda>k. nw_bind net k descriptor (loopback_address 0))"

section \<open>The runs\<close>

text \<open>
  The server's thread as its creator sees it. \<open>th_start\<close> starts it and waits until it serves or
  has failed, in which case it joins it and throws its error; \<open>th_join\<close> joins it and throws its
  error, if any; \<open>th_reap\<close> only joins it.
\<close>

record 'k server_thread =
  th_start :: "(unit, 'k) io"
  th_failed :: "'k \<Rightarrow> bool \<times> 'k"
  th_cancel :: "'k \<Rightarrow> 'k"
  th_join :: "(server_report, 'k) io"
  th_joinable :: "'k \<Rightarrow> bool"
  th_reap :: "'k \<Rightarrow> 'k"

text \<open>\<open>catch (...)\<close> with a handler that rethrows.\<close>

definition io_cleanup :: "('a, 'k) io \<Rightarrow> ('k \<Rightarrow> 'k) \<Rightarrow> ('a, 'k) io" where
  "io_cleanup m handler k = (case m k of Some (Inl e, k') \<Rightarrow> Some (Inl e, handler k') | outcome \<Rightarrow> outcome)"

definition run_tcp :: "'k network \<Rightarrow> 'k socket_api \<Rightarrow> 'k host \<Rightarrow> (int \<Rightarrow> 'k server_thread) \<Rightarrow> size_t \<Rightarrow> size_t \<Rightarrow>
    socket_options \<Rightarrow> (run_row, 'k) io" where
  "run_tcp net api host threads payload_bytes run c =
     (let profile = so_profile c
      in with_socket net SOCK_STREAM IPPROTO_TCP (\<lambda>listener.
         io_bind (bind_ephemeral_loopback net listener) (\<lambda>_.
         io_bind (checked ''listen'' (\<lambda>k. nw_listen net k listener 1)) (\<lambda>_.
         io_bind (bound_port net listener) (\<lambda>port.
         with_socket net SOCK_STREAM IPPROTO_TCP (\<lambda>client.
         io_bind (if tcp_nodelay profile then set_socket_integer_option api client IPPROTO_TCP TCP_NODELAY 1
                  else io_return ()) (\<lambda>_.
         io_bind (read_clock host) (\<lambda>connect_started.
         io_bind (checked ''connect'' (\<lambda>k. nw_connect net k client (loopback_address port))) (\<lambda>_.
         io_bind (read_clock host) (\<lambda>connect_finished.
         io_bind (configure_busy_poll api client profile) (\<lambda>client_busy_poll.
         io_bind (rearm_tcp_quickack api client profile) (\<lambda>_.
         io_bind (socket_integer_option api client SOL_SOCKET SO_SNDBUF) (\<lambda>client_send_buffer.
         io_bind (socket_integer_option api client SOL_SOCKET SO_RCVBUF) (\<lambda>client_receive_buffer.
         io_bind (socket_integer_option api client IPPROTO_TCP TCP_NODELAY) (\<lambda>client_nodelay.
         if client_nodelay \<noteq> of_bool (tcp_nodelay profile)
         then io_throw (Runtime_error ''client TCP_NODELAY verification failed'')
         else let thread = threads listener
           in io_cleanup (io_bind (th_start thread) (\<lambda>_.
                run_client Tcp payload_bytes run c host (tcp_exchange api host client profile)
                  (rearm_tcp_quickack api client profile) (th_join thread) (connect_finished - connect_started)
                  \<lparr>st_busy_poll_us = client_busy_poll, st_send_buffer_bytes = client_send_buffer,
                   st_receive_buffer_bytes = client_receive_buffer, st_tcp_nodelay = client_nodelay\<rparr>))
              (\<lambda>k. if th_joinable thread k then th_reap thread (nw_shutdown net k client) else k))))))))))))))))"

text \<open>What the server's thread of a TCP run does.\<close>

definition tcp_server_thread :: "'k network \<Rightarrow> 'k socket_api \<Rightarrow> 'k host \<Rightarrow> int \<Rightarrow> size_t \<Rightarrow> socket_options \<Rightarrow>
    (server_report, 'k) io" where
  "tcp_server_thread net api host listener payload_bytes c =
     io_bind (checked ''accept'' (\<lambda>k. nw_accept net k listener)) (\<lambda>connection. with_fd net connection (
     io_bind (configure_connection api connection (so_profile c)) (\<lambda>settings.
     io_bind (tcp_server api host connection payload_bytes c) (\<lambda>report. io_return (report\<lparr>sv_settings := settings\<rparr>)))))"

text \<open>Each end of a connected UDP pair takes datagrams from the other only.\<close>

definition connect_pair :: "'k network \<Rightarrow> int \<Rightarrow> int \<Rightarrow> sockaddr_in \<Rightarrow> (unit, 'k) io" where
  "connect_pair net client server server_address =
     io_bind (bind_ephemeral_loopback net client) (\<lambda>_.
     io_bind (bound_port net client) (\<lambda>port.
     io_bind (checked ''connect UDP client'' (\<lambda>k. nw_connect net k client server_address)) (\<lambda>_.
     checked ''connect UDP server'' (\<lambda>k. nw_connect net k server (loopback_address port)))))"

text \<open>Buffer sizes of a UDP socket, which has no \<open>TCP_NODELAY\<close>.\<close>

definition udp_settings :: "int \<Rightarrow> int \<Rightarrow> int \<Rightarrow> socket_settings" where
  "udp_settings busy_poll send_buffer receive_buffer = \<lparr>st_busy_poll_us = busy_poll, st_send_buffer_bytes = send_buffer,
     st_receive_buffer_bytes = receive_buffer, st_tcp_nodelay = - 1\<rparr>"

definition run_udp :: "'k network \<Rightarrow> 'k socket_api \<Rightarrow> 'k host \<Rightarrow> (int \<Rightarrow> 'k server_thread) \<Rightarrow> size_t \<Rightarrow> size_t \<Rightarrow>
    socket_options \<Rightarrow> (run_row, 'k) io" where
  "run_udp net api host threads payload_bytes run c =
     (let profile = so_profile c
      in with_socket net SOCK_DGRAM IPPROTO_UDP (\<lambda>server_socket.
         io_bind (bind_ephemeral_loopback net server_socket) (\<lambda>_.
         io_bind (bound_port net server_socket) (\<lambda>port. let server_address = loopback_address port in
         with_socket net SOCK_DGRAM IPPROTO_UDP (\<lambda>client.
         io_bind (if udp_connected profile then connect_pair net client server_socket server_address else io_return ()) (\<lambda>_.
         io_bind (configure_busy_poll api client profile) (\<lambda>client_busy_poll.
         io_bind (socket_integer_option api client SOL_SOCKET SO_SNDBUF) (\<lambda>client_send_buffer.
         io_bind (socket_integer_option api client SOL_SOCKET SO_RCVBUF) (\<lambda>client_receive_buffer.
         io_bind (socket_integer_option api server_socket SOL_SOCKET SO_SNDBUF) (\<lambda>server_send_buffer.
         io_bind (socket_integer_option api server_socket SOL_SOCKET SO_RCVBUF) (\<lambda>server_receive_buffer.
         io_bind (configure_busy_poll api server_socket profile) (\<lambda>server_busy_poll.
         let thread = threads server_socket
         in io_cleanup (io_bind (th_start thread) (\<lambda>_.
              run_udp_client api host client server_address (th_failed thread) (\<lambda>k. th_join thread (th_cancel thread k))
                payload_bytes run c (udp_settings client_busy_poll client_send_buffer client_receive_buffer)
                (udp_settings server_busy_poll server_send_buffer server_receive_buffer)))
            (\<lambda>k. let k = th_cancel thread k in if th_joinable thread k then th_reap thread k else k)))))))))))))"

section \<open>The program\<close>

definition run_workload :: "'k network \<Rightarrow> 'k socket_api \<Rightarrow> 'k host \<Rightarrow> (protocol \<Rightarrow> size_t \<Rightarrow> size_t \<Rightarrow> int \<Rightarrow> 'k server_thread) \<Rightarrow>
    socket_options \<Rightarrow> size_t \<Rightarrow> protocol \<times> size_t \<Rightarrow> (run_row, 'k) io" where
  "run_workload net api host threads c run current =
     (case current of
        (Tcp, payload_bytes) \<Rightarrow> run_tcp net api host (threads Tcp payload_bytes run) payload_bytes (run + 1) c
      | (Udp, payload_bytes) \<Rightarrow> run_udp net api host (threads Udp payload_bytes run) payload_bytes (run + 1) c)"

text \<open>The printed rows with their positions, and the exception that ended the loop, if one did.\<close>

type_synonym printed_rows = "(size_t \<times> run_row) list"

fun run_positions :: "('w \<Rightarrow> (run_row, 'k) io) \<Rightarrow> size_t \<Rightarrow> 'w list \<Rightarrow> printed_rows \<Rightarrow> 'k \<Rightarrow> ((exception option \<times> printed_rows) \<times> 'k) option" where
  "run_positions execute position [] printed k = Some ((None, printed), k)"
| "run_positions execute position (current # workloads) printed k =
     (case execute current k of
        None \<Rightarrow> None
      | Some (Inl e, k') \<Rightarrow> Some ((Some e, printed), k')
      | Some (Inr row, k') \<Rightarrow> run_positions execute (position + 1) workloads (printed @ [(position + 1, row)]) k')"

fun run_all :: "(size_t \<Rightarrow> 'w \<Rightarrow> (run_row, 'k) io) \<Rightarrow> (size_t \<Rightarrow> 'w list) \<Rightarrow> nat list \<Rightarrow> printed_rows \<Rightarrow> 'k \<Rightarrow>
    ((exception option \<times> printed_rows) \<times> 'k) option" where
  "run_all execute workloads [] printed k = Some ((None, printed), k)"
| "run_all execute workloads (run # runs) printed k =
     (case run_positions (execute (of_nat run)) 0 (workloads (of_nat run)) printed k of
        Some ((None, printed'), k') \<Rightarrow> run_all execute workloads runs printed' k'
      | outcome \<Rightarrow> outcome)"

definition socket_main :: "int list \<Rightarrow> 'k network \<Rightarrow> 'k socket_api \<Rightarrow> 'k host \<Rightarrow>
    (protocol \<Rightarrow> size_t \<Rightarrow> size_t \<Rightarrow> int \<Rightarrow> 'k server_thread) \<Rightarrow> string list \<Rightarrow> 'k \<Rightarrow> ((nat \<times> printed_rows) \<times> 'k) option" where
  "socket_main cpus net api host threads args k =
     (case parse_options args of
        Inl _ \<Rightarrow> Some ((1, []), k)
      | Inr None \<Rightarrow> Some ((0, []), k)
      | Inr (Some c) \<Rightarrow> (case resolve_affinity cpus c of
          Inl _ \<Rightarrow> Some ((1, []), k)
        | Inr c \<Rightarrow> (let workloads = canonical_workloads c in case williams_first_row (of_nat (length workloads)) of
            Inl _ \<Rightarrow> Some ((1, []), k)
          | Inr order \<Rightarrow> map_option (\<lambda>((failure, printed), k'). ((if failure = None then 0 else 1, printed), k'))
              (run_all (run_workload net api host threads c) (run_order order workloads) [0..<unat (so_runs c)] [] k))))"

section \<open>What is printed\<close>

text \<open>Which run, position and workload a printed row is of, and those of a whole benchmark in order.\<close>

type_synonym label = "size_t \<times> size_t \<times> protocol \<times> size_t"

definition row_label :: "size_t \<times> run_row \<Rightarrow> label" where
  "row_label printed = (row_run (snd printed), fst printed, row_protocol (snd printed), row_payload_bytes (snd printed))"

fun planned_positions :: "size_t \<Rightarrow> size_t \<Rightarrow> (protocol \<times> size_t) list \<Rightarrow> label list" where
  "planned_positions run position [] = []"
| "planned_positions run position ((p, n) # workloads) = (run + 1, position + 1, p, n) # planned_positions run (position + 1) workloads"

definition planned :: "(size_t \<Rightarrow> (protocol \<times> size_t) list) \<Rightarrow> nat list \<Rightarrow> label list" where
  "planned workloads runs = concat (map (\<lambda>run. planned_positions (of_nat run) 0 (workloads (of_nat run))) runs)"

text \<open>A property of every value an operation returns.\<close>

definition yields :: "('a \<Rightarrow> bool) \<Rightarrow> ('a, 'k) io \<Rightarrow> bool" where
  "yields Q m \<longleftrightarrow> (\<forall>k a k'. m k = Some (Inr a, k') \<longrightarrow> Q a)"

named_theorems yielding \<open>what the last operation of a sequence returns\<close>

lemma yields_bind [yielding]: "(\<And>a. yields Q (f a)) \<Longrightarrow> yields Q (io_bind m f)"
  by (fastforce simp: yields_def io_bind_result)

lemma yields_throw [yielding]: "yields Q (io_throw e)"
  by (simp add: yields_def io_throw_result)

lemma yields_if [yielding]: "(c \<Longrightarrow> yields Q m) \<Longrightarrow> (\<not> c \<Longrightarrow> yields Q m') \<Longrightarrow> yields Q (if c then m else m')"
  by simp

lemma yields_prod [yielding]: "(\<And>a b. yields Q (f a b)) \<Longrightarrow> yields Q (case x of (a, b) \<Rightarrow> f a b)"
  by (cases x) simp

lemma yields_socket [yielding]: "(\<And>fd. yields Q (body fd)) \<Longrightarrow> yields Q (with_socket net type socket_protocol body)"
  by (auto simp: yields_def with_socket_def with_fd_def io_bind_result)

lemma yields_cleanup [yielding]: "yields Q m \<Longrightarrow> yields Q (io_cleanup m handler)"
  by (auto simp: yields_def io_cleanup_def split: option.splits sum.splits)

abbreviation row_of :: "protocol \<Rightarrow> size_t \<Rightarrow> size_t \<Rightarrow> run_row \<Rightarrow> bool" where
  "row_of p n run row \<equiv> row_run row = run \<and> row_protocol row = p \<and> row_payload_bytes row = n"

lemma yields_summary [yielding]:
  "yields (row_of p n run) (io_lift (summarize_run p n run c samples connect_ns settings settings' counts checksum))"
  by (auto simp: yields_def io_lift_def summarize_run_def Let_def split: if_splits sum.splits)

lemma run_client_yields [yielding]:
  "yields (row_of p n run) (run_client p n run c host exchange post join_server connect_ns settings)"
  unfolding run_client_def Let_def by (rule yielding)+

lemma run_udp_client_yields [yielding]:
  "yields (row_of Udp n run) (run_udp_client api host fd server_address failed join_server n run c settings settings')"
  unfolding run_udp_client_def by (rule yielding)+

lemma run_workload_label:
  assumes "run_workload net api host threads c run w k = Some (Inr row, k')"
  shows "row_label (position, row) = (run + 1, position, w)"
proof -
  have "yields (row_of Tcp n (run + 1)) (run_tcp net api host threads n (run + 1) c)" for threads n
    unfolding run_tcp_def Let_def by (rule yielding)+
  moreover have "yields (row_of Udp n (run + 1)) (run_udp net api host threads n (run + 1) c)" for threads n
    unfolding run_udp_def Let_def by (rule yielding)+
  ultimately show ?thesis
    using assms unfolding yields_def by (cases w; cases "fst w") (fastforce simp: run_workload_def row_label_def)+
qed

lemma run_positions_prints:
  assumes "run_positions execute position ws printed k = Some ((failure, printed'), k')"
    and "\<And>w k row k' position. execute w k = Some (Inr row, k') \<Longrightarrow> row_label (position, row) = (run + 1, position, w)"
  shows "\<exists>ls. map row_label printed' = map row_label printed @ ls \<and> prefix ls (planned_positions run position ws) \<and>
    (failure = None \<longrightarrow> ls = planned_positions run position ws)"
  using assms
proof (induction execute position ws printed k rule: run_positions.induct)
  case (2 execute position w ws printed k)
  obtain p n where w: "w = (p, n)" by fastforce
  obtain r k1 where ex: "execute w k = Some (r, k1)" using 2(2) by (auto split: option.splits)
  show ?case
  proof (cases r)
    case (Inl e)
    then show ?thesis using 2(2) ex by (auto simp: w)
  next
    case (Inr row)
    have "row_label (position + 1, row) = (run + 1, position + 1, p, n)" using 2(3) ex Inr w by blast
    moreover obtain ls where "map row_label printed' = map row_label (printed @ [(position + 1, row)]) @ ls"
      "prefix ls (planned_positions run (position + 1) ws)" "failure = None \<longrightarrow> ls = planned_positions run (position + 1) ws"
      using 2(1) [OF ex refl Inr] 2(2) ex Inr 2(3) by auto
    ultimately show ?thesis by (intro exI [of _ "(run + 1, position + 1, p, n) # ls"]) (simp add: w)
  qed
qed simp

lemma run_all_prints:
  assumes "run_all execute workloads runs printed k = Some ((failure, printed'), k')"
    and "\<And>run w k row k' position. execute run w k = Some (Inr row, k') \<Longrightarrow> row_label (position, row) = (run + 1, position, w)"
  shows "\<exists>ls. map row_label printed' = map row_label printed @ ls \<and> prefix ls (planned workloads runs) \<and>
    (failure = None \<longrightarrow> ls = planned workloads runs)"
  using assms
proof (induction execute workloads runs printed k rule: run_all.induct)
  case (2 execute workloads run runs printed k)
  let ?first = "planned_positions (of_nat run) 0 (workloads (of_nat run))"
  obtain f1 p1 k1 where one: "run_positions (execute (of_nat run)) 0 (workloads (of_nat run)) printed k = Some ((f1, p1), k1)"
    using 2(2) by (auto split: option.splits)
  obtain ls where ls: "map row_label p1 = map row_label printed @ ls" "prefix ls ?first" "f1 = None \<longrightarrow> ls = ?first"
    using run_positions_prints [OF one, where run = "of_nat run"] 2(3) by blast
  have plan: "planned workloads (run # runs) = ?first @ planned workloads runs" by (simp add: planned_def)
  show ?case
  proof (cases f1)
    case None
    then have rest: "run_all execute workloads runs p1 k1 = Some ((failure, printed'), k')" using 2(2) one by simp
    obtain ls' where "map row_label printed' = map row_label p1 @ ls'" "prefix ls' (planned workloads runs)"
      "failure = None \<longrightarrow> ls' = planned workloads runs"
      using 2(1) [OF one refl refl None rest] 2(3) by blast
    then show ?thesis using ls None plan by (intro exI [of _ "?first @ ls'"]) simp
  next
    case (Some e)
    then show ?thesis using 2(2) one ls plan by (intro exI [of _ ls]) (auto simp: prefix_def)
  qed
qed (simp add: planned_def)

lemma resolved_workloads: "resolve_affinity cpus c = Inr c' \<Longrightarrow> canonical_workloads c' = canonical_workloads c \<and> so_runs c' = so_runs c"
  by (auto simp: resolve_affinity_def Let_def canonical_workloads_def selects_def split: if_splits)

text \<open>C26: The program prints what it set out to measure: whatever the kernel, the clock and the server's
  threads do, the printed rows are, in order, those of the first runs and positions of the accepted
  configuration's schedule, each labelled with its own run, position, protocol and payload; it exits
  with 0 only when every run of every scheduled workload has a row, and with 1 otherwise.\<close>

theorem benchmark_complete:
  assumes "socket_main cpus net api host threads args k = Some ((status, printed), k')" "parse_options args = Inr (Some c)"
  shows "let plan = planned (\<lambda>run. case schedule c run of Inl _ \<Rightarrow> [] | Inr workloads \<Rightarrow> workloads) [0..<unat (so_runs c)]
    in prefix (map row_label printed) plan \<and> (status = 0 \<longrightarrow> map row_label printed = plan) \<and> status \<le> 1"
proof (cases "resolve_affinity cpus c")
  case (Inl e)
  then show ?thesis using assms by (simp add: socket_main_def)
next
  case (Inr c')
  note same = resolved_workloads [OF Inr]
  show ?thesis
  proof (cases "williams_first_row (of_nat (length (canonical_workloads c)))")
    case (Inl e)
    then show ?thesis using assms Inr same by (simp add: socket_main_def Let_def)
  next
    case order: (Inr order)
    have plan: "(\<lambda>run. case schedule c run of Inl _ \<Rightarrow> [] | Inr workloads \<Rightarrow> workloads) = run_order order (canonical_workloads c)"
      using order by (auto simp: schedule_def Let_def)
    obtain failure where run: "run_all (run_workload net api host threads c') (run_order order (canonical_workloads c))
        [0..<unat (so_runs c)] [] k = Some ((failure, printed), k')" and status: "status = (if failure = None then 0 else 1)"
      using assms Inr order same by (auto simp: socket_main_def Let_def)
    have label: "row_label (position, row) = (run + 1, position, w)"
      if "run_workload net api host threads c' run w k = Some (Inr row, k')" for run w k row k' position
      by (rule run_workload_label [OF that])
    show ?thesis
      unfolding plan using run_all_prints [OF run label] status by (auto simp: Let_def)
  qed
qed

text \<open>A UDP benchmark of one round over the mirroring socket, with a server that reports its request.\<close>

definition mirror_net :: "(u64 \<times> u8 list list) network" where
  "mirror_net = \<lparr>nw_socket = (\<lambda>k family type socket_protocol. (Inr 3, k)), nw_bind = (\<lambda>k fd address. (Inr (), k)),
     nw_getsockname = (\<lambda>k fd. (Inr (mirror_address, sizeof_sockaddr_in), k)),
     nw_listen = (\<lambda>k fd backlog. (Inr (), k)), nw_connect = (\<lambda>k fd address. (Inr (), k)), nw_accept = (\<lambda>k fd. (Inr 6, k)),
     nw_shutdown = (\<lambda>k fd. k), nw_close = (\<lambda>k fd. k)\<rparr>"

definition mirror_thread :: "(u64 \<times> u8 list list) server_thread" where
  "mirror_thread = \<lparr>th_start = io_return (), th_failed = (\<lambda>k. (False, k)), th_cancel = (\<lambda>k. k),
     th_join = io_return (new_report\<lparr>sv_measured_unique_requests := 1\<rparr>), th_joinable = (\<lambda>k. False), th_reap = (\<lambda>k. k)\<rparr>"

definition mirror_arguments :: "string list" where
  "mirror_arguments = [''--warmup'', ''1'', ''--samples'', ''1'', ''--runs'', ''1'', ''--client-cpu'', ''0'', ''--server-cpu'', ''1'',
     ''--profile'', ''udp-spin'', ''--protocol'', ''udp'', ''--payload'', ''8'']"

lemmas option_values = set_socket_option_def parse_size_def parse_cpu_index_def parse_profile_def parse_protocol_def parse_payload_def
  from_chars_u64_def from_chars_int_def is_digit_def digits_value_def digit_value_def payload_sizes_def profiles_def profile_of_def

lemma mirror_accepted: "parse_options mirror_arguments = Inr (Some mirror_options)"
proof -
  have "check_socket_options mirror_options = Inr mirror_options"
    by (simp add: check_socket_options_def mirror_options_def default_socket_options_def profiles_def profile_of_def supports_def)
  moreover have "set_socket_option c ''--warmup'' ''1'' = Inr (c\<lparr>so_warmup := 1\<rparr>)"
    "set_socket_option c ''--samples'' ''1'' = Inr (c\<lparr>so_samples := 1\<rparr>)"
    "set_socket_option c ''--runs'' ''1'' = Inr (c\<lparr>so_runs := 1\<rparr>)"
    "set_socket_option c ''--client-cpu'' ''0'' = Inr (c\<lparr>so_client_cpu := 0\<rparr>)"
    "set_socket_option c ''--server-cpu'' ''1'' = Inr (c\<lparr>so_server_cpu := 1\<rparr>)"
    "set_socket_option c ''--profile'' ''udp-spin'' = Inr (c\<lparr>so_profile := profiles ! 8\<rparr>)"
    "set_socket_option c ''--protocol'' ''udp'' = Inr (c\<lparr>so_protocol_filter := Some Udp\<rparr>)"
    "set_socket_option c ''--payload'' ''8'' = Inr (c\<lparr>so_payload_filter := Some 8\<rparr>)" for c
    by (simp_all add: option_values)
  ultimately show ?thesis
    by (simp add: parse_options_def mirror_arguments_def takes_value_def mirror_options_def)
qed

lemma mirror_main:
  "\<exists>row k'. socket_main [] mirror_net mirror_api mirror_host (\<lambda>p n run fd. mirror_thread) mirror_arguments (0, []) =
    Some ((0, [(1, row)]), k')"
proof -
  have address: "loopback_address (htons (sin_port mirror_address)) = mirror_address" "sin_family mirror_address = AF_INET"
    by (simp_all add: mirror_address_def loopback_address_def INADDR_LOOPBACK_def)
  have plan: "canonical_workloads mirror_options = [(Udp, 8)]" "resolve_affinity [] mirror_options = Inr mirror_options"
    "williams_first_row 1 = Inr [0]" "run_order [0] [(Udp, 8 :: size_t)] 0 = [(Udp, 8)]" "so_runs mirror_options = 1" by code_simp+
  obtain row k' where run: "run_udp_client mirror_api mirror_host 3 mirror_address (\<lambda>k. (False, k))
      (io_return (new_report\<lparr>sv_measured_unique_requests := 1\<rparr>)) 8 1 mirror_options (udp_settings 0 0 0) (udp_settings 0 0 0) (0, []) =
      Some (Inr row, k')"
    using mirror_run by blast
  have options: "busy_poll_us (so_profile mirror_options) = 0" "udp_connected (so_profile mirror_options) = False"
    "socket_integer_option mirror_api fd level option k = Some (Inr 0, k)" for fd level option k
    by (simp_all add: mirror_options_def profiles_def profile_of_def socket_integer_option_def mirror_api_def sizeof_int_def)
  have joined: "io_return r = (\<lambda>k. Some (Inr r, k))" for r :: server_report
    by (rule ext) (simp add: io_return_def)
  have "run_udp mirror_net mirror_api mirror_host (\<lambda>fd. mirror_thread) 8 1 mirror_options (0, []) = Some (Inr row, k')"
    using run address options unfolding joined
    by (simp add: run_udp_def Let_def with_socket_def make_socket_def checked_def with_fd_def io_bind_def io_return_def
        bind_ephemeral_loopback_def bound_port_def mirror_net_def io_cleanup_def mirror_thread_def configure_busy_poll_def)
  then show ?thesis
    using plan by (simp add: socket_main_def mirror_accepted Let_def run_workload_def)
qed

theorem benchmark_complete_witness:
  "\<exists>printed k'. socket_main [] mirror_net mirror_api mirror_host (\<lambda>p n run fd. mirror_thread) mirror_arguments (0, []) =
      Some ((0, printed), k') \<and> map row_label printed = [(1, 1, Udp, 8)]"
proof -
  obtain row k' where run: "socket_main [] mirror_net mirror_api mirror_host (\<lambda>p n run fd. mirror_thread) mirror_arguments (0, []) =
      Some ((0, [(1, row)]), k')" using mirror_main by blast
  have "planned (\<lambda>run. case schedule mirror_options run of Inl _ \<Rightarrow> [] | Inr workloads \<Rightarrow> workloads) [0..<unat (so_runs mirror_options)] =
      [(1, 1, Udp, 8)]" by code_simp
  then show ?thesis using benchmark_complete [OF run mirror_accepted] run by (auto simp: Let_def)
qed

end
