(* ===== verification/Socket_Lifetimes.thy ===== *)
theory Socket_Lifetimes
  imports Socket_Runs
begin

text \<open>
  The resources of the runs. Every socket is closed on every path: the set of the descriptors a
  thread holds open, which only \<open>socket\<close>, \<open>accept\<close> and \<open>close\<close> change, is the same after a run as
  before it. Every thread is joined on every path: none is joinable after a run, whose variable
  would end the program. Both follow from one notion, that an operation \<open>keeps\<close> an observation of
  the state, with a rule for each way operations are composed.
\<close>

unbundle bit_operations_syntax

section \<open>Operations that open and close nothing\<close>

definition keeps :: "('k \<Rightarrow> 'h) \<Rightarrow> ('a, 'k) io \<Rightarrow> bool" where
  "keeps opens m \<longleftrightarrow> (\<forall>k r k'. m k = Some (r, k') \<longrightarrow> opens k' = opens k)"

named_theorems keeping \<open>operations that keep the open descriptors\<close>

lemma keepsI: "(\<And>k r k'. m k = Some (r, k') \<Longrightarrow> opens k' = opens k) \<Longrightarrow> keeps opens m"
  by (auto simp: keeps_def)

lemma keepsD: "keeps opens m \<Longrightarrow> m k = Some (r, k') \<Longrightarrow> opens k' = opens k"
  by (simp add: keeps_def)

lemma keeps_return [keeping]: "keeps opens (io_return a)"
  by (simp add: keeps_def io_return_def)

lemma keeps_throw [keeping]: "keeps opens (io_throw e)"
  by (simp add: keeps_def io_throw_def)

lemma keeps_lift [keeping]: "keeps opens (io_lift x)"
  by (simp add: keeps_def io_lift_def)

lemma keeps_bind [keeping]: "keeps opens m \<Longrightarrow> (\<And>a. keeps opens (f a)) \<Longrightarrow> keeps opens (io_bind m f)"
  by (fastforce simp: keeps_def io_bind_def split: option.splits sum.splits)

lemma keeps_if [keeping]: "(c \<Longrightarrow> keeps opens m) \<Longrightarrow> (\<not> c \<Longrightarrow> keeps opens m') \<Longrightarrow> keeps opens (if c then m else m')"
  by simp

lemma keeps_option [keeping]: "keeps opens m \<Longrightarrow> (\<And>a. keeps opens (f a)) \<Longrightarrow> keeps opens (case x of None \<Rightarrow> m | Some a \<Rightarrow> f a)"
  by (simp split: option.splits)

lemma keeps_prod [keeping]: "(\<And>a b. keeps opens (f a b)) \<Longrightarrow> keeps opens (case x of (a, b) \<Rightarrow> f a b)"
  by (cases x) simp

lemma keeps_let [keeping]: "(\<And>a. keeps opens (f a)) \<Longrightarrow> keeps opens (let a = x in f a)"
  by simp

lemma keeps_loop [keeping]: "(\<And>i s. keeps opens (body i s)) \<Longrightarrow> keeps opens (io_loop body is s)"
  by (induction "is" arbitrary: s) (auto intro: keeping)

lemma keeps_cleanup [keeping]: "keeps opens m \<Longrightarrow> (\<And>k. opens (handler k) = opens k) \<Longrightarrow> keeps opens (io_cleanup m handler)"
  by (fastforce simp: keeps_def io_cleanup_def split: option.splits sum.splits prod.splits)

lemma keeps_checked [keeping]: "(\<And>k. opens (snd (call k)) = opens k) \<Longrightarrow> keeps opens (checked operation call)"
  by (auto simp: keeps_def checked_def split: prod.splits) (metis snd_conv)

lemma keeps_map:
  assumes "\<And>k. m k = map_option g (f k)" "\<And>k y. f k = Some y \<Longrightarrow> opens (snd y) = opens k" "\<And>a k. snd (g (a, k)) = k"
  shows "keeps opens m"
proof (rule keepsI)
  fix k r k' assume "m k = Some (r, k')"
  then obtain y where y: "f k = Some y" "(r, k') = g y" using assms(1) by auto
  then have "k' = snd y" using assms(3) [of "fst y" "snd y"] by (metis prod.collapse snd_conv)
  then show "opens k' = opens k" using assms(2) [OF y(1)] by simp
qed

section \<open>The calls\<close>

text \<open>Only the creation and the closing of a socket change what is open.\<close>

definition opens_nothing :: "'k socket_api \<Rightarrow> 'k host \<Rightarrow> ('k \<Rightarrow> 'h) \<Rightarrow> bool" where
  "opens_nothing api host opens \<longleftrightarrow> (\<forall>k fd level option v bytes n flags to timeout.
     opens (snd (sys_getsockopt api k fd level option)) = opens k \<and>
     opens (snd (sys_setsockopt api k fd level option v)) = opens k \<and>
     opens (snd (sys_send api k fd bytes flags)) = opens k \<and>
     opens (snd (sys_sendto api k fd bytes flags to)) = opens k \<and>
     opens (snd (sys_recv api k fd n flags)) = opens k \<and>
     opens (snd (sys_recvmsg api k fd n flags)) = opens k \<and>
     opens (snd (host_clock host k)) = opens k \<and> opens (snd (host_poll host k fd timeout)) = opens k)"

lemma opens_nothingD:
  assumes "opens_nothing api host opens"
  shows "sys_getsockopt api k fd level option = (r1, k') \<Longrightarrow> opens k' = opens k"
    "sys_setsockopt api k fd level option v = (r2, k') \<Longrightarrow> opens k' = opens k"
    "sys_send api k fd bytes flags = (r3, k') \<Longrightarrow> opens k' = opens k"
    "sys_sendto api k fd bytes flags to = (r4, k') \<Longrightarrow> opens k' = opens k"
    "sys_recv api k fd n flags = (r5, k') \<Longrightarrow> opens k' = opens k"
    "sys_recvmsg api k fd n flags = (r6, k') \<Longrightarrow> opens k' = opens k"
    "host_clock host k = (t, k') \<Longrightarrow> opens k' = opens k"
    "host_poll host k fd timeout = (r7, k') \<Longrightarrow> opens k' = opens k"
  using assms unfolding opens_nothing_def by (metis snd_conv)+

lemma keeps_options [keeping]:
  assumes "opens_nothing api host opens"
  shows "keeps opens (socket_integer_option api fd level option)" "keeps opens (set_socket_integer_option api fd level option v)"
  using opens_nothingD(1,2) [OF assms]
  by (auto simp: keeps_def socket_integer_option_def set_socket_integer_option_def split: prod.splits sum.splits)

lemma keeps_clock [keeping]: "opens_nothing api host opens \<Longrightarrow> keeps opens (read_clock host)"
  using opens_nothingD(7) by (fastforce simp: keeps_def read_clock_def split: prod.splits)

lemma transmit_loop_opens:
  "transmit_loop api fd bytes offset k = Some y \<Longrightarrow> opens_nothing api host opens \<Longrightarrow> opens (snd y) = opens k"
proof (induction rule: transmit_loop.raw_induct [rotated, consumes 1, case_names unfold])
  case (unfold loop api fd bytes offset k y)
  obtain out k1 where call: "sys_send api k fd (drop offset bytes) MSG_NOSIGNAL = (out, k1)" by fastforce
  show ?case using unfold(2) call opens_nothingD(3) [OF unfold(3) call]
    by (cases out) (use unfold(1) [OF _ unfold(3)] in \<open>auto split: if_splits\<close>)
qed

lemma receive_all_loop_opens:
  "receive_all_loop api host fd strategy deadline spins offset buffer k = Some y \<Longrightarrow> opens_nothing api host opens \<Longrightarrow>
    opens (snd y) = opens k"
proof (induction rule: receive_all_loop.raw_induct [rotated, consumes 1, case_names unfold])
  case (unfold loop api host fd strategy deadline spins offset buffer k y)
  obtain out k1 t k2 where call: "sys_recv api k fd (length buffer - offset) (if strategy = Spin then MSG_DONTWAIT else 0) = (out, k1)"
    and clock: "host_clock host k1 = (t, k2)" by fastforce
  show ?case using unfold(2) call clock opens_nothingD(5) [OF unfold(3) call] opens_nothingD(7) [OF unfold(3) clock]
    by (cases out) (use unfold(1) [OF _ unfold(3)] in \<open>auto simp: Let_def split: if_splits\<close>)
qed

lemma retry_interrupted_send_opens:
  "retry_interrupted_send call k = Some y \<Longrightarrow> (\<And>k. opens (snd (call k)) = opens k) \<Longrightarrow> opens (snd y) = opens k"
proof (induction rule: retry_interrupted_send.raw_induct [rotated, consumes 1, case_names unfold])
  case (unfold loop call k y)
  obtain out k1 where call: "call k = (out, k1)" by fastforce
  then have k1: "opens k1 = opens k" using unfold(3) [of k] by simp
  have "loop call k1 = Some y \<or> snd y = k1"
    using unfold(2) by (simp only: call prod.case) (auto split: sum.splits if_splits)
  then show ?case using unfold(1) [OF _ unfold(3)] k1 by metis
qed

lemma receive_message_opens:
  "receive_message api fd buffer flags k = Some y \<Longrightarrow> opens_nothing api host opens \<Longrightarrow> opens (snd y) = opens k"
proof (induction rule: receive_message.raw_induct [rotated, consumes 1, case_names unfold])
  case (unfold loop api fd buffer flags k y)
  obtain out k1 where call: "sys_recvmsg api k fd (length buffer) flags = (out, k1)" by fastforce
  show ?case using unfold(2) call opens_nothingD(6) [OF unfold(3) call]
    by (cases out) (use unfold(1) [OF _ unfold(3)] in \<open>auto split: if_splits\<close>)
qed

lemma wait_readable_until_opens:
  "wait_readable_until host fd deadline k = Some y \<Longrightarrow> opens_nothing api host opens \<Longrightarrow> opens (snd y) = opens k"
proof (induction rule: wait_readable_until.raw_induct [rotated, consumes 1, case_names unfold])
  case (unfold loop host fd deadline k y)
  obtain t k1 out k2 where clock: "host_clock host k = (t, k1)"
    and call: "host_poll host k1 fd (poll_timeout_ms (deadline - t)) = (out, k2)" by fastforce
  show ?case using unfold(2) call clock opens_nothingD(8) [OF unfold(3) call] opens_nothingD(7) [OF unfold(3) clock]
    by (cases out) (use unfold(1) [OF _ unfold(3)] in \<open>auto split: if_splits poll_result.splits\<close>)
qed

lemma spin_receive_opens:
  "spin_receive ended attempt k = Some y \<Longrightarrow> keeps opens attempt \<Longrightarrow> (\<And>k. opens (snd (ended k)) = opens k) \<Longrightarrow>
    opens (snd y) = opens k"
proof (induction rule: spin_receive.raw_induct [rotated, consumes 1, case_names unfold])
  case (unfold loop ended attempt k y)
  obtain stop k1 where ended: "ended k = (stop, k1)" by fastforce
  then have k1: "opens k1 = opens k" using unfold(4) [of k] by simp
  show ?case
  proof (cases "attempt k1")
    case (Some z)
    obtain r k2 where z: "z = (r, k2)" by fastforce
    have k2: "opens k2 = opens k1" using keepsD [OF unfold(3)] Some z by blast
    show ?thesis using unfold(2) ended k1 k2 Some z
      by (cases r) (use unfold(1) [OF _ unfold(3,4)] in \<open>auto split: if_splits option.splits\<close>)
  qed (use unfold(2) ended k1 in \<open>auto split: if_splits\<close>)
qed

lemma await_response_opens:
  "await_response api host fd profile deadline judge c k = Some y \<Longrightarrow>
    (\<And>buffer. keeps opens (receive_udp_until api host fd buffer deadline (receive_wait profile))) \<Longrightarrow>
    opens_nothing api host opens \<Longrightarrow> opens (snd y) = opens k"
proof (induction rule: await_response.raw_induct [rotated, consumes 1, case_names unfold])
  case (unfold loop api host fd profile deadline judge c k y)
  show ?case
  proof (cases "receive_udp_until api host fd (uc_inbound c) deadline (receive_wait profile) k")
    case (Some z)
    obtain r k1 t k2 where z: "z = (r, k1)" and clock: "host_clock host k1 = (t, k2)" by fastforce
    have "opens k1 = opens k" using keepsD [OF unfold(3)] Some z by blast
    then show ?thesis using unfold(2) Some z clock opens_nothingD(7) [OF unfold(4) clock]
      by (cases y; cases r) (use unfold(1) [OF _ unfold(3,4)] in \<open>auto split: if_splits option.splits sum.splits\<close>)
  qed (use unfold(2) in auto)
qed

section \<open>The operations of a run\<close>

lemma keeps_streams [keeping]:
  assumes "opens_nothing api host opens"
  shows "keeps opens (transmit_all api fd bytes)" "keeps opens (receive_all api host fd buffer strategy deadline)"
  using transmit_loop_opens [OF _ assms] receive_all_loop_opens [OF _ assms]
  by (auto simp: keeps_def transmit_all_def receive_all_def)

lemma keeps_sends [keeping]:
  assumes "opens_nothing api host opens"
  shows "keeps opens (send_profile_datagram api fd bytes to profile)"
proof -
  have "opens (snd (sys_send api k fd bytes MSG_NOSIGNAL)) = opens k" for k
    using assms by (simp add: opens_nothing_def)
  then have "opens (snd y) = opens k" if "retry_interrupted_send (\<lambda>k. sys_send api k fd bytes MSG_NOSIGNAL) k = Some y" for k y
    by (rule retry_interrupted_send_opens [OF that])
  then have connected: "keeps opens (transmit_connected api fd bytes)"
    by (rule keeps_map [OF transmit_connected_retries]) simp_all
  have "opens (snd (sys_sendto api k fd bytes MSG_NOSIGNAL to)) = opens k" for k
    using assms by (simp add: opens_nothing_def)
  then have "opens (snd y) = opens k" if "retry_interrupted_send (\<lambda>k. sys_sendto api k fd bytes MSG_NOSIGNAL to) k = Some y" for k y
    by (rule retry_interrupted_send_opens [OF that])
  then have "keeps opens (transmit_to api fd bytes to)"
    by (rule keeps_map [OF transmit_to_retries]) simp_all
  then show ?thesis using connected by (simp add: send_profile_datagram_def)
qed

lemma keeps_receives [keeping]:
  assumes "opens_nothing api host opens"
  shows "keeps opens (receive_datagram api fd buffer)" "keeps opens (attempt_receive_datagram api fd buffer)"
  by (rule keeps_map [OF receive_datagram_def], erule receive_message_opens [OF _ assms], simp)
    (rule keeps_map [OF attempt_receive_datagram_def], erule receive_message_opens [OF _ assms], simp)

lemma keeps_receive_until [keeping]:
  assumes "opens_nothing api host opens"
  shows "keeps opens (receive_udp_until api host fd buffer deadline strategy)"
proof -
  have "opens (snd (deadline_over host deadline k)) = opens k" for k
    using opens_nothingD(7) [OF assms] by (auto simp: deadline_over_def split: prod.splits)
  then have "keeps opens (spin_receive (deadline_over host deadline) (attempt_receive_datagram api fd buffer))"
    using spin_receive_opens [OF _ keeps_receives(2) [OF assms]] by (fastforce intro: keepsI)
  moreover have "keeps opens (\<lambda>k. after_wait (wait_readable_until host fd deadline k) (receive_datagram api fd buffer))"
    using keepsD [OF keeps_receives(1) [OF assms]]
    by (auto intro!: keepsI simp: after_wait_def split: option.splits sum.splits if_splits
        dest!: wait_readable_until_opens [OF _ assms])
  ultimately show ?thesis unfolding keeps_def receive_udp_until_def by (cases strategy) simp_all
qed

lemma keeps_await [keeping]:
  assumes "opens_nothing api host opens"
  shows "keeps opens (await_response api host fd profile deadline judge c)"
  using await_response_opens [OF _ keeps_receive_until [OF assms] assms] by (fastforce intro: keepsI)

section \<open>Scopes\<close>

text \<open>Calls on a socket that exists.\<close>

definition set_up_keeps :: "'k network \<Rightarrow> ('k \<Rightarrow> 'h) \<Rightarrow> bool" where
  "set_up_keeps net opens \<longleftrightarrow> (\<forall>k fd address backlog.
     opens (snd (nw_bind net k fd address)) = opens k \<and> opens (snd (nw_getsockname net k fd)) = opens k \<and>
     opens (snd (nw_listen net k fd backlog)) = opens k \<and> opens (snd (nw_connect net k fd address)) = opens k \<and>
     opens (nw_shutdown net k fd) = opens k)"

text \<open>
  What a network does to the descriptors a thread holds: a new socket is a new descriptor, and
  closing one that is open removes it.
\<close>

definition owns_descriptors :: "'k network \<Rightarrow> ('k \<Rightarrow> int set) \<Rightarrow> bool" where
  "owns_descriptors net opens \<longleftrightarrow> set_up_keeps net opens \<and> (\<forall>k family type socket_protocol fd.
     (case nw_socket net k family type socket_protocol of
        (Inr new, k') \<Rightarrow> 0 \<le> new \<and> new \<notin> opens k \<and> opens k' = insert new (opens k)
      | (Inl _, k') \<Rightarrow> opens k' = opens k) \<and>
     (case nw_accept net k fd of
        (Inr new, k') \<Rightarrow> 0 \<le> new \<and> new \<notin> opens k \<and> opens k' = insert new (opens k)
      | (Inl _, k') \<Rightarrow> opens k' = opens k) \<and>
     (fd \<in> opens k \<longrightarrow> opens (nw_close net k fd) = opens k - {fd}))"

lemma owns_descriptorsD:
  assumes "owns_descriptors net opens"
  shows "nw_socket net k family type socket_protocol = (Inr new, k') \<Longrightarrow> 0 \<le> new \<and> new \<notin> opens k \<and> opens k' = insert new (opens k)"
    "nw_socket net k family type socket_protocol = (Inl e, k') \<Longrightarrow> opens k' = opens k"
    "nw_accept net k fd = (Inr new, k') \<Longrightarrow> 0 \<le> new \<and> new \<notin> opens k \<and> opens k' = insert new (opens k)"
    "nw_accept net k fd = (Inl e, k') \<Longrightarrow> opens k' = opens k"
    "fd \<in> opens k \<Longrightarrow> opens (nw_close net k fd) = opens k - {fd}"
    "set_up_keeps net opens"
proof -
  note law = assms [unfolded owns_descriptors_def, THEN conjunct2, rule_format]
  show "nw_socket net k family type socket_protocol = (Inr new, k') \<Longrightarrow> 0 \<le> new \<and> new \<notin> opens k \<and> opens k' = insert new (opens k)"
    "nw_socket net k family type socket_protocol = (Inl e, k') \<Longrightarrow> opens k' = opens k"
    using law [THEN conjunct1, of k family type socket_protocol] by simp_all
  show "nw_accept net k fd = (Inr new, k') \<Longrightarrow> 0 \<le> new \<and> new \<notin> opens k \<and> opens k' = insert new (opens k)"
    "nw_accept net k fd = (Inl e, k') \<Longrightarrow> opens k' = opens k"
    using law [THEN conjunct2, THEN conjunct1, of k fd] by simp_all
qed (use assms in \<open>simp_all add: owns_descriptors_def\<close>)

lemma keeps_scope:
  assumes "owns_descriptors net opens" "\<And>k fd k'. call k = (Inr fd, k') \<Longrightarrow> 0 \<le> fd \<and> fd \<notin> opens k \<and> opens k' = insert fd (opens k)"
    and "\<And>k e k'. call k = (Inl e, k') \<Longrightarrow> opens k' = opens k" and "\<And>fd. keeps opens (body fd)"
  shows "keeps opens (io_bind (checked operation call) (\<lambda>fd. with_fd net fd (body fd)))"
proof (rule keepsI)
  fix k r k' assume run: "io_bind (checked operation call) (\<lambda>fd. with_fd net fd (body fd)) k = Some (r, k')"
  obtain out k1 where call: "call k = (out, k1)" by fastforce
  show "opens k' = opens k"
  proof (cases out)
    case (Inl e)
    then show ?thesis using run call assms(3) [of k e k1] by (simp add: io_bind_def checked_def)
  next
    case (Inr fd)
    then have fd: "0 \<le> fd" "fd \<notin> opens k" "opens k1 = insert fd (opens k)" using call assms(2) by blast+
    obtain r2 k2 where body: "body fd k1 = Some (r2, k2)" "k' = nw_close net k2 fd"
      using run call Inr fd(1) by (auto simp: io_bind_def checked_def with_fd_def)
    have "opens k2 = insert fd (opens k)" using keepsD [OF assms(4) body(1)] fd(3) by simp
    then show ?thesis using owns_descriptorsD(5) [OF assms(1), of fd k2] body(2) fd(2) by simp
  qed
qed

lemma keeps_with_socket [keeping]:
  assumes "owns_descriptors net opens" "\<And>fd. keeps opens (body fd)"
  shows "keeps opens (with_socket net type socket_protocol body)"
  unfolding with_socket_def make_socket_def
  using owns_descriptorsD(1,2) [OF assms(1)] by (intro keeps_scope assms) blast+

lemma keeps_set_up [keeping]:
  assumes "set_up_keeps net opens"
  shows "keeps opens (bind_ephemeral_loopback net fd)" "keeps opens (bound_port net fd)"
    "keeps opens (checked operation (\<lambda>k. nw_listen net k fd backlog))"
    "keeps opens (checked operation (\<lambda>k. nw_connect net k fd address))"
    "keeps opens (connect_pair net client server server_address)"
  unfolding bind_ephemeral_loopback_def bound_port_def connect_pair_def
  using assms by (auto intro!: keeping simp: set_up_keeps_def)

lemma keeps_rounds [keeping]:
  assumes "opens_nothing api host opens"
  shows "keeps opens (tcp_exchange api host fd profile outbound inbound started)" "keeps opens (rearm_tcp_quickack api fd profile)"
    "keeps opens (configure_busy_poll api fd profile)" "keeps opens (echo_turn api host fd profile i s)"
    "keeps opens (warmup_round api host fd server_address c i buffers)"
  unfolding tcp_exchange_def rearm_tcp_quickack_def configure_busy_poll_def echo_turn_def warmup_round_def Let_def
  by (rule assms keeping)+

lemma keeps_exchanges [keeping]:
  assumes "opens_nothing api host opens" "\<And>m b t. keeps opens (exchange m b t)" "keeps opens post"
  shows "keeps opens (warmup_exchange p host exchange post i buffers)"
    "keeps opens (measured_exchange p payload warmup host exchange post i r)"
  unfolding warmup_exchange_def measured_exchange_def Let_def
  by (rule assms keeping)+

lemma keeps_measured_round [keeping]:
  assumes "opens_nothing api host opens" "\<And>k. opens (snd (failed k)) = opens k"
  shows "keeps opens (measured_round api host fd server_address failed c payload i s)"
proof -
  have "keeps opens (\<lambda>k. if \<not> over then case failed k of (failed, k') \<Rightarrow>
      if failed then Some (Inl (Runtime_error ''UDP server failed during measurement''), k') else Some (Inr s, k')
    else Some (Inr s, k))" for over and s :: "u8 list \<times> udp_client"
    using assms(2) by (auto intro!: keepsI split: if_splits prod.splits) (metis snd_conv)+
  then show ?thesis
    unfolding measured_round_def Let_def
    by (intro keeps_bind keeps_lift keeps_prod keeps_clock [OF assms(1)] keeps_sends [OF assms(1)] keeps_await [OF assms(1)])
qed

lemma keeps_run_client [keeping]:
  assumes "opens_nothing api host opens" "\<And>m b t. keeps opens (exchange m b t)" "keeps opens post" "keeps opens join_server"
  shows "keeps opens (run_client p payload run c host exchange post join_server connect_ns settings)"
  unfolding run_client_def Let_def
  by (rule assms keeping)+

lemma keeps_run_udp_client [keeping]:
  assumes "opens_nothing api host opens" "\<And>k. opens (snd (failed k)) = opens k" "keeps opens join_server"
  shows "keeps opens (run_udp_client api host fd server_address failed join_server payload run c settings settings')"
  unfolding run_udp_client_def Let_def
  by (rule assms keeping)+

section \<open>Sockets are closed\<close>

text \<open>A server's thread opens and closes no descriptor of its creator.\<close>

definition thread_opens_nothing :: "'k server_thread \<Rightarrow> ('k \<Rightarrow> int set) \<Rightarrow> bool" where
  "thread_opens_nothing thread opens \<longleftrightarrow> keeps opens (th_start thread) \<and> keeps opens (th_join thread) \<and>
     (\<forall>k. opens (snd (th_failed thread k)) = opens k \<and> opens (th_cancel thread k) = opens k \<and> opens (th_reap thread k) = opens k)"

lemma run_tcp_closes:
  assumes "opens_nothing api host opens" "owns_descriptors net opens" "\<And>fd. thread_opens_nothing (threads fd) opens"
  shows "keeps opens (run_tcp net api host threads payload run c)"
proof -
  note set_up = owns_descriptorsD(6) [OF assms(2)]
  have thread: "keeps opens (th_start (threads fd))" "keeps opens (th_join (threads fd))" for fd
    using assms(3) by (simp_all add: thread_opens_nothing_def)
  have handler: "opens (if th_joinable (threads fd) k then th_reap (threads fd) (nw_shutdown net k client) else k) = opens k" for fd client k
    using assms(3) set_up by (simp add: thread_opens_nothing_def set_up_keeps_def)
  show ?thesis
    unfolding run_tcp_def Let_def by (rule assms(1,2) set_up thread handler keeping)+
qed

lemma run_udp_closes:
  assumes "opens_nothing api host opens" "owns_descriptors net opens" "\<And>fd. thread_opens_nothing (threads fd) opens"
  shows "keeps opens (run_udp net api host threads payload run c)"
proof -
  note set_up = owns_descriptorsD(6) [OF assms(2)]
  have thread: "keeps opens (th_start (threads fd))" "keeps opens (\<lambda>k. th_join (threads fd) (th_cancel (threads fd) k))" for fd
    using assms(3) by (simp_all add: thread_opens_nothing_def keeps_def)
  have handler: "opens (if th_joinable (threads fd) (th_cancel (threads fd) k) then th_reap (threads fd) (th_cancel (threads fd) k)
      else th_cancel (threads fd) k) = opens k" "opens (snd (th_failed (threads fd) k)) = opens k" for fd k
    using assms(3) by (simp_all add: thread_opens_nothing_def)
  show ?thesis
    unfolding run_udp_def Let_def by (rule assms(1,2) set_up thread handler keeping)+
qed

lemma tcp_server_thread_closes:
  assumes "opens_nothing api host opens" "owns_descriptors net opens"
  shows "keeps opens (tcp_server_thread net api host listener payload c)"
  unfolding tcp_server_thread_def
  using owns_descriptorsD(3,4) [OF assms(2)]
  by (intro keeps_scope [OF assms(2)]) (blast, blast, unfold tcp_server_def configure_connection_def, (rule assms keeping)+)

text \<open>C24: No run leaks or wrongly closes a socket: on every network where a new socket is a new descriptor,
  whatever the kernel answers to any call, a run over TCP or UDP and the server's thread of a TCP
  run end, with a row or with an exception of any kind, with exactly the descriptors open that
  were open before.\<close>

theorem sockets_closed:
  assumes "opens_nothing api host opens" "owns_descriptors net opens"
    and "\<And>p n run fd. thread_opens_nothing (threads p n run fd) opens"
  shows "(\<forall>k outcome k'. run_workload net api host threads c run w k = Some (outcome, k') \<longrightarrow> opens k' = opens k) \<and>
    (\<forall>k outcome k'. tcp_server_thread net api host listener n c k = Some (outcome, k') \<longrightarrow> opens k' = opens k)"
proof (intro conjI allI impI)
  fix k k' :: 'a and outcome assume "run_workload net api host threads c run w k = Some (outcome, k')"
  then show "opens k' = opens k"
    using keepsD [OF run_tcp_closes [OF assms]] keepsD [OF run_udp_closes [OF assms]]
    by (cases w; cases "fst w") (auto simp: run_workload_def)
next
  fix k k' :: 'a and outcome assume "tcp_server_thread net api host listener n c k = Some (outcome, k')"
  then show "opens k' = opens k" by (rule keepsD [OF tcp_server_thread_closes [OF assms(1,2)]])
qed

text \<open>A kernel that hands out the next descriptor and refuses connections.\<close>

definition ECONNREFUSED :: int where "ECONNREFUSED = 111"

definition next_fd :: "int list \<Rightarrow> int" where
  "next_fd fds = foldr max fds 2 + 1"

definition refusing :: "int list network" where
  "refusing = \<lparr>nw_socket = (\<lambda>k family type socket_protocol. (Inr (next_fd k), next_fd k # k)),
     nw_bind = (\<lambda>k fd address. (Inr (), k)),
     nw_getsockname = (\<lambda>k fd. (Inr (loopback_address 4000, sizeof_sockaddr_in), k)),
     nw_listen = (\<lambda>k fd backlog. (Inr (), k)), nw_connect = (\<lambda>k fd address. (Inl ECONNREFUSED, k)),
     nw_accept = (\<lambda>k fd. (Inr (next_fd k), next_fd k # k)), nw_shutdown = (\<lambda>k fd. k),
     nw_close = (\<lambda>k fd. filter (\<lambda>x. x \<noteq> fd) k)\<rparr>"

definition silent_api :: "'k socket_api" where
  "silent_api = \<lparr>
     sys_getsockopt = (\<lambda>k fd level option. (Inr (0, 4), k)), sys_setsockopt = (\<lambda>k fd level option v. (Inr (), k)),
     sys_send = (\<lambda>k fd bytes flags. (Inl EPIPE, k)), sys_sendto = (\<lambda>k fd bytes flags to. (Inl EPIPE, k)),
     sys_recv = (\<lambda>k fd n flags. (Inl EINVAL, k)), sys_recvmsg = (\<lambda>k fd n flags. (Inl EINVAL, k))\<rparr>"

definition silent_host :: "'k host" where
  "silent_host = \<lparr>host_clock = (\<lambda>k. (0, k)), host_poll = (\<lambda>k fd timeout. (Inr Timed_out, k)), host_cancelled = (\<lambda>k. (False, k))\<rparr>"

definition idle_thread :: "'k server_thread" where
  "idle_thread = \<lparr>th_start = io_throw (Runtime_error ''no thread''), th_failed = (\<lambda>k. (False, k)), th_cancel = (\<lambda>k. k),
     th_join = io_return new_report, th_joinable = (\<lambda>k. False), th_reap = (\<lambda>k. k)\<rparr>"

lemma next_fd_new: "x \<in> set fds \<Longrightarrow> x < next_fd fds" and next_fd_positive: "0 \<le> next_fd fds"
proof -
  show "x \<in> set fds \<Longrightarrow> x < next_fd fds" by (induction fds) (auto simp: next_fd_def)
  show "0 \<le> next_fd fds" by (induction fds) (auto simp: next_fd_def)
qed

lemma silent_opens_nothing: "opens_nothing silent_api silent_host opens"
  by (simp add: opens_nothing_def silent_api_def silent_host_def)

theorem sockets_closed_witness:
  "\<exists>k'. run_workload refusing silent_api silent_host (\<lambda>p n run fd. idle_thread) default_socket_options 0 (Tcp, 64) [7] =
    Some (Inl (System_error ''connect'' ECONNREFUSED), k') \<and> set k' = {7}"
proof -
  have owns: "owns_descriptors refusing set"
    using next_fd_new next_fd_positive by (fastforce simp: owns_descriptors_def set_up_keeps_def refusing_def)
  have idle: "thread_opens_nothing idle_thread (set :: int list \<Rightarrow> int set)"
    by (simp add: thread_opens_nothing_def idle_thread_def keeps_return keeps_throw)
  have "\<exists>k'. run_workload refusing silent_api silent_host (\<lambda>p n run fd. idle_thread) default_socket_options 0 (Tcp, 64) [7] =
      Some (Inl (System_error ''connect'' ECONNREFUSED), k')"
    by (simp add: run_workload_def run_tcp_def Let_def with_socket_def make_socket_def checked_def with_fd_def io_bind_def io_return_def
        bind_ephemeral_loopback_def bound_port_def refusing_def next_fd_def loopback_address_def read_clock_def silent_host_def
        default_socket_options_def profiles_def profile_of_def)
  then obtain k' where "run_workload refusing silent_api silent_host (\<lambda>p n run fd. idle_thread) default_socket_options 0 (Tcp, 64) [7] =
      Some (Inl (System_error ''connect'' ECONNREFUSED), k')" by blast
  moreover from this have "set k' = set [7]"
    using sockets_closed [OF silent_opens_nothing owns idle, THEN conjunct1, of default_socket_options 0 "(Tcp, 64)"] by blast
  ultimately show ?thesis by auto
qed

section \<open>Threads are joined\<close>

definition leaves_none :: "('k \<Rightarrow> bool) \<Rightarrow> ('a, 'k) io \<Rightarrow> bool" where
  "leaves_none joinable m \<longleftrightarrow> (\<forall>k r k'. m k = Some (r, k') \<longrightarrow> \<not> joinable k \<longrightarrow> \<not> joinable k')"

named_theorems leaving \<open>operations that leave no thread joinable\<close>

lemma leaves_keeps: "keeps joinable m \<Longrightarrow> leaves_none joinable m"
  by (auto simp: keeps_def leaves_none_def)

lemma leaves_bind [leaving]: "leaves_none joinable m \<Longrightarrow> (\<And>a. leaves_none joinable (f a)) \<Longrightarrow> leaves_none joinable (io_bind m f)"
  by (fastforce simp: leaves_none_def io_bind_def split: option.splits sum.splits)

lemma leaves_if [leaving]: "leaves_none joinable m \<Longrightarrow> leaves_none joinable m' \<Longrightarrow> leaves_none joinable (if c then m else m')"
  by simp

lemma leaves_socket [leaving]:
  assumes "\<And>k family type socket_protocol. joinable (snd (nw_socket net k family type socket_protocol)) = joinable k"
    "\<And>k fd. joinable (nw_close net k fd) = joinable k" "\<And>fd. leaves_none joinable (body fd)"
  shows "leaves_none joinable (with_socket net type socket_protocol body)"
proof -
  have made: "keeps joinable (make_socket net type socket_protocol)"
    unfolding make_socket_def by (rule keeps_checked) (rule assms(1))
  have "leaves_none joinable (with_fd net fd (body fd))" for fd
    using assms(2,3) by (auto simp: leaves_none_def with_fd_def)
  then show ?thesis unfolding with_socket_def by (rule leaves_bind [OF leaves_keeps [OF made]])
qed

lemma leaves_cleanup [leaving]:
  assumes "\<And>k r k'. m k = Some (Inr r, k') \<Longrightarrow> \<not> joinable k'" "\<And>k. \<not> joinable (handler k)"
  shows "leaves_none joinable (io_cleanup m handler)"
proof -
  have "\<not> joinable k'" if run: "io_cleanup m handler k = Some (r, k')" for k r k'
  proof (cases "m k")
    case (Some y)
    then show ?thesis using run assms by (cases y; cases "fst y") (auto simp: io_cleanup_def)
  qed (use run in \<open>simp add: io_cleanup_def\<close>)
  then show ?thesis by (auto simp: leaves_none_def)
qed

text \<open>A client that returns a row has joined the server last.\<close>

lemma run_client_joins:
  "run_client p n run c host exchange post join_server connect_ns settings k = Some (Inr row, k') \<Longrightarrow>
     \<exists>k1 server. join_server k1 = Some (Inr server, k')"
  by (auto simp: run_client_def Let_def io_result split: if_splits)

lemma run_udp_client_joins:
  "run_udp_client api host fd server_address failed join_server n run c settings settings' k = Some (Inr row, k') \<Longrightarrow>
     \<exists>k1 server. join_server k1 = Some (Inr server, k')"
  by (auto simp: run_udp_client_def io_result split: prod.splits)

text \<open>Joining makes a thread not joinable.\<close>

definition joins :: "'k server_thread \<Rightarrow> ('k \<Rightarrow> bool) \<Rightarrow> bool" where
  "joins thread joinable \<longleftrightarrow> th_joinable thread = joinable \<and>
     (\<forall>k. \<not> joinable (th_reap thread k) \<and> (\<forall>r k'. th_join thread k = Some (r, k') \<longrightarrow> \<not> joinable k'))"

definition threads_only :: "'k network \<Rightarrow> ('k \<Rightarrow> bool) \<Rightarrow> bool" where
  "threads_only net joinable \<longleftrightarrow> set_up_keeps net joinable \<and> (\<forall>k fd family type socket_protocol.
     joinable (snd (nw_socket net k family type socket_protocol)) = joinable k \<and> joinable (nw_close net k fd) = joinable k)"

lemma run_tcp_joins:
  assumes "opens_nothing api host joinable" "threads_only net joinable" "\<And>fd. joins (threads fd) joinable"
  shows "leaves_none joinable (run_tcp net api host threads n run c)"
proof -
  have net: "set_up_keeps net joinable" "\<And>k family type socket_protocol. joinable (snd (nw_socket net k family type socket_protocol)) = joinable k"
    "\<And>k fd. joinable (nw_close net k fd) = joinable k" using assms(2) by (simp_all add: threads_only_def)
  have joined: "\<not> joinable k'" if "io_bind (th_start (threads fd)) (\<lambda>_. run_client Tcp n run c host exchange post (th_join (threads fd))
      connect_ns settings) k = Some (Inr row, k')" for fd exchange post connect_ns settings k row k'
    using that assms(3) run_client_joins by (fastforce simp: io_result joins_def)
  have handler: "\<not> joinable (if th_joinable (threads fd) k then th_reap (threads fd) (nw_shutdown net k client) else k)" for fd client k
    using assms(3) by (simp add: joins_def)
  show ?thesis
    unfolding run_tcp_def Let_def
    by (rule net leaving joined handler, assumption? | rule leaves_keeps, (rule assms(1) net(1) keeping)+)+
qed

lemma run_udp_joins:
  assumes "opens_nothing api host joinable" "threads_only net joinable" "\<And>fd. joins (threads fd) joinable"
  shows "leaves_none joinable (run_udp net api host threads n run c)"
proof -
  have net: "set_up_keeps net joinable" "\<And>k family type socket_protocol. joinable (snd (nw_socket net k family type socket_protocol)) = joinable k"
    "\<And>k fd. joinable (nw_close net k fd) = joinable k" using assms(2) by (simp_all add: threads_only_def)
  have joined: "\<not> joinable k'" if "io_bind (th_start (threads fd)) (\<lambda>_. run_udp_client api host client server_address failed
      (\<lambda>k. th_join (threads fd) (th_cancel (threads fd) k)) n run c settings settings') k = Some (Inr row, k')"
    for fd client server_address failed settings settings' k row k'
    using that assms(3) run_udp_client_joins by (fastforce simp: io_result joins_def)
  have handler: "\<not> joinable (if th_joinable (threads fd) (th_cancel (threads fd) k) then th_reap (threads fd) (th_cancel (threads fd) k)
      else th_cancel (threads fd) k)" for fd k
    using assms(3) by (simp add: joins_def)
  show ?thesis
    unfolding run_udp_def Let_def
    by (rule net leaving joined handler, assumption? | rule leaves_keeps, (rule assms(1) net(1) keeping)+)+
qed

text \<open>C25: The server's thread is joined on every path: when no thread is joinable before a run, none is after
  it, whether the run returns a row, its server fails to start, a deadline, a validation or a system
  call throws, before, during or after the measurement. A run that left one joinable would end the
  program in the destructor of its thread.\<close>

theorem threads_joined:
  assumes "opens_nothing api host joinable" "threads_only net joinable" "\<And>p n run fd. joins (threads p n run fd) joinable"
    and "run_workload net api host threads c run w k = Some (outcome, k')" "\<not> joinable k"
  shows "\<not> joinable k'"
  using assms(4,5) run_tcp_joins [OF assms(1-3)] run_udp_joins [OF assms(1-3)] unfolding leaves_none_def
  by (cases w; cases "fst w") (auto simp: run_workload_def)

text \<open>A thread that starts and then fails to report: the state is whether it runs.\<close>

definition lost_thread :: "bool server_thread" where
  "lost_thread = \<lparr>th_start = (\<lambda>k. Some (Inr (), True)), th_failed = (\<lambda>k. (True, k)), th_cancel = (\<lambda>k. k),
     th_join = (\<lambda>k. Some (Inl (System_error ''recv'' EINVAL), False)), th_joinable = (\<lambda>k. k), th_reap = (\<lambda>k. False)\<rparr>"

definition accepting :: "'k network" where
  "accepting = \<lparr>nw_socket = (\<lambda>k family type socket_protocol. (Inr 5, k)), nw_bind = (\<lambda>k fd address. (Inr (), k)),
     nw_getsockname = (\<lambda>k fd. (Inr (loopback_address 4000, sizeof_sockaddr_in), k)),
     nw_listen = (\<lambda>k fd backlog. (Inr (), k)), nw_connect = (\<lambda>k fd address. (Inr (), k)), nw_accept = (\<lambda>k fd. (Inr 6, k)),
     nw_shutdown = (\<lambda>k fd. k), nw_close = (\<lambda>k fd. k)\<rparr>"

theorem threads_joined_witness:
  "run_workload accepting silent_api silent_host (\<lambda>p n run fd. lost_thread) default_socket_options 0 (Tcp, 4) False =
     Some (Inl (Invalid_argument_error ''wire message is smaller than its header''), False)"
proof -
  let ?run = "run_workload accepting silent_api silent_host (\<lambda>p n run fd. lost_thread) default_socket_options 0 (Tcp, 4) False"
  have "th_joinable lost_thread = (\<lambda>k. k)" by (simp add: lost_thread_def)
  then have laws: "joins lost_thread (\<lambda>k. k)" "threads_only accepting (\<lambda>k. k :: bool)"
    by (simp_all add: joins_def lost_thread_def threads_only_def set_up_keeps_def accepting_def)
  have header: "write_header (replicate 4 0) Tcp 0 = Inl (Invalid_argument_error ''wire message is smaller than its header'')"
    by (simp add: write_header_def)
  have "\<exists>k'. ?run = Some (Inl (Invalid_argument_error ''wire message is smaller than its header''), k')"
    using header
    by (simp add: run_workload_def run_tcp_def Let_def with_socket_def make_socket_def checked_def with_fd_def io_bind_def io_return_def
        bind_ephemeral_loopback_def bound_port_def accepting_def loopback_address_def read_clock_def silent_host_def
        default_socket_options_def profiles_def profile_of_def configure_busy_poll_def rearm_tcp_quickack_def
        socket_integer_option_def silent_api_def sizeof_int_def io_cleanup_def lost_thread_def run_client_def
        initialize_message_def io_lift_def) blast
  then obtain k' where run: "?run = Some (Inl (Invalid_argument_error ''wire message is smaller than its header''), k')" by blast
  have "\<not> k'" by (rule threads_joined [OF silent_opens_nothing laws(2,1) run]) simp
  then show ?thesis using run by simp
qed

end
