(* ===== verification/Lls_Info.thy ===== *)
theory Lls_Info
  imports Text
begin

text \<open>
  The informational program: \<open>compiler_info.hpp\<close> and \<open>apps/lls-info/main.cpp\<close>. What the
  compiler and the build system define is a parameter: the value of \<open>__cplusplus\<close>, the
  version strings of Clang and of GCC where the macros are defined (Clang defines GCC's,
  too), and the project version. The console is the text written to its two streams.
\<close>

section \<open>compiler_info.hpp\<close>

record compilation =
  cplusplus :: int
  clang_version :: "string option"
  gnuc_version :: "string option"
  lls_project_version :: "string option"

definition cpp_standard_value :: "compilation \<Rightarrow> int" where
  "cpp_standard_value env = cplusplus env"

definition has_cpp23_or_later :: "compilation \<Rightarrow> bool" where
  "has_cpp23_or_later env \<longleftrightarrow> cpp_standard_value env > 202002"

definition cpp_standard_name :: "compilation \<Rightarrow> string" where
  "cpp_standard_name env =
     (if cplusplus env \<ge> 202302 then ''C++23''
      else if cplusplus env > 202002 then ''C++23 (compiler draft value)''
      else ''pre-C++23'')"

definition compiler_name :: "compilation \<Rightarrow> string" where
  "compiler_name env =
     (case clang_version env of Some v \<Rightarrow> ''Clang '' @ v
      | None \<Rightarrow> (case gnuc_version env of Some v \<Rightarrow> ''GCC '' @ v | None \<Rightarrow> ''unknown compiler''))"

section \<open>main.cpp\<close>

definition project_version :: "compilation \<Rightarrow> string" where
  "project_version env = (case lls_project_version env of Some v \<Rightarrow> v | None \<Rightarrow> ''development'')"

record console =
  std_out :: string
  std_err :: string

definition EXIT_SUCCESS :: int where "EXIT_SUCCESS = 0"
definition EXIT_FAILURE :: int where "EXIT_FAILURE = 1"

definition newline :: string where "newline = [CHR 10]"

definition usage :: string where
  "usage = ''Usage: lls_showcase [--help | --self-test]'' @ newline"

definition put_out :: "string \<Rightarrow> console \<Rightarrow> console" where
  "put_out s c = c\<lparr>std_out := std_out c @ s\<rparr>"

definition put_err :: "string \<Rightarrow> console \<Rightarrow> console" where
  "put_err s c = c\<lparr>std_err := std_err c @ s\<rparr>"

definition run_self_test :: "compilation \<Rightarrow> console \<Rightarrow> int \<times> console" where
  "run_self_test env c =
     (if \<not> has_cpp23_or_later env
      then (EXIT_FAILURE, put_err (''FAIL: the executable was not built in C++23 mode'' @ newline) c)
      else (EXIT_SUCCESS, put_out (''PASS: C++23 compiler mode detected'' @ newline) c))"

definition print_summary :: "compilation \<Rightarrow> console \<Rightarrow> console" where
  "print_summary env c = put_out
     (''Low Latency Showcase '' @ project_version env @ newline @
      ''Compiler: '' @ compiler_name env @ newline @
      ''Language mode: '' @ cpp_standard_name env @ '' ('' @ decimal_int (cpp_standard_value env) @ '')'' @ newline @
      newline @
      ''Every technique in this project must be measured, reproducible, '' @
      ''and documented with its trade-offs.'' @ newline) c"

text \<open>\<open>argv\<close> includes the program's name, when there is one.\<close>

definition lls_info_main :: "compilation \<Rightarrow> string list \<Rightarrow> console \<Rightarrow> int \<times> console" where
  "lls_info_main env argv c =
     (if length argv = 1 then (EXIT_SUCCESS, print_summary env c)
      else if length argv = 2 \<and> argv ! 1 = ''--help'' then (EXIT_SUCCESS, put_out usage c)
      else if length argv = 2 \<and> argv ! 1 = ''--self-test'' then run_self_test env c
      else (EXIT_FAILURE, put_err usage c))"

section \<open>Properties\<close>

text \<open>C34: The program succeeds exactly for no argument, \<open>--help\<close>, and a self test built as C++23; the
  self test agrees with the language mode the summary prints; whatever the arguments, exactly
  one stream is written, standard output on success and standard error on failure.\<close>

theorem lls_info_outcome:
  assumes "lls_info_main env argv \<lparr>std_out = [], std_err = []\<rparr> = (status, c)"
  shows "(status = EXIT_SUCCESS \<longleftrightarrow> (\<exists>program. argv = [program] \<or> argv = [program, ''--help''] \<or>
       argv = [program, ''--self-test''] \<and> cpp_standard_name env \<noteq> ''pre-C++23'')) \<and>
    (status \<noteq> EXIT_SUCCESS \<longrightarrow> status = EXIT_FAILURE) \<and>
    (std_out c \<noteq> [] \<longleftrightarrow> status = EXIT_SUCCESS) \<and> (std_err c \<noteq> [] \<longleftrightarrow> status = EXIT_FAILURE)"
proof -
  have mode: "has_cpp23_or_later env \<longleftrightarrow> cpp_standard_name env \<noteq> ''pre-C++23''"
    by (simp add: has_cpp23_or_later_def cpp_standard_name_def cpp_standard_value_def)
  consider program where "argv = [program]" | program arg where "argv = [program, arg]"
    | "length argv \<noteq> 1" "length argv \<noteq> 2"
    by (cases argv; cases "tl argv"; cases "tl (tl argv)") auto
  then show ?thesis
    using assms mode by cases
      (auto simp: lls_info_main_def run_self_test_def print_summary_def put_out_def put_err_def usage_def newline_def
        EXIT_SUCCESS_def EXIT_FAILURE_def split: if_splits)
qed

theorem lls_info_outcome_witness:
  "\<exists>status c. lls_info_main \<lparr>cplusplus = 202002, clang_version = None, gnuc_version = Some ''13'', lls_project_version = None\<rparr>
      [''lls_showcase'', ''--self-test''] \<lparr>std_out = [], std_err = []\<rparr> = (status, c) \<and> status = EXIT_FAILURE \<and> std_err c \<noteq> []"
proof -
  let ?env = "\<lparr>cplusplus = 202002, clang_version = None, gnuc_version = Some ''13'', lls_project_version = None\<rparr>"
  obtain status c where run: "lls_info_main ?env [''lls_showcase'', ''--self-test''] \<lparr>std_out = [], std_err = []\<rparr> = (status, c)"
    by fastforce
  from lls_info_outcome [OF run] have "status = EXIT_FAILURE \<and> std_err c \<noteq> []"
    by (auto simp: cpp_standard_name_def)
  with run show ?thesis by blast
qed

end
