(* ===== verification/Basic_Example.thy ===== *)
theory Basic_Example
  imports Stream_Client
begin

text \<open>
  \<open>examples/basic.cpp\<close>: a producer handle publishes market events in batches of at most 64 and
  two consumers, the risk handler and the journal, each drain them through a handle of their
  own. Making a consumer's handle reads nothing but that consumer's cursor, so that handles
  made while the producer already runs are the ones of \<open>new_endpoint\<close>. The start flag and the
  yields are not modelled.
\<close>

section \<open>The program\<close>

record market_event =
  order_id :: u64
  price_ticks :: "64 word"

definition example_events :: u64 where
  "example_events = 100000"

definition example_capacity :: size_t where
  "example_capacity = 1024"

text \<open>Prices are two's complement words; the offset is the one in the batch.\<close>

definition write_market_event :: "u64 \<Rightarrow> (market_event, unit) batch_writer" where
  "write_market_event n_published event offset w =
     (event\<lparr>order_id := n_published + offset, price_ticks := 10000 + offset\<rparr>, w)"

text \<open>A consumer's state is its count; the handlers ignore the event.\<close>

definition example_program :: "(market_event, u64) stream_program" where
  "example_program =
     \<lparr>event_total = example_events,
      batch = (\<lambda>remaining. if remaining < 64 then remaining else 64),
      event_writer_from = write_market_event,
      drain = 64,
      handler_from = (\<lambda>_ _ _ n_consumed. n_consumed),
      progress_of = (\<lambda>n_consumed. n_consumed),
      advance = (\<lambda>n n_consumed. n_consumed + n)\<rparr>"

definition basic_main :: "build \<Rightarrow> turn list \<Rightarrow> run_error + (market_event endpoint, u64) client" where
  "basic_main b turns =
     (case new_endpoint b example_capacity 2 \<lparr>order_id = 0, price_ticks = 0\<rparr> 0 of
        Inl f \<Rightarrow> Inl (Stopped f)
      | Inr s \<Rightarrow> run_program (handle_publish b) handle_consume example_program 0 turns s [0, 0])"

section \<open>Its stream\<close>

definition nth_market_event :: "nat \<Rightarrow> market_event" where
  "nth_market_event q = \<lparr>order_id = of_nat q, price_ticks = 10000 + of_nat (q mod 64)\<rparr>"

lemma written_market_events:
  assumes "64 dvd p" "length old \<le> 64"
  shows "fst (written (write_market_event (of_nat p)) old 0 ()) = map nth_market_event [p..<p + length old]"
proof -
  have "fst (written (write_market_event (of_nat p)) old 0 ()) =
      map (\<lambda>q. \<lparr>order_id = of_nat p + (0 + of_nat q), price_ticks = 10000 + (0 + of_nat q)\<rparr>) [0..<0 + length old]"
    by (rule written_by_position [where g = "\<lambda>i. \<lparr>order_id = of_nat p + i, price_ticks = 10000 + i\<rparr>"])
      (simp add: write_market_event_def)
  also have "\<dots> = map (\<lambda>i. nth_market_event (p + i)) [0..<length old]"
  proof (rule map_cong)
    fix i assume "i \<in> set [0..<length old]"
    then have "(p + i) mod 64 = i" using assms by (simp add: mod_add_eq [symmetric])
    then show "\<lparr>order_id = of_nat p + (0 + of_nat i), price_ticks = 10000 + (0 + of_nat i)\<rparr> = nth_market_event (p + i)"
      by (simp add: nth_market_event_def)
  qed simp
  also have "\<dots> = map nth_market_event [p..<p + length old]"
    using map_add_upt [of p "length old", symmetric] by (simp add: o_def add.commute)
  finally show ?thesis .
qed

interpretation basic: stream_client "handle_publish b" handle_consume handle_position
  "handle_models b 0 example_capacity 2" "unat example_capacity" 2 0 "\<lambda>_ :: unit. True" "\<lambda>_. example_program"
  "\<lambda>_. nth_market_event" "\<lambda>_ p. 64 dvd p \<or> p = unat example_events" "\<lambda>_ _. of_nat"
  for b
proof unfold_locales
  show "drain example_program \<noteq> 0" by (simp add: example_program_def)
  show "progress_of example_program (of_nat k) = of_nat k" for k by (simp add: example_program_def)
  fix p n k :: nat and first :: u64 and old :: "market_event list"
  have same: "deliver (\<lambda>_ _ n. n) s es h = h" for s :: u64 and es :: "market_event list" and h :: u64
    by (induction es arbitrary: s) simp_all
  then show "advance example_program (of_nat n) (deliver (handler_from example_program first) (first + of_nat k)
      (map nth_market_event [k..<k + n]) (of_nat k)) = of_nat (k + n)"
    by (simp add: example_program_def)
  assume al: "64 dvd p \<or> p = unat example_events" and p: "p < unat (event_total example_program)"
  let ?B = "batch example_program (event_total example_program - of_nat p)"
  have p': "p < unat example_events" "64 dvd p" using al p by (auto simp: example_program_def)
  have B: "?B = (if example_events - of_nat p < 64 then example_events - of_nat p else 64)"
    by (simp add: example_program_def)
  have min: "unat ?B = min (unat example_events - p) 64" unfolding B using tail_batch [OF p'(1), of 64] by simp
  have "64 \<le> example_capacity" by (simp add: example_capacity_def)
  with tail_batch_law [OF p'(1) _ this B]
  have law: "0 < unat ?B \<and> unat ?B \<le> unat example_capacity \<and> p + unat ?B \<le> unat example_events" by simp
  have "64 dvd p + unat ?B \<or> p + unat ?B = unat example_events"
    using min p' by (cases "unat example_events - p \<le> 64") auto
  then show "0 < unat ?B \<and> unat ?B \<le> unat example_capacity \<and> p + unat ?B \<le> unat (event_total example_program) \<and>
      (64 dvd p + unat ?B \<or> p + unat ?B = unat example_events)"
    using law by (simp add: example_program_def)
  assume "length old = unat ?B"
  then have "length old \<le> 64" using min by simp
  from written_market_events [OF p'(2) this]
  show "fst (written (event_writer_from example_program (of_nat p)) old 0 ()) =
      map nth_market_event [p..<p + length old]"
    by (simp add: example_program_def)
qed

section \<open>Properties\<close>

text \<open>C33: The example multicasts exactly its 100000 events: on every schedule of turns of the
  producer and the two consumers nothing asserts, and when the loops have ended both consumers
  have counted and taken every event of the stream, whose order ids count up from 0 and whose
  prices repeat every batch; and the loops end when the threads keep getting turns.\<close>

theorem basic_example_multicasts:
  assumes "\<forall>t \<in> set turns. turn_ok 2 t"
  shows "(basic_main b turns = Inl Still_running \<or>
     (\<exists>c. basic_main b turns = Inr c \<and> cl_handlers c = [example_events, example_events] \<and>
        handle_models b 0 example_capacity 2 (cl_stream c) 
          (map nth_market_event [0..<unat example_events]) [unat example_events, unat example_events])) \<and>
    (\<exists>m \<le> 3 * unat example_events. basic_main b (concat (replicate m (fair_round 2))) \<noteq> Inl Still_running)"
proof -
  have "template_ok example_capacity 2" by code_simp
  then obtain s where new: "new_endpoint b example_capacity 2 \<lparr>order_id = 0, price_ticks = 0\<rparr> 0 = Inr s"
    and m: "handle_models b 0 example_capacity 2 s [] (replicate 2 0)"
    using new_handle_models [of example_capacity 2 b "\<lparr>order_id = 0, price_ticks = 0\<rparr>" 0] by blast
  have "replicate 2 (0 :: u64) = [0, 0]" by (simp add: numeral_2_eq_2)
  then have main: "basic_main b ts = basic.run b () [] s 0 ts" for ts
    unfolding basic_main_def basic.run_def new by simp
  have start: "basic.run_start b () [] s 0"
    using m unfolding basic.run_start_def by simp
  have total: "unat (event_total example_program) = unat example_events" by (simp add: example_program_def)
  have "cl_handlers c = [example_events, example_events] \<and>
      handle_models b 0 example_capacity 2 (cl_stream c) 
          (map nth_market_event [0..<unat example_events]) [unat example_events, unat example_events]"
    if "basic.run_done b () [] c" for c
    using that unfolding basic.run_done_def total Let_def by (simp add: numeral_2_eq_2)
  then show ?thesis
    using basic.run_result [OF start assms] basic.run_finishes [OF start] unfolding main total by fastforce
qed

theorem basic_example_multicasts_witness:
  "basic_main Debug [Producer_turn, Consumer_turn 1] = Inl Still_running \<or>
   (\<exists>c. basic_main Debug [Producer_turn, Consumer_turn 1] = Inr c \<and> cl_handlers c = [example_events, example_events])"
  using basic_example_multicasts [of "[Producer_turn, Consumer_turn 1]" Debug] by (auto simp: turn_ok_def)

end
