(* ===== verification/Throughput.thy ===== *)
theory Throughput
  imports Stream_Client
begin

text \<open>
  The throughput benchmarks of the disruptor module: \<open>throughput.cpp\<close> (one consumer and the
  multicast to three), \<open>configuration_sweep.cpp\<close> and \<open>next_frontier.cpp\<close> (by index and by
  consumer handle). Template arguments are arguments; an event type is the number of words
  of its payload, 0 for the types without one. Threads take turns in any order; pinning,
  the start barrier and the clock are not modelled.
\<close>

section \<open>Events\<close>

record sized_event =
  se_value :: u64
  se_payload :: "u64 list"

definition write_event :: "nat \<Rightarrow> sized_event \<Rightarrow> u64 \<Rightarrow> sized_event" where
  "write_event width output v = output\<lparr>se_value := v, se_payload := replicate width v\<rparr>"

definition event_checksum :: "sized_event \<Rightarrow> u64" where
  "event_checksum input = foldl (+) (se_value input) (se_payload input)"

definition fill_payload :: "nat \<Rightarrow> sized_event \<Rightarrow> u64 \<Rightarrow> sized_event" where
  "fill_payload width output sequence =
     output\<lparr>se_payload := map (\<lambda>index. sequence + of_nat index + 1) [0..<width]\<rparr>"

definition payload_is_correct :: "sized_event \<Rightarrow> u64 \<Rightarrow> bool" where
  "payload_is_correct input sequence \<longleftrightarrow>
     list_all (\<lambda>(index, w). w = sequence + of_nat index + 1) (enumerate 0 (se_payload input))"

section \<open>throughput.cpp\<close>

definition throughput_capacity :: size_t where
  "throughput_capacity = 65536"

definition throughput_events :: u64 where
  "throughput_events = 5000000"

definition throughput_expected_checksum :: u64 where
  "throughput_expected_checksum = (throughput_events - 1) * throughput_events div 2"

record tally =
  tally_consumed :: u64
  tally_checksum :: u64

definition throughput_program :: "size_t \<Rightarrow> nat \<Rightarrow> (sized_event, tally) stream_program" where
  "throughput_program batch_size width =
     \<lparr>event_total = throughput_events,
      batch = (\<lambda>remaining. if remaining < batch_size then remaining else batch_size),
      event_writer_from = (\<lambda>n_published output index w. (write_event width output (n_published + index), w)),
      drain = batch_size,
      handler_from = (\<lambda>_ input _ t. t\<lparr>tally_checksum := tally_checksum t + event_checksum input\<rparr>),
      progress_of = tally_consumed,
      advance = (\<lambda>n t. t\<lparr>tally_consumed := tally_consumed t + n\<rparr>)\<rparr>"

text \<open>The result of a run is each consumer's checksum.\<close>

definition run_throughput :: "build \<Rightarrow> size_t \<Rightarrow> nat \<Rightarrow> nat \<Rightarrow> turn list \<Rightarrow> run_error + u64 list" where
  "run_throughput b batch_size width n_consumers turns =
     (case run_program (try_publish_batch b) direct_consume (throughput_program batch_size width) 0 turns
        (single_producer_disruptor throughput_capacity n_consumers \<lparr>se_value = 0, se_payload = replicate width 0\<rparr> 0)
        (replicate n_consumers \<lparr>tally_consumed = 0, tally_checksum = 0\<rparr>) of
        Inl e \<Rightarrow> Inl e
      | Inr c \<Rightarrow> Inr (map tally_checksum (cl_handlers c)))"

definition benchmark_disruptor :: "build \<Rightarrow> size_t \<Rightarrow> nat \<Rightarrow> turn list \<Rightarrow> run_error + u64" where
  "benchmark_disruptor b batch_size width turns =
     (case run_throughput b batch_size width 1 turns of Inl e \<Rightarrow> Inl e | Inr cs \<Rightarrow> Inr (cs ! 0))"

definition benchmark_multicast_disruptor :: "build \<Rightarrow> turn list \<Rightarrow> run_error + u64" where
  "benchmark_multicast_disruptor b turns =
     (case run_throughput b 16 0 3 turns of
        Inl e \<Rightarrow> Inl e | Inr cs \<Rightarrow> Inr (cs ! 0 + cs ! 1 + cs ! 2))"

definition throughput_state :: "nat \<Rightarrow> nat \<Rightarrow> tally" where
  "throughput_state width k = \<lparr>tally_consumed = of_nat k, tally_checksum = (\<Sum>q<k. of_nat (Suc width) * of_nat q)\<rparr>"

lemma event_checksum_written: "event_checksum (write_event width e v) = of_nat (Suc width) * v"
proof -
  have "foldl (+) a (replicate n v) = a + of_nat n * v" for a n
    by (induction n arbitrary: a) (simp_all add: algebra_simps)
  then show ?thesis by (simp add: event_checksum_def write_event_def algebra_simps)
qed

interpretation pair: stream_client "try_publish_batch b" direct_consume consumer_position
  "direct_models b base throughput_capacity n" "unat throughput_capacity" n base
  "\<lambda>(batch_size, width). batch_size \<noteq> 0 \<and> batch_size \<le> throughput_capacity"
  "\<lambda>(batch_size, width). throughput_program batch_size width"
  "\<lambda>(batch_size, width) q. write_event width \<lparr>se_value = 0, se_payload = []\<rparr> (of_nat q)"
  "\<lambda>_ _. True" "\<lambda>(batch_size, width) _. throughput_state width"
  for b base n
proof unfold_locales
  fix x :: "size_t \<times> nat" and p n k :: nat and first :: u64 and old :: "sized_event list"
  obtain batch_size width where x: "x = (batch_size, width)" by (cases x)
  let ?prog = "case x of (batch_size, width) \<Rightarrow> throughput_program batch_size width"
  let ?vals = "(\<lambda>(batch_size, width) q. write_event width \<lparr>se_value = 0, se_payload = []\<rparr> (of_nat q)) x"
  let ?state = "(\<lambda>(batch_size, width) _. throughput_state width) x"
  assume valid: "case x of (batch_size, width) \<Rightarrow> batch_size \<noteq> 0 \<and> batch_size \<le> throughput_capacity"
  then show "drain ?prog \<noteq> 0" by (simp add: x throughput_program_def)
  show "fst (written (event_writer_from ?prog (of_nat p)) old 0 ()) = map ?vals [p..<p + length old]"
    unfolding x prod.case by (rule written_values_from) (simp add: throughput_program_def write_event_def)
  show "progress_of ?prog (?state first k) = of_nat k"
    by (simp add: x throughput_program_def throughput_state_def)
  have "deliver (handler_from (throughput_program batch_size width) first) (first + of_nat k)
      (map (\<lambda>q. write_event width \<lparr>se_value = 0, se_payload = []\<rparr> (of_nat q)) [k..<k + n])
      \<lparr>tally_consumed = of_nat k, tally_checksum = (\<Sum>q<k. of_nat (Suc width) * of_nat q)\<rparr> =
    \<lparr>tally_consumed = of_nat k, tally_checksum = (\<Sum>q<k + n. of_nat (Suc width) * of_nat q)\<rparr>"
    by (rule deliver_steps [where st = "\<lambda>j. \<lparr>tally_consumed = of_nat k, tally_checksum = (\<Sum>q<j. of_nat (Suc width) * of_nat q)\<rparr>"])
      (simp only: throughput_program_def stream_program.select_convs event_checksum_written tally.simps sum.lessThan_Suc)
  then show "advance ?prog (of_nat n) (deliver (handler_from ?prog first) (first + of_nat k)
      (map ?vals [k..<k + n]) (?state first k)) = ?state first (k + n)"
    by (simp add: x throughput_state_def throughput_program_def)
  assume p: "p < unat (event_total ?prog)"
  show "0 < unat (batch ?prog (event_total ?prog - of_nat p)) \<and>
      unat (batch ?prog (event_total ?prog - of_nat p)) \<le> unat throughput_capacity \<and>
      p + unat (batch ?prog (event_total ?prog - of_nat p)) \<le> unat (event_total ?prog) \<and> True"
    using valid p tail_batch_law [of p throughput_events batch_size throughput_capacity]
    by (simp add: x throughput_program_def)
qed

lemma throughput_state_total:
  "map tally_checksum (replicate n (throughput_state width (unat throughput_events))) =
     replicate n (of_nat (Suc width) * throughput_expected_checksum)"
proof -
  have "(\<Sum>q < 5000000. of_nat q) = (of_nat (\<Sum>q < 5000000. q) :: u64)" by simp
  also have "\<dots> = of_nat (5000000 * (5000000 - 1) div 2)" unfolding sum_upto_nat ..
  also have "\<dots> = throughput_expected_checksum"
    by (simp add: throughput_expected_checksum_def throughput_events_def)
  finally have "(\<Sum>q < 5000000. of_nat q) = throughput_expected_checksum" .
  then show ?thesis
    by (simp add: throughput_state_def throughput_events_def sum_distrib_left [symmetric] del: of_nat_Suc)
qed

lemma pair_start:
  assumes "batch_size \<noteq> 0" "batch_size \<le> throughput_capacity" "0 < n"
  shows "pair.run_start b 0 n (batch_size, width) []
    (single_producer_disruptor throughput_capacity n \<lparr>se_value = 0, se_payload = replicate width 0\<rparr> 0)
    \<lparr>tally_consumed = 0, tally_checksum = 0\<rparr>"
proof -
  have "template_ok throughput_capacity n" using assms(3) unfolding template_ok_def throughput_capacity_def by simp
  from new_direct_models [OF this, of b 0] show ?thesis
    using assms unfolding pair.run_start_def by (simp add: throughput_state_def)
qed

lemma run_throughput_run:
  "run_throughput b batch_size width n turns =
     (case pair.run b n 0 (batch_size, width) []
        (single_producer_disruptor throughput_capacity n \<lparr>se_value = 0, se_payload = replicate width 0\<rparr> 0)
        \<lparr>tally_consumed = 0, tally_checksum = 0\<rparr> turns of
      Inl e \<Rightarrow> Inl e | Inr c \<Rightarrow> Inr (map tally_checksum (cl_handlers c)))"
  by (simp add: run_throughput_def pair.run_def)

lemma pair_done:
  "pair.run_done b 0 n (batch_size, width) [] c \<Longrightarrow>
     map tally_checksum (cl_handlers c) = replicate n (of_nat (Suc width) * throughput_expected_checksum)"
  unfolding pair.run_done_def throughput_state_total [symmetric]
  by (simp add: throughput_program_def Let_def)

lemma run_throughput_result:
  assumes "batch_size \<noteq> 0" "batch_size \<le> throughput_capacity" "0 < n"
  shows "\<forall>t \<in> set turns. turn_ok n t \<Longrightarrow>
      run_throughput b batch_size width n turns \<in>
        {Inl Still_running, Inr (replicate n (of_nat (Suc width) * throughput_expected_checksum))}"
    and "\<exists>m \<le> Suc n * unat throughput_events. run_throughput b batch_size width n (concat (replicate m (fair_round n))) =
        Inr (replicate n (of_nat (Suc width) * throughput_expected_checksum))"
proof -
  have total: "event_total (throughput_program batch_size width) = throughput_events"
    by (simp add: throughput_program_def)
  note start = pair_start [OF assms, of b width]
  show "run_throughput b batch_size width n turns \<in>
      {Inl Still_running, Inr (replicate n (of_nat (Suc width) * throughput_expected_checksum))}"
    if "\<forall>t \<in> set turns. turn_ok n t"
    using pair.run_result [OF start that] unfolding run_throughput_run by (auto simp: pair_done)
  show "\<exists>m \<le> Suc n * unat throughput_events. run_throughput b batch_size width n (concat (replicate m (fair_round n))) =
        Inr (replicate n (of_nat (Suc width) * throughput_expected_checksum))"
    using pair.run_finishes [OF start] unfolding run_throughput_run prod.case total by (auto simp: pair_done)
qed

text \<open>The results of \<open>main\<close>'s runs: each checksum is what it expects, however the threads interleave.\<close>

lemma benchmark_disruptor_result:
  assumes "batch_size \<noteq> 0" "batch_size \<le> throughput_capacity"
  shows "\<forall>t \<in> set turns. turn_ok 1 t \<Longrightarrow> benchmark_disruptor b batch_size width turns \<in>
      {Inl Still_running, Inr (of_nat (Suc width) * throughput_expected_checksum)}"
    and "\<exists>m \<le> 2 * unat throughput_events. benchmark_disruptor b batch_size width (concat (replicate m (fair_round 1))) =
      Inr (of_nat (Suc width) * throughput_expected_checksum)"
proof -
  show "\<forall>t \<in> set turns. turn_ok 1 t \<Longrightarrow> benchmark_disruptor b batch_size width turns \<in>
      {Inl Still_running, Inr (of_nat (Suc width) * throughput_expected_checksum)}"
    using run_throughput_result(1) [OF assms, of 1 turns b width] by (auto simp: benchmark_disruptor_def)
  obtain m where "m \<le> 2 * unat throughput_events"
    "run_throughput b batch_size width 1 (concat (replicate m (fair_round 1))) =
      Inr (replicate 1 (of_nat (Suc width) * throughput_expected_checksum))"
    using run_throughput_result(2) [OF assms zero_less_one, of b width] unfolding Suc_1 [unfolded One_nat_def [symmetric]]
    by blast
  then show "\<exists>m \<le> 2 * unat throughput_events. benchmark_disruptor b batch_size width (concat (replicate m (fair_round 1))) =
      Inr (of_nat (Suc width) * throughput_expected_checksum)"
    by (intro exI [of _ m]) (simp add: benchmark_disruptor_def)
qed

lemma benchmark_multicast_result:
  shows "\<forall>t \<in> set turns. turn_ok 3 t \<Longrightarrow> benchmark_multicast_disruptor b turns \<in>
      {Inl Still_running, Inr (throughput_expected_checksum * 3)}"
    and "\<exists>m \<le> 4 * unat throughput_events. benchmark_multicast_disruptor b (concat (replicate m (fair_round 3))) =
      Inr (throughput_expected_checksum * 3)"
proof -
  have sixteen: "(16 :: size_t) \<noteq> 0" "16 \<le> throughput_capacity" by (simp_all add: throughput_capacity_def)
  have sum: "x + x + x = x * 3" for x :: u64 by simp
  show "\<forall>t \<in> set turns. turn_ok 3 t \<Longrightarrow> benchmark_multicast_disruptor b turns \<in>
      {Inl Still_running, Inr (throughput_expected_checksum * 3)}"
    using run_throughput_result(1) [OF sixteen, of 3 turns b 0]
    by (auto simp: benchmark_multicast_disruptor_def numeral_3_eq_3)
  obtain m where "m \<le> 4 * unat throughput_events"
    "run_throughput b 16 0 3 (concat (replicate m (fair_round 3))) =
      Inr (replicate 3 (of_nat (Suc 0) * throughput_expected_checksum))"
    using run_throughput_result(2) [OF sixteen, of 3 b 0] by auto
  then show "\<exists>m \<le> 4 * unat throughput_events. benchmark_multicast_disruptor b (concat (replicate m (fair_round 3))) =
      Inr (throughput_expected_checksum * 3)"
    by (intro exI [of _ m]) (simp add: benchmark_multicast_disruptor_def numeral_3_eq_3)
qed

section \<open>configuration_sweep.cpp and next_frontier.cpp\<close>

record ordered_tally =
  ot_consumed :: u64
  ot_expected :: u64
  ot_checksum :: u64
  ot_ordered :: bool

definition new_ordered_tally :: ordered_tally where
  "new_ordered_tally = \<lparr>ot_consumed = 0, ot_expected = 0, ot_checksum = 0, ot_ordered = True\<rparr>"

definition ordered_checksum :: "ordered_tally \<Rightarrow> u64" where
  "ordered_checksum t = (if ot_ordered t then ot_checksum t else - 1)"

definition sweep_program :: "u64 \<Rightarrow> size_t \<Rightarrow> nat \<Rightarrow> (sized_event, ordered_tally) stream_program" where
  "sweep_program total_events batch_size width =
     \<lparr>event_total = total_events,
      batch = (\<lambda>remaining. if remaining < batch_size then remaining else batch_size),
      event_writer_from = (\<lambda>n_published output index w.
        (fill_payload width (output\<lparr>se_value := n_published + index\<rparr>) (n_published + index), w)),
      drain = batch_size,
      handler_from = (\<lambda>_ input sequence t.
        t\<lparr>ot_ordered := ot_ordered t \<and> sequence = ot_expected t \<and> se_value input = ot_expected t \<and>
            payload_is_correct input (ot_expected t),
          ot_checksum := ot_checksum t + se_value input,
          ot_expected := ot_expected t + 1\<rparr>),
      progress_of = ot_consumed,
      advance = (\<lambda>n t. t\<lparr>ot_consumed := ot_consumed t + n\<rparr>)\<rparr>"

definition frontier_program :: "u64 \<Rightarrow> size_t \<Rightarrow> size_t \<Rightarrow> (sized_event, ordered_tally) stream_program" where
  "frontier_program total_events publish_batch drain_batch =
     \<lparr>event_total = total_events,
      batch = (\<lambda>remaining. if remaining < publish_batch then remaining else publish_batch),
      event_writer_from = (\<lambda>n_published output index w. (output\<lparr>se_value := n_published + index, se_payload := []\<rparr>, w)),
      drain = drain_batch,
      handler_from = (\<lambda>_ input sequence t.
        t\<lparr>ot_ordered := ot_ordered t \<and> sequence = ot_expected t \<and> se_value input = ot_expected t,
          ot_checksum := ot_checksum t + se_value input,
          ot_expected := ot_expected t + 1\<rparr>),
      progress_of = ot_consumed,
      advance = (\<lambda>n t. t\<lparr>ot_consumed := ot_consumed t + n\<rparr>)\<rparr>"

text \<open>What each benchmark prints in its last column, true for PASS.\<close>

definition all_checksums :: "u64 \<Rightarrow> run_error + ('s, ordered_tally) client \<Rightarrow> run_error + bool" where
  "all_checksums total_events outcome =
     (case outcome of Inl e \<Rightarrow> Inl e
      | Inr c \<Rightarrow> Inr (list_all (\<lambda>t. ordered_checksum t = (total_events - 1) * total_events div 2) (cl_handlers c)))"

definition sweep_throughput :: "build \<Rightarrow> u64 \<Rightarrow> size_t \<Rightarrow> size_t \<Rightarrow> nat \<Rightarrow> nat \<Rightarrow> turn list \<Rightarrow> run_error + bool" where
  "sweep_throughput b total_events cap batch_size width n_consumers turns =
     all_checksums total_events
       (run_program (try_publish_batch b) direct_consume (sweep_program total_events batch_size width) 0 turns
          (single_producer_disruptor cap n_consumers \<lparr>se_value = 0, se_payload = replicate width 0\<rparr> 0)
          (replicate n_consumers new_ordered_tally))"

definition frontier_throughput :: "build \<Rightarrow> u64 \<Rightarrow> size_t \<Rightarrow> size_t \<Rightarrow> size_t \<Rightarrow> bool \<Rightarrow> nat \<Rightarrow> turn list \<Rightarrow>
    run_error + bool" where
  "frontier_throughput b total_events cap publish_batch drain_batch use_handle n_consumers turns =
     (let prog = frontier_program total_events publish_batch drain_batch; dflt = \<lparr>se_value = 0, se_payload = []\<rparr>;
          hs = replicate n_consumers new_ordered_tally
      in if use_handle
         then all_checksums total_events
           (run_program (mixed_publish b) handle_consume prog 0 turns (new_mixed cap n_consumers dflt 0) hs)
         else all_checksums total_events
           (run_program (try_publish_batch b) direct_consume prog 0 turns
              (single_producer_disruptor cap n_consumers dflt 0) hs))"

text \<open>A stream that does not start at 0 would be out of order from its first event.\<close>

definition ordered_state :: "u64 \<Rightarrow> nat \<Rightarrow> ordered_tally" where
  "ordered_state first k = \<lparr>ot_consumed = of_nat k, ot_expected = of_nat k, ot_checksum = (\<Sum>q<k. of_nat q),
     ot_ordered = (first = 0 \<or> k = 0)\<rparr>"

definition filled_event :: "nat \<Rightarrow> nat \<Rightarrow> sized_event" where
  "filled_event width q = fill_payload width \<lparr>se_value = of_nat q, se_payload = []\<rparr> (of_nat q)"

lemma payload_is_correct_filled: "payload_is_correct (filled_event width q) (of_nat q)"
  by (auto simp: payload_is_correct_def filled_event_def fill_payload_def list_all_iff in_set_enumerate_eq)

lemma filled_event_value: "se_value (filled_event width q) = of_nat q"
  by (simp add: filled_event_def fill_payload_def)

lemma ordered_deliver:
  assumes "\<And>j. k \<le> j \<Longrightarrow> j < k + n \<Longrightarrow> se_value (vals j) = of_nat j \<and> ok (vals j) (of_nat j)"
  shows "(deliver (\<lambda>input sequence t. t\<lparr>ot_ordered := ot_ordered t \<and> sequence = ot_expected t \<and>
        se_value input = ot_expected t \<and> ok input (ot_expected t),
      ot_checksum := ot_checksum t + se_value input, ot_expected := ot_expected t + 1\<rparr>)
    (first + of_nat k) (map vals [k..<k + n]) (ordered_state first k)) = (ordered_state first (k + n))\<lparr>ot_consumed := of_nat k\<rparr>"
proof -
  let ?st = "\<lambda>j. (ordered_state first j)\<lparr>ot_consumed := of_nat k\<rparr>"
  have "deliver (\<lambda>input sequence t. t\<lparr>ot_ordered := ot_ordered t \<and> sequence = ot_expected t \<and>
        se_value input = ot_expected t \<and> ok input (ot_expected t),
      ot_checksum := ot_checksum t + se_value input, ot_expected := ot_expected t + 1\<rparr>)
    (first + of_nat k) (map vals [k..<k + n]) (?st k) = ?st (k + n)"
    by (rule deliver_steps) (use assms in \<open>auto simp: ordered_state_def add.commute\<close>)
  moreover have "?st k = ordered_state first k" by (simp add: ordered_state_def)
  ultimately show ?thesis by simp
qed

lemma ordered_checksum_total:
  assumes "unat total_events \<le> 2 ^ 32"
  shows "ordered_checksum (ordered_state 0 (unat total_events)) = (total_events - 1) * total_events div 2"
proof -
  let ?n = "unat total_events"
  have "(\<Sum>q < ?n. of_nat q) = (of_nat (?n * (?n - 1) div 2) :: u64)"
    unfolding sum_upto_nat [symmetric] by (rule of_nat_sum [symmetric])
  also have "\<dots> = (total_events - 1) * total_events div 2"
  proof (cases "total_events = 0")
    case False
    have less: "?n * (?n - 1) < 2 ^ 64"
    proof -
      have "?n * (?n - 1) \<le> 2 ^ 32 * (2 ^ 32 - 1)" using assms by (intro mult_le_mono) auto
      then show ?thesis by simp
    qed
    have "unat (total_events - 1) = ?n - 1" using False by (simp add: unat_minus_one)
    then have prod: "unat ((total_events - 1) * total_events) = ?n * (?n - 1)"
      using less by (simp add: unat_word_ariths mult.commute)
    have "?n * (?n - 1) div 2 < 2 ^ 64" by (rule le_less_trans [OF div_le_dividend less])
    then show ?thesis unfolding word_unat_eq_iff unat_div prod by (simp add: unat_of_nat64)
  qed simp
  finally show ?thesis by (simp add: ordered_checksum_def ordered_state_def)
qed

lemma sweep_handler:
  "advance (sweep_program total_events batch_size width) (of_nat n)
    (deliver (handler_from (sweep_program total_events batch_size width) first) (first + of_nat k)
      (map (filled_event width) [k..<k + n]) (ordered_state first k)) = ordered_state first (k + n)"
  using ordered_deliver [where vals = "filled_event width" and ok = payload_is_correct and first = first and k = k and n = n]
  by (simp add: sweep_program_def payload_is_correct_filled filled_event_value) (simp add: ordered_state_def)

lemma frontier_handler:
  "advance (frontier_program total_events publish_batch drain_batch) (of_nat n)
    (deliver (handler_from (frontier_program total_events publish_batch drain_batch) first) (first + of_nat k)
      (map (\<lambda>q. \<lparr>se_value = of_nat q, se_payload = []\<rparr>) [k..<k + n]) (ordered_state first k)) = ordered_state first (k + n)"
  using ordered_deliver [where vals = "\<lambda>q. \<lparr>se_value = of_nat q, se_payload = []\<rparr>" and ok = "\<lambda>_ _. True"
      and first = first and k = k and n = n]
  by (simp add: frontier_program_def) (simp add: ordered_state_def)

interpretation sweep: stream_client "try_publish_batch b" direct_consume consumer_position
  "direct_models b 0 cap n" "unat cap" n 0
  "\<lambda>(total_events, batch_size, width). batch_size \<noteq> 0 \<and> batch_size \<le> cap"
  "\<lambda>(total_events, batch_size, width). sweep_program total_events batch_size width"
  "\<lambda>(total_events, batch_size, width). filled_event width" "\<lambda>_ _. True" "\<lambda>_. ordered_state"
  for b cap n
proof unfold_locales
  fix x :: "u64 \<times> size_t \<times> nat" and p :: nat and m k :: nat and first :: u64 and old :: "sized_event list"
  obtain total_events batch_size width where x: "x = (total_events, batch_size, width)" by (cases x)
  let ?prog = "case x of (total_events, batch_size, width) \<Rightarrow> sweep_program total_events batch_size width"
  assume valid: "case x of (total_events, batch_size, width) \<Rightarrow> batch_size \<noteq> 0 \<and> batch_size \<le> cap"
  then show "drain ?prog \<noteq> 0" by (simp add: x sweep_program_def)
  show "fst (written (event_writer_from ?prog (of_nat p)) old 0 ()) =
      map ((\<lambda>(total_events, batch_size, width). filled_event width) x) [p..<p + length old]"
    unfolding x prod.case filled_event_def
    by (rule written_values_from) (simp add: sweep_program_def fill_payload_def)
  show "progress_of ?prog (ordered_state first k) = of_nat k" by (simp add: x sweep_program_def ordered_state_def)
  assume p: "p < unat (event_total ?prog)"
  show "0 < unat (batch ?prog (event_total ?prog - of_nat p)) \<and>
      unat (batch ?prog (event_total ?prog - of_nat p)) \<le> unat cap \<and>
      p + unat (batch ?prog (event_total ?prog - of_nat p)) \<le> unat (event_total ?prog) \<and> True"
    using valid p tail_batch_law [of p total_events batch_size cap] by (simp add: x sweep_program_def)
qed (auto simp: sweep_handler)

lemma frontier_program_laws:
  assumes "x = (total_events, publish_batch, drain_batch)"
    "publish_batch \<noteq> 0 \<and> publish_batch \<le> cap \<and> drain_batch \<noteq> 0"
    "prog = frontier_program total_events publish_batch drain_batch"
  shows "drain prog \<noteq> 0"
    and "p < unat (event_total prog) \<Longrightarrow> 0 < unat (batch prog (event_total prog - of_nat p)) \<and>
      unat (batch prog (event_total prog - of_nat p)) \<le> unat cap \<and>
      p + unat (batch prog (event_total prog - of_nat p)) \<le> unat (event_total prog)"
    and "fst (written (event_writer_from prog (of_nat p)) old 0 ()) =
      map (\<lambda>q. \<lparr>se_value = of_nat q, se_payload = []\<rparr>) [p..<p + length old]"
    and "progress_of prog (ordered_state first k) = of_nat k"
proof -
  show "drain prog \<noteq> 0" using assms by (simp add: frontier_program_def)
  show "p < unat (event_total prog) \<Longrightarrow> 0 < unat (batch prog (event_total prog - of_nat p)) \<and>
      unat (batch prog (event_total prog - of_nat p)) \<le> unat cap \<and>
      p + unat (batch prog (event_total prog - of_nat p)) \<le> unat (event_total prog)"
    using assms tail_batch_law [of p total_events publish_batch cap] by (simp add: frontier_program_def)
  show "fst (written (event_writer_from prog (of_nat p)) old 0 ()) =
      map (\<lambda>q. \<lparr>se_value = of_nat q, se_payload = []\<rparr>) [p..<p + length old]"
    by (rule written_values_from) (simp add: assms(3) frontier_program_def)
  show "progress_of prog (ordered_state first k) = of_nat k"
    by (simp add: assms(3) frontier_program_def ordered_state_def)
qed

interpretation frontier_indexed: stream_client "try_publish_batch b" direct_consume consumer_position
  "direct_models b 0 cap n" "unat cap" n 0
  "\<lambda>(total_events, publish_batch, drain_batch). publish_batch \<noteq> 0 \<and> publish_batch \<le> cap \<and> drain_batch \<noteq> 0"
  "\<lambda>(total_events, publish_batch, drain_batch). frontier_program total_events publish_batch drain_batch"
  "\<lambda>_ q. \<lparr>se_value = of_nat q, se_payload = []\<rparr>" "\<lambda>_ _. True" "\<lambda>_. ordered_state"
  for b cap n
  by unfold_locales (auto simp: frontier_handler frontier_program_laws split: prod.splits)

interpretation frontier_handles: stream_client "mixed_publish b" handle_consume handle_position
  "mixed_models b 0 cap n" "unat cap" n 0
  "\<lambda>(total_events, publish_batch, drain_batch). publish_batch \<noteq> 0 \<and> publish_batch \<le> cap \<and> drain_batch \<noteq> 0"
  "\<lambda>(total_events, publish_batch, drain_batch). frontier_program total_events publish_batch drain_batch"
  "\<lambda>_ q. \<lparr>se_value = of_nat q, se_payload = []\<rparr>" "\<lambda>_ _. True" "\<lambda>_. ordered_state"
  for b cap n
  by unfold_locales (auto simp: frontier_handler frontier_program_laws split: prod.splits)

lemma ordered_start: "new_ordered_tally = ordered_state 0 0"
  by (simp add: new_ordered_tally_def ordered_state_def)

lemma sweep_throughput_result:
  assumes "template_ok cap n" "batch_size \<noteq> 0" "batch_size \<le> cap" "unat total_events \<le> 2 ^ 32"
    and "\<forall>t \<in> set turns. turn_ok n t"
  shows "sweep_throughput b total_events cap batch_size width n turns \<in> {Inl Still_running, Inr True}"
proof -
  let ?x = "(total_events, batch_size, width)"
  let ?s = "single_producer_disruptor cap n \<lparr>se_value = 0, se_payload = replicate width 0\<rparr> 0"
  have total: "event_total (sweep_program total_events batch_size width) = total_events"
    by (simp add: sweep_program_def)
  have start: "sweep.run_start b cap n ?x [] ?s new_ordered_tally"
    using assms(2,3) new_direct_models [OF assms(1), of b 0] unfolding sweep.run_start_def
    by (simp add: ordered_start)
  have "sweep_throughput b total_events cap batch_size width n turns =
      all_checksums total_events (sweep.run b n ?x [] ?s new_ordered_tally turns)"
    unfolding sweep_throughput_def sweep.run_def by simp
  moreover have "sweep.run_done b cap n ?x [] c \<Longrightarrow>
      list_all (\<lambda>t. ordered_checksum t = (total_events - 1) * total_events div 2) (cl_handlers c)" for c
    unfolding sweep.run_done_def by (simp add: total ordered_checksum_total [OF assms(4)] Let_def list_all_iff)
  ultimately show ?thesis using sweep.run_result [OF start assms(5)] by (auto simp: all_checksums_def)
qed

lemma sweep_throughput_finishes:
  assumes "template_ok cap n" "batch_size \<noteq> 0" "batch_size \<le> cap" "unat total_events \<le> 2 ^ 32"
  shows "\<exists>m \<le> Suc n * unat total_events.
    sweep_throughput b total_events cap batch_size width n (concat (replicate m (fair_round n))) = Inr True"
proof -
  let ?x = "(total_events, batch_size, width)"
  let ?s = "single_producer_disruptor cap n \<lparr>se_value = 0, se_payload = replicate width 0\<rparr> 0"
  have total: "event_total (sweep_program total_events batch_size width) = total_events"
    by (simp add: sweep_program_def)
  have start: "sweep.run_start b cap n ?x [] ?s new_ordered_tally"
    using assms(2,3) new_direct_models [OF assms(1), of b 0] unfolding sweep.run_start_def
    by (simp add: ordered_start)
  obtain m c where m: "m \<le> Suc n * unat total_events"
    "sweep.run b n ?x [] ?s new_ordered_tally (concat (replicate m (fair_round n))) = Inr c"
    using sweep.run_finishes [OF start] by (auto simp: total)
  then have "sweep_throughput b total_events cap batch_size width n (concat (replicate m (fair_round n))) \<noteq> Inl Still_running"
    unfolding sweep.run_def sweep_throughput_def by (simp add: all_checksums_def)
  moreover have "\<forall>t \<in> set (concat (replicate m (fair_round n))). turn_ok n t"
    by (auto simp: fair_round_def turn_ok_def)
  ultimately show ?thesis using sweep_throughput_result [OF assms] m(1) by blast
qed

text \<open>The two ways \<open>next_frontier.cpp\<close> consumes, by index and by handle.\<close>

lemma frontier_throughput_run:
  fixes b cap n total_events publish_batch drain_batch use_handle
  defines "x \<equiv> (total_events, publish_batch, drain_batch)" and "dflt \<equiv> \<lparr>se_value = 0, se_payload = []\<rparr>"
  shows "frontier_throughput b total_events cap publish_batch drain_batch use_handle n turns =
    (if use_handle
     then all_checksums total_events
       (frontier_handles.run b n x [] (new_mixed cap n dflt 0) new_ordered_tally turns)
     else all_checksums total_events
       (frontier_indexed.run b n x [] (single_producer_disruptor cap n dflt 0) new_ordered_tally turns))"
  unfolding frontier_throughput_def frontier_handles.run_def frontier_indexed.run_def x_def dflt_def by simp

lemma frontier_start:
  assumes "template_ok cap n" "publish_batch \<noteq> 0" "publish_batch \<le> cap" "drain_batch \<noteq> 0"
  shows "frontier_handles.run_start b cap n (total_events, publish_batch, drain_batch) []
      (new_mixed cap n \<lparr>se_value = 0, se_payload = []\<rparr> 0) new_ordered_tally"
    and "frontier_indexed.run_start b cap n (total_events, publish_batch, drain_batch) []
      (single_producer_disruptor cap n \<lparr>se_value = 0, se_payload = []\<rparr> 0) new_ordered_tally"
  using assms(2-4) new_mixed_models [OF assms(1), of b 0] new_direct_models [OF assms(1), of b 0]
  unfolding frontier_handles.run_start_def frontier_indexed.run_start_def by (simp_all add: ordered_start)

lemma frontier_done:
  assumes "unat total_events \<le> 2 ^ 32"
  shows "frontier_handles.run_done b cap n (total_events, publish_batch, drain_batch) [] c \<Longrightarrow>
      all_checksums total_events (Inr c) = Inr True"
    and "frontier_indexed.run_done b cap n (total_events, publish_batch, drain_batch) [] c' \<Longrightarrow>
      all_checksums total_events (Inr c') = Inr True"
  unfolding frontier_handles.run_done_def frontier_indexed.run_done_def
  by (simp_all add: all_checksums_def frontier_program_def ordered_checksum_total [OF assms] Let_def list_all_iff)

lemma frontier_throughput_result:
  assumes "template_ok cap n" "publish_batch \<noteq> 0" "publish_batch \<le> cap" "drain_batch \<noteq> 0"
    "unat total_events \<le> 2 ^ 32" and ts: "\<forall>t \<in> set turns. turn_ok n t"
  shows "frontier_throughput b total_events cap publish_batch drain_batch use_handle n turns \<in>
    {Inl Still_running, Inr True}"
  using frontier_handles.run_result [OF frontier_start(1) [OF assms(1-4)] ts, of b total_events]
    frontier_indexed.run_result [OF frontier_start(2) [OF assms(1-4)] ts, of b total_events]
    frontier_done [OF assms(5)]
  unfolding frontier_throughput_run by (auto simp: all_checksums_def)

lemma frontier_throughput_finishes:
  assumes "template_ok cap n" "publish_batch \<noteq> 0" "publish_batch \<le> cap" "drain_batch \<noteq> 0"
    "unat total_events \<le> 2 ^ 32"
  shows "\<exists>m \<le> Suc n * unat total_events. frontier_throughput b total_events cap publish_batch drain_batch use_handle n
    (concat (replicate m (fair_round n))) = Inr True"
proof -
  have total: "event_total (frontier_program total_events publish_batch drain_batch) = total_events"
    by (simp add: frontier_program_def)
  show ?thesis
    using frontier_handles.run_finishes [OF frontier_start(1) [OF assms(1-4), of b total_events]]
      frontier_indexed.run_finishes [OF frontier_start(2) [OF assms(1-4), of b total_events]]
      frontier_done [OF assms(5)]
    unfolding frontier_throughput_run prod.case total by (cases use_handle) (fastforce, fastforce)
qed

section \<open>What the check checks and what the handlers are given\<close>

text \<open>The tally of a consumer whose handler has been called with these events and sequences.\<close>

definition tally_of :: "(sized_event, ordered_tally) stream_program \<Rightarrow> (sized_event \<times> u64) list \<Rightarrow> ordered_tally" where
  "tally_of prog seen = foldl (\<lambda>t (input, sequence). handler_from prog 0 input sequence t) new_ordered_tally seen"

definition all_pass :: "u64 \<Rightarrow> ordered_tally list \<Rightarrow> bool" where
  "all_pass total_events ts \<longleftrightarrow> list_all (\<lambda>t. ordered_checksum t = (total_events - 1) * total_events div 2) ts"

definition payload_filled :: "sized_event \<Rightarrow> u64 \<Rightarrow> bool" where
  "payload_filled input q \<longleftrightarrow> se_payload input = map (\<lambda>i. q + of_nat i + 1) [0..<length (se_payload input)]"

lemma payload_is_correct_iff: "payload_is_correct input q \<longleftrightarrow> payload_filled input q"
proof -
  have "payload_is_correct input q \<longleftrightarrow> (\<forall>i < length (se_payload input). se_payload input ! i = q + of_nat i + 1)"
    by (simp add: payload_is_correct_def list_all_length nth_enumerate_eq)
  then show ?thesis unfolding payload_filled_def list_eq_iff_nth_eq by simp
qed

lemma tally_of_steps:
  assumes "\<And>input sequence t. handler_from prog 0 input sequence t =
    t\<lparr>ot_ordered := ot_ordered t \<and> sequence = ot_expected t \<and> se_value input = ot_expected t \<and> ok input (ot_expected t),
      ot_checksum := ot_checksum t + se_value input, ot_expected := ot_expected t + 1\<rparr>"
  shows "ot_expected (tally_of prog seen) = of_nat (length seen) \<and>
    (ot_ordered (tally_of prog seen) \<longleftrightarrow> (\<forall>q < length seen. snd (seen ! q) = of_nat q \<and>
      se_value (fst (seen ! q)) = of_nat q \<and> ok (fst (seen ! q)) (of_nat q))) \<and>
    (ot_ordered (tally_of prog seen) \<longrightarrow> ot_checksum (tally_of prog seen) = (\<Sum>q < length seen. of_nat q))"
proof (induction seen rule: rev_induct)
  case (snoc x seen)
  have step: "tally_of prog (seen @ [x]) = (let t = tally_of prog seen in
      t\<lparr>ot_ordered := ot_ordered t \<and> snd x = ot_expected t \<and> se_value (fst x) = ot_expected t \<and> ok (fst x) (ot_expected t),
        ot_checksum := ot_checksum t + se_value (fst x), ot_expected := ot_expected t + 1\<rparr>)"
    by (cases x) (simp only: tally_of_def foldl_append foldl_Cons foldl_Nil assms Let_def prod.case prod.sel)
  have "(\<forall>q < length (seen @ [x]). P ((seen @ [x]) ! q) q) \<longleftrightarrow> (\<forall>q < length seen. P (seen ! q) q) \<and> P x (length seen)" for P
    by (auto simp: less_Suc_eq nth_append)
  note all = this [of "\<lambda>x q. snd x = of_nat q \<and> se_value (fst x) = of_nat q \<and> ok (fst x) (of_nat q)"]
  show ?case unfolding all step Let_def using snoc by (simp add: lessThan_Suc add.commute)
qed (simp add: tally_of_def new_ordered_tally_def)

text \<open>The benchmark's check passes exactly for the events in order, each with its own values.\<close>

lemma ordered_checksum_passes:
  assumes "\<And>input sequence t. handler_from prog 0 input sequence t =
    t\<lparr>ot_ordered := ot_ordered t \<and> sequence = ot_expected t \<and> se_value input = ot_expected t \<and> ok input (ot_expected t),
      ot_checksum := ot_checksum t + se_value input, ot_expected := ot_expected t + 1\<rparr>"
    and "unat total_events \<le> 2 ^ 32" "length seen = unat total_events"
  shows "ordered_checksum (tally_of prog seen) = (total_events - 1) * total_events div 2 \<longleftrightarrow>
    (\<forall>q < length seen. snd (seen ! q) = of_nat q \<and> se_value (fst (seen ! q)) = of_nat q \<and>
      ok (fst (seen ! q)) (of_nat q))"
proof -
  note steps = tally_of_steps [where prog = prog and ok = ok, OF assms(1), of seen]
  have "unat ((total_events - 1) * total_events div 2) < 2 ^ 63"
    using unat_lt_2p64 [of "(total_events - 1) * total_events"] unfolding unat_div
    by (intro less_mult_imp_div_less) simp
  moreover have "unat (- 1 :: u64) = 2 ^ 64 - 1" by (simp add: unsigned_minus_1_eq_mask mask_eq_exp_minus_1)
  ultimately have "(total_events - 1) * total_events div 2 \<noteq> - 1" by fastforce
  moreover have "(\<Sum>q < unat total_events. of_nat q) = (total_events - 1) * total_events div 2"
    using ordered_checksum_total [OF assms(2)] by (simp add: ordered_checksum_def ordered_state_def)
  ultimately show ?thesis using steps assms(3) by (auto simp: ordered_checksum_def)
qed

lemma all_pass_one: "all_pass total_events [t] \<longleftrightarrow> ordered_checksum t = (total_events - 1) * total_events div 2"
  by (simp add: all_pass_def)

lemma sweep_check_passes:
  assumes "unat total_events \<le> 2 ^ 32" "length seen = unat total_events"
  shows "all_pass total_events [tally_of (sweep_program total_events batch_size width) seen] \<longleftrightarrow>
    (\<forall>q < length seen. snd (seen ! q) = of_nat q \<and> se_value (fst (seen ! q)) = of_nat q \<and>
      payload_filled (fst (seen ! q)) (of_nat q))"
  unfolding all_pass_one by (rule ordered_checksum_passes [OF _ assms]) (simp add: sweep_program_def payload_is_correct_iff)

lemma frontier_check_passes:
  assumes "unat total_events \<le> 2 ^ 32" "length seen = unat total_events"
  shows "all_pass total_events [tally_of (frontier_program total_events publish_batch drain_batch) seen] \<longleftrightarrow>
    (\<forall>q < length seen. snd (seen ! q) = of_nat q \<and> se_value (fst (seen ! q)) = of_nat q)"
  unfolding all_pass_one using ordered_checksum_passes [where ok = "\<lambda>_ _. True", OF _ assms] by (simp add: frontier_program_def)

text \<open>
  The same runs with handlers that record what they are called with: each consumer's tally
  and record at the end.
\<close>

definition sweep_given :: "build \<Rightarrow> u64 \<Rightarrow> size_t \<Rightarrow> size_t \<Rightarrow> nat \<Rightarrow> nat \<Rightarrow> turn list \<Rightarrow>
    run_error + (ordered_tally \<times> (sized_event \<times> u64) list) list" where
  "sweep_given b total_events cap batch_size width n_consumers turns = map_sum id cl_handlers
     (run_program (try_publish_batch b) direct_consume (observed (sweep_program total_events batch_size width)) 0 turns
        (single_producer_disruptor cap n_consumers \<lparr>se_value = 0, se_payload = replicate width 0\<rparr> 0)
        (replicate n_consumers (new_ordered_tally, [])))"

definition frontier_given :: "build \<Rightarrow> u64 \<Rightarrow> size_t \<Rightarrow> size_t \<Rightarrow> size_t \<Rightarrow> bool \<Rightarrow> nat \<Rightarrow> turn list \<Rightarrow>
    run_error + (ordered_tally \<times> (sized_event \<times> u64) list) list" where
  "frontier_given b total_events cap publish_batch drain_batch use_handle n_consumers turns =
     (let prog = observed (frontier_program total_events publish_batch drain_batch);
          dflt = \<lparr>se_value = 0, se_payload = []\<rparr>; hs = replicate n_consumers (new_ordered_tally, [])
      in if use_handle
         then map_sum id cl_handlers
           (run_program (mixed_publish b) handle_consume prog 0 turns (new_mixed cap n_consumers dflt 0) hs)
         else map_sum id cl_handlers
           (run_program (try_publish_batch b) direct_consume prog 0 turns
              (single_producer_disruptor cap n_consumers dflt 0) hs))"

lemma all_checksums_forget:
  "all_checksums total_events (map_sum id forget outcome) =
     map_sum id (\<lambda>hs. all_pass total_events (map fst hs)) (map_sum id cl_handlers outcome)"
  by (cases outcome) (simp_all add: all_checksums_def all_pass_def)

lemma sweep_throughput_given:
  assumes "\<forall>t \<in> set turns. turn_ok n t"
  shows "sweep_throughput b total_events cap batch_size width n turns =
    map_sum id (\<lambda>hs. all_pass total_events (map fst hs)) (sweep_given b total_events cap batch_size width n turns)"
  by (simp only: sweep_throughput_def sweep_given_def all_checksums_forget [symmetric]
    run_program_observed [OF direct_consume_transparent assms, symmetric])

lemma frontier_throughput_given:
  assumes "\<forall>t \<in> set turns. turn_ok n t"
  shows "frontier_throughput b total_events cap publish_batch drain_batch use_handle n turns =
    map_sum id (\<lambda>hs. all_pass total_events (map fst hs))
      (frontier_given b total_events cap publish_batch drain_batch use_handle n turns)"
  by (simp only: frontier_throughput_def frontier_given_def Let_def if_distrib [of "map_sum id _"]
    all_checksums_forget [symmetric] run_program_observed [OF direct_consume_transparent assms, symmetric]
    run_program_observed [OF handle_consume_transparent assms, symmetric])

interpretation sweep_record: stream_client "try_publish_batch b" direct_consume consumer_position
  "direct_models b 0 cap n" "unat cap" n 0
  "\<lambda>(total_events, batch_size, width). batch_size \<noteq> 0 \<and> batch_size \<le> cap"
  "\<lambda>(total_events, batch_size, width). observed (sweep_program total_events batch_size width)"
  "\<lambda>(total_events, batch_size, width). filled_event width" "\<lambda>_ _. True"
  "\<lambda>(total_events, batch_size, width) first k. (ordered_state first k, given_events (filled_event width) first k)"
  for b cap n
  by unfold_locales
    (use sweep.drain_law sweep.batch_law sweep.writer_law sweep.progress_law sweep_handler in
      \<open>auto simp: observed_handler simp del: observed_fields(5,7) split: prod.splits\<close>)

interpretation frontier_indexed_record: stream_client "try_publish_batch b" direct_consume consumer_position
  "direct_models b 0 cap n" "unat cap" n 0
  "\<lambda>(total_events, publish_batch, drain_batch). publish_batch \<noteq> 0 \<and> publish_batch \<le> cap \<and> drain_batch \<noteq> 0"
  "\<lambda>(total_events, publish_batch, drain_batch). observed (frontier_program total_events publish_batch drain_batch)"
  "\<lambda>_ q. \<lparr>se_value = of_nat q, se_payload = []\<rparr>" "\<lambda>_ _. True"
  "\<lambda>_ first k. (ordered_state first k, given_events (\<lambda>q. \<lparr>se_value = of_nat q, se_payload = []\<rparr>) first k)"
  for b cap n
  by unfold_locales
    (auto simp: frontier_handler observed_handler frontier_program_laws simp del: observed_fields(5,7) split: prod.splits)

interpretation frontier_handles_record: stream_client "mixed_publish b" handle_consume handle_position
  "mixed_models b 0 cap n" "unat cap" n 0
  "\<lambda>(total_events, publish_batch, drain_batch). publish_batch \<noteq> 0 \<and> publish_batch \<le> cap \<and> drain_batch \<noteq> 0"
  "\<lambda>(total_events, publish_batch, drain_batch). observed (frontier_program total_events publish_batch drain_batch)"
  "\<lambda>_ q. \<lparr>se_value = of_nat q, se_payload = []\<rparr>" "\<lambda>_ _. True"
  "\<lambda>_ first k. (ordered_state first k, given_events (\<lambda>q. \<lparr>se_value = of_nat q, se_payload = []\<rparr>) first k)"
  for b cap n
  by unfold_locales
    (auto simp: frontier_handler observed_handler frontier_program_laws simp del: observed_fields(5,7) split: prod.splits)

text \<open>Every event of the stream, in order, with its sequence and the words of its payload.\<close>

definition whole_stream :: "nat \<Rightarrow> u64 \<Rightarrow> (sized_event \<times> u64) list" where
  "whole_stream width total_events =
     map (\<lambda>q. (\<lparr>se_value = of_nat q, se_payload = map (\<lambda>i. of_nat q + of_nat i + 1) [0..<width]\<rparr>, of_nat q))
       [0..<unat total_events]"

lemma given_whole_stream:
  "given_events (filled_event width) 0 (unat total_events) = whole_stream width total_events"
  "given_events (\<lambda>q. \<lparr>se_value = of_nat q, se_payload = []\<rparr>) 0 (unat total_events) = whole_stream 0 total_events"
  by (simp_all add: given_events_def whole_stream_def filled_event_def fill_payload_def)

lemma sweep_given_whole:
  assumes "template_ok cap n" "batch_size \<noteq> 0" "batch_size \<le> cap" "\<forall>t \<in> set turns. turn_ok n t"
  shows "sweep_given b total_events cap batch_size width n turns = Inl Still_running \<or>
    (\<exists>hs. sweep_given b total_events cap batch_size width n turns = Inr hs \<and>
      map snd hs = replicate n (whole_stream width total_events))"
proof -
  let ?x = "(total_events, batch_size, width)"
  let ?s = "single_producer_disruptor cap n \<lparr>se_value = 0, se_payload = replicate width 0\<rparr> 0"
  have total: "event_total (sweep_program total_events batch_size width) = total_events"
    by (simp add: sweep_program_def)
  have start: "sweep_record.run_start b cap n ?x [] ?s (new_ordered_tally, [])"
    using assms(2,3) new_direct_models [OF assms(1), of b 0] unfolding sweep_record.run_start_def
    by (simp add: ordered_start)
  have given: "sweep_given b total_events cap batch_size width n turns =
      map_sum id cl_handlers (sweep_record.run b n ?x [] ?s (new_ordered_tally, []) turns)"
    unfolding sweep_given_def sweep_record.run_def by simp
  have "sweep_record.run_done b cap n ?x [] c \<Longrightarrow>
      map snd (cl_handlers c) = replicate n (whole_stream width total_events)" for c
    unfolding sweep_record.run_done_def by (simp add: total Let_def given_whole_stream)
  then show ?thesis using sweep_record.run_result [OF start assms(4)] unfolding given by auto
qed

lemma frontier_given_whole:
  assumes "template_ok cap n" "publish_batch \<noteq> 0" "publish_batch \<le> cap" "drain_batch \<noteq> 0"
    "\<forall>t \<in> set turns. turn_ok n t"
  shows "frontier_given b total_events cap publish_batch drain_batch use_handle n turns = Inl Still_running \<or>
    (\<exists>hs. frontier_given b total_events cap publish_batch drain_batch use_handle n turns = Inr hs \<and>
      map snd hs = replicate n (whole_stream 0 total_events))"
proof -
  let ?x = "(total_events, publish_batch, drain_batch)" and ?dflt = "\<lparr>se_value = 0, se_payload = []\<rparr> :: sized_event"
  have total: "event_total (frontier_program total_events publish_batch drain_batch) = total_events"
    by (simp add: frontier_program_def)
  have start: "frontier_handles_record.run_start b cap n ?x [] (new_mixed cap n ?dflt 0) (new_ordered_tally, [])"
    "frontier_indexed_record.run_start b cap n ?x [] (single_producer_disruptor cap n ?dflt 0) (new_ordered_tally, [])"
    using assms(2-4) new_mixed_models [OF assms(1), of b 0] new_direct_models [OF assms(1), of b 0]
    unfolding frontier_handles_record.run_start_def frontier_indexed_record.run_start_def
    by (simp_all add: ordered_start)
  have given: "frontier_given b total_events cap publish_batch drain_batch use_handle n turns =
      (if use_handle
       then map_sum id cl_handlers (frontier_handles_record.run b n ?x [] (new_mixed cap n ?dflt 0) (new_ordered_tally, []) turns)
       else map_sum id cl_handlers (frontier_indexed_record.run b n ?x []
         (single_producer_disruptor cap n ?dflt 0) (new_ordered_tally, []) turns))"
    unfolding frontier_given_def frontier_handles_record.run_def frontier_indexed_record.run_def by (simp add: Let_def)
  have "frontier_handles_record.run_done b cap n ?x [] c \<Longrightarrow>
      map snd (cl_handlers c) = replicate n (whole_stream 0 total_events)"
    "frontier_indexed_record.run_done b cap n ?x [] c' \<Longrightarrow>
      map snd (cl_handlers c') = replicate n (whole_stream 0 total_events)" for c c'
    unfolding frontier_handles_record.run_done_def frontier_indexed_record.run_done_def
    by (simp_all add: total Let_def given_whole_stream)
  then show ?thesis using frontier_handles_record.run_result [OF start(1) assms(5)]
      frontier_indexed_record.run_result [OF start(2) assms(5)] unfolding given by auto
qed

section \<open>The full ring\<close>

text \<open>
  \<open>full_retry\<close> of \<open>next_frontier.cpp\<close>: fill the ring, drain all consumers but the last, then
  try to publish again and again. \<open>Inl None\<close> is \<open>std::abort\<close>, \<open>Inl (Some f)\<close> a failed assertion.
\<close>

fun drain_all_but_last :: "size_t \<Rightarrow> nat list \<Rightarrow> sized_event disruptor \<Rightarrow> failure option + sized_event disruptor" where
  "drain_all_but_last cap [] d = Inr d"
| "drain_all_but_last cap (i # is) d =
     (case consume_available d i cap (\<lambda>_ _ h. h) () of (n, d', _) \<Rightarrow>
        if n \<noteq> cap then Inl None else drain_all_but_last cap is d')"

fun retry_attempts :: "build \<Rightarrow> nat \<Rightarrow> u64 \<Rightarrow> sized_event disruptor \<Rightarrow> failure option + u64" where
  "retry_attempts b 0 rejected d = Inr rejected"
| "retry_attempts b (Suc attempts) rejected d =
     (case try_publish b d (\<lambda>e w. (e, w)) () of
        Inl f \<Rightarrow> Inl (Some f)
      | Inr (accepted, d', _) \<Rightarrow> retry_attempts b attempts (rejected + (if accepted then 0 else 1)) d')"

definition full_retry :: "build \<Rightarrow> size_t \<Rightarrow> nat \<Rightarrow> nat \<Rightarrow> failure option + bool" where
  "full_retry b cap n_consumers attempts =
     (case try_publish_batch b (single_producer_disruptor cap n_consumers \<lparr>se_value = 0, se_payload = []\<rparr> 0) cap
         (\<lambda>output index w. (output\<lparr>se_value := index\<rparr>, w)) () of
        Inl f \<Rightarrow> Inl (Some f)
      | Inr (accepted, d, _) \<Rightarrow>
          if \<not> accepted then Inl None
          else case drain_all_but_last cap [0..<n_consumers - 1] d of
            Inl e \<Rightarrow> Inl e
          | Inr d1 \<Rightarrow>
              (case try_publish b d1 (\<lambda>e w. (e, w)) () of
                 Inl f \<Rightarrow> Inl (Some f)
               | Inr (accepted1, d2, _) \<Rightarrow>
                   if accepted1 then Inl None
                   else case retry_attempts b attempts 0 d2 of
                     Inl e \<Rightarrow> Inl e
                   | Inr rejected \<Rightarrow> Inr (rejected = of_nat attempts)))"

lemma retry_attempts_full:
  assumes "direct_models b 0 cap n d log cs" "\<not> room_for (unat cap) log cs 1"
  shows "retry_attempts b attempts r d = Inr (r + of_nat attempts)"
  using assms(1)
proof (induction attempts arbitrary: r d)
  case (Suc attempts)
  obtain acc d' w' old where run: "try_publish_batch b d 1 (\<lambda>e _. (\<lambda>e w. (e, w)) e) () = Inr (acc, d', w')"
    and acc: "acc \<longleftrightarrow> room_for (unat cap) log cs (unat (1 :: size_t))"
    and m: "if acc then direct_models b 0 cap n d' (log @ fst (written (\<lambda>e _. (\<lambda>e w. (e, w)) e) old 0 ())) cs \<and>
        w' = snd (written (\<lambda>e _. (\<lambda>e w. (e, w)) e) old 0 ())
      else direct_models b 0 cap n d' log cs \<and> w' = ()"
    using direct.publish_law [OF Suc.prems, where count = 1 and writer = "\<lambda>e _. (\<lambda>e w. (e, w)) e" and w = "()"] by blast
  have "\<not> acc" using acc assms(2) by simp
  then show ?case using run m Suc.IH [of d' "r + 1"] by (simp add: try_publish_def)
qed simp

lemma drain_one:
  assumes m: "direct_models b 0 cap n d log cs" and i: "i < n" and all: "length log = cs ! i + unat cap"
  shows "\<exists>d'. consume_available d i cap handler h = (cap, d', deliver handler (of_nat (cs ! i)) (drop (cs ! i) log) h) \<and>
    direct_models b 0 cap n d' log (cs[i := length log])"
proof -
  have d: "ring_ok d" "represents 0 d log cs" "i < consumer_count d"
    using m i disruptor_ok_ring_ok by (auto simp: direct_models_def)
  from consume_available_spec(1) [OF d, where max_count = cap and handler = handler and h = h]
  obtain d1 where spec: "consume_available d i cap handler h =
      (cap, d1, deliver handler (of_nat (cs ! i)) (drop (cs ! i) log) h)"
    using all by (auto simp: next_events_def)
  from direct.consume_law [OF m i, where max_count = cap and handler = handler and h = h]
  obtain k d' where law: "consume_available d i cap handler h =
      (of_nat k, d', deliver handler (of_nat (cs ! i)) (take k (drop (cs ! i) log)) h)" "k \<le> unat cap"
    "direct_models b 0 cap n d' log (cs[i := cs ! i + k])"
    unfolding direct_consume_def by auto
  have "unat (of_nat k :: u64) = k" using law(2) by (rule unat_of_nat_le64)
  then have "k = unat cap" using spec law(1) by auto
  then show ?thesis using spec law all by auto
qed

lemma drain_all_but_last_models:
  assumes "direct_models b 0 cap n d log (replicate i (length log) @ replicate (n - i) 0)"
    and "length log = unat cap" "i < n"
  shows "\<exists>d'. drain_all_but_last cap [i..<n - 1] d = Inr d' \<and>
    direct_models b 0 cap n d' log (replicate (n - 1) (length log) @ [0])"
  using assms
proof (induction "n - 1 - i" arbitrary: i d)
  case 0
  then have "i = n - 1" by simp
  then show ?case using 0 by simp
next
  case (Suc m)
  then have i: "i < n - 1" by simp
  have upt: "[i..<n - 1] = i # [Suc i..<n - 1]" using i by (rule upt_conv_Cons)
  have "(replicate i (length log) @ replicate (n - i) 0) ! i = 0" using i by (simp add: nth_append)
  then obtain d' where run: "consume_available d i cap (\<lambda>_ _ h. h) () = (cap, d', ())"
    and m: "direct_models b 0 cap n d' log ((replicate i (length log) @ replicate (n - i) 0)[i := length log])"
    using drain_one [OF Suc.prems(1,3), where handler = "\<lambda>_ _ h. h" and h = "()"] Suc.prems(2) by auto
  have "(replicate i (length log) @ replicate (n - i) 0)[i := length log] =
      replicate (Suc i) (length log) @ replicate (n - Suc i) 0"
    using i by (intro nth_equalityI) (auto simp: nth_append nth_list_update simp del: replicate_Suc)
  then obtain d2 where "drain_all_but_last cap [Suc i..<n - 1] d' = Inr d2"
    "direct_models b 0 cap n d2 log (replicate (n - 1) (length log) @ [0])"
    using Suc.hyps(1) [of "Suc i" d'] Suc.hyps(2) m Suc.prems(2) i by (simp only:) fastforce
  then show ?case unfolding upt using run by simp
qed

lemma full_retry_result:
  assumes "template_ok cap n"
  shows "full_retry b cap n attempts = Inr True"
proof -
  let ?writer = "\<lambda>output index w. (output\<lparr>se_value := index\<rparr>, w)"
  have n: "0 < n" and cap: "0 < unat cap" using assms by (auto simp: template_ok_def unat_gt_0)
  note m0 = new_direct_models [OF assms, of b 0 "\<lparr>se_value = 0, se_payload = []\<rparr>"]
  have room: "room_for (unat cap) ([] :: sized_event list) (replicate n 0) (unat cap)" by (simp add: room_for_def)
  obtain acc d w' old where fill: "try_publish_batch b (single_producer_disruptor cap n \<lparr>se_value = 0, se_payload = []\<rparr> 0)
      cap ?writer () = Inr (acc, d, w')" and old: "length old = unat cap"
    and acc: "acc \<longleftrightarrow> room_for (unat cap) ([] :: sized_event list) (replicate n 0) (unat cap)"
    and m: "if acc then direct_models b 0 cap n d ([] @ fst (written ?writer old 0 ())) (replicate n 0) \<and>
        w' = snd (written ?writer old 0 ())
      else direct_models b 0 cap n d [] (replicate n 0) \<and> w' = ()"
    using direct.publish_law [OF m0, where count = cap and writer = ?writer and w = "()"]
    by blast
  have acc: "acc" using acc room by simp
  then have m1: "direct_models b 0 cap n d (fst (written ?writer old 0 ())) (replicate n 0)" using m by simp
  let ?log = "fst (written ?writer old 0 ())"
  have len: "length ?log = unat cap" using old by simp
  obtain d1 where drain: "drain_all_but_last cap [0..<n - 1] d = Inr d1"
    and m2: "direct_models b 0 cap n d1 ?log (replicate (n - 1) (length ?log) @ [0])"
    using drain_all_but_last_models [where i = 0, of b cap n d ?log] m1 len n by auto
  have full: "\<not> room_for (unat cap) ?log (replicate (n - 1) (length ?log) @ [0]) 1"
    using len cap by (simp add: room_for_def)
  obtain acc2 d2 w2 old2 where once: "try_publish_batch b d1 1 (\<lambda>e _. (\<lambda>e w. (e, w)) e) () = Inr (acc2, d2, w2)"
    and acc2: "acc2 \<longleftrightarrow> room_for (unat cap) ?log (replicate (n - 1) (length ?log) @ [0]) (unat (1 :: size_t))"
    and m3: "if acc2 then direct_models b 0 cap n d2 (?log @ fst (written (\<lambda>e _. (\<lambda>e w. (e, w)) e) old2 0 ()))
          (replicate (n - 1) (length ?log) @ [0]) \<and> w2 = snd (written (\<lambda>e _. (\<lambda>e w. (e, w)) e) old2 0 ())
      else direct_models b 0 cap n d2 ?log (replicate (n - 1) (length ?log) @ [0]) \<and> w2 = ()"
    using direct.publish_law [OF m2, where count = 1 and writer = "\<lambda>e _. (\<lambda>e w. (e, w)) e" and w = "()"] by blast
  have acc2: "\<not> acc2" using acc2 full by simp
  then have "retry_attempts b attempts 0 d2 = Inr (0 + of_nat attempts)"
    using m3 by (intro retry_attempts_full [OF _ full]) simp
  then show ?thesis using fill drain once acc acc2 by (simp add: full_retry_def try_publish_def)
qed

section \<open>Properties\<close>

text \<open>The checksums \<open>main\<close> of \<open>throughput.cpp\<close> compares are the ones its disruptor runs produce,
  whatever turns the threads take: a run with either batch size and either event type returns
  the expected checksum once for each word of the event, the multicast three times, no
  assertion fails, and the runs end when the threads keep getting turns.\<close>

theorem throughput_checksums:
  assumes "batch_size \<in> {1, 16}" "width \<in> {0, 7}" "\<forall>t \<in> set turns. turn_ok 1 t" "\<forall>t \<in> set turns3. turn_ok 3 t"
  shows "benchmark_disruptor b batch_size width turns \<in>
      {Inl Still_running, Inr (throughput_expected_checksum * (if width = 0 then 1 else 8))} \<and>
    (\<exists>m \<le> 2 * unat throughput_events. benchmark_disruptor b batch_size width (concat (replicate m (fair_round 1))) \<noteq>
      Inl Still_running) \<and>
    benchmark_multicast_disruptor b turns3 \<in> {Inl Still_running, Inr (throughput_expected_checksum * 3)} \<and>
    (\<exists>m \<le> 4 * unat throughput_events. benchmark_multicast_disruptor b (concat (replicate m (fair_round 3))) \<noteq>
      Inl Still_running)"
proof -
  have bs: "batch_size \<noteq> 0" "batch_size \<le> throughput_capacity"
    using assms(1) by (auto simp: throughput_capacity_def)
  have w: "of_nat (Suc width) * throughput_expected_checksum =
      throughput_expected_checksum * (if width = 0 then 1 else 8)"
    using assms(2) by (auto simp: mult.commute)
  show ?thesis
    using benchmark_disruptor_result(1) [OF bs assms(3), of b width, unfolded w]
      benchmark_disruptor_result(2) [OF bs, of b width]
      benchmark_multicast_result(1) [OF assms(4), of b] benchmark_multicast_result(2) [of b]
    by (metis Inr_not_Inl)
qed

theorem throughput_checksums_witness:
  "benchmark_disruptor Debug 16 7 [Producer_turn, Consumer_turn 0] \<in>
     {Inl Still_running, Inr (throughput_expected_checksum * 8)}"
  using throughput_checksums [of 16 7 "[Producer_turn, Consumer_turn 0]" "[Consumer_turn 2]" Debug]
  by (simp add: turn_ok_def)

text \<open>C40: The configuration sweep and the frontier benchmark print PASS, and PASS means what it says.
  For every capacity the class accepts, every number of consumers, batches that fit and up to
  2^32 events, on every schedule of turns, no assertion fails and a run that ends prints PASS;
  it ends when the threads keep getting turns. The printed result is that of the same run with
  recording handlers, in which every consumer's handler has been called with every event of the
  stream, in order, with its sequence, its value and every word of its payload, whether it
  consumes by index or by handle. The check itself is sound and complete: for any list of that
  many calls the tally passes exactly when the q-th call has the sequence and the value q and, in
  the sweep, every word of its payload is the one written for q.\<close>

theorem sweep_and_frontier_pass:
  assumes "template_ok cap n" "batch_size \<noteq> 0" "batch_size \<le> cap" "drain_batch \<noteq> 0"
    and "unat total_events \<le> 2 ^ 32" "\<forall>t \<in> set turns. turn_ok n t"
  shows "sweep_throughput b total_events cap batch_size width n turns \<in> {Inl Still_running, Inr True} \<and>
    frontier_throughput b total_events cap batch_size drain_batch use_handle n turns \<in> {Inl Still_running, Inr True} \<and>
    (\<exists>m \<le> Suc n * unat total_events.
      sweep_throughput b total_events cap batch_size width n (concat (replicate m (fair_round n))) = Inr True) \<and>
    (\<exists>m \<le> Suc n * unat total_events.
      frontier_throughput b total_events cap batch_size drain_batch use_handle n (concat (replicate m (fair_round n))) =
        Inr True) \<and>
    sweep_throughput b total_events cap batch_size width n turns =
      map_sum id (\<lambda>hs. all_pass total_events (map fst hs)) (sweep_given b total_events cap batch_size width n turns) \<and>
    (sweep_given b total_events cap batch_size width n turns = Inl Still_running \<or>
      (\<exists>hs. sweep_given b total_events cap batch_size width n turns = Inr hs \<and>
        map snd hs = replicate n (whole_stream width total_events))) \<and>
    frontier_throughput b total_events cap batch_size drain_batch use_handle n turns =
      map_sum id (\<lambda>hs. all_pass total_events (map fst hs))
        (frontier_given b total_events cap batch_size drain_batch use_handle n turns) \<and>
    (frontier_given b total_events cap batch_size drain_batch use_handle n turns = Inl Still_running \<or>
      (\<exists>hs. frontier_given b total_events cap batch_size drain_batch use_handle n turns = Inr hs \<and>
        map snd hs = replicate n (whole_stream 0 total_events))) \<and>
    (\<forall>seen. length seen = unat total_events \<longrightarrow>
      (all_pass total_events [tally_of (sweep_program total_events batch_size width) seen] \<longleftrightarrow>
        (\<forall>q < length seen. snd (seen ! q) = of_nat q \<and> se_value (fst (seen ! q)) = of_nat q \<and>
          payload_filled (fst (seen ! q)) (of_nat q))) \<and>
      (all_pass total_events [tally_of (frontier_program total_events batch_size drain_batch) seen] \<longleftrightarrow>
        (\<forall>q < length seen. snd (seen ! q) = of_nat q \<and> se_value (fst (seen ! q)) = of_nat q)))"
  by (intro conjI allI impI sweep_throughput_result [OF assms(1-3,5,6)] frontier_throughput_result [OF assms(1-6)]
    sweep_throughput_finishes [OF assms(1-3,5)] frontier_throughput_finishes [OF assms(1-5)]
    sweep_throughput_given [OF assms(6)] sweep_given_whole [OF assms(1-3,6)]
    frontier_throughput_given [OF assms(6)] frontier_given_whole [OF assms(1-4,6)]
    sweep_check_passes [OF assms(5)] frontier_check_passes [OF assms(5)])

theorem sweep_and_frontier_pass_witness:
  "sweep_throughput Debug 3 4 2 1 3 [Producer_turn, Consumer_turn 2] \<in> {Inl Still_running, Inr True} \<and>
   (\<exists>m \<le> Suc 3 * unat (3 :: u64). frontier_throughput Debug 3 4 2 64 True 3 (concat (replicate m (fair_round 3))) = Inr True) \<and>
   \<not> all_pass 3 [tally_of (sweep_program 3 2 1)
      [(\<lparr>se_value = 0, se_payload = [1]\<rparr>, 0), (\<lparr>se_value = 1, se_payload = [7]\<rparr>, 1), (\<lparr>se_value = 2, se_payload = [3]\<rparr>, 2)]]"
proof -
  let ?seen = "[(\<lparr>se_value = 0, se_payload = [1]\<rparr>, 0), (\<lparr>se_value = 1, se_payload = [7]\<rparr>, 1),
    (\<lparr>se_value = 2, se_payload = [3]\<rparr>, 2)] :: (sized_event \<times> u64) list"
  have t: "template_ok 4 3" by code_simp
  have turns: "\<forall>t \<in> set [Producer_turn, Consumer_turn 2]. turn_ok 3 t" by (simp add: turn_ok_def)
  have len: "length ?seen = unat (3 :: u64)" by simp
  have ok: "(2 :: size_t) \<noteq> 0" "(2 :: size_t) \<le> 4" "(64 :: size_t) \<noteq> 0" "unat (3 :: u64) \<le> 2 ^ 32" by simp_all
  have bad: "\<not> payload_filled (fst (?seen ! 1)) (of_nat 1)" by (simp add: payload_filled_def)
  have "1 < length ?seen" by simp
  with bad len show ?thesis
    using sweep_and_frontier_pass [OF t ok turns, of Debug 1 True] by blast
qed

text \<open>The full-ring benchmark measures what it says: once the ring is filled and every consumer
  but the last has drained it, every further publication is rejected, so that the count of
  rejected attempts equals the attempts and the program neither aborts nor asserts.\<close>

theorem full_retry_rejects_all:
  assumes "template_ok cap n"
  shows "full_retry b cap n attempts = Inr True"
  by (rule full_retry_result) (rule assms)

theorem full_retry_rejects_all_witness:
  "template_ok 1024 8 \<and> full_retry Debug 1024 8 100000000 = Inr True"
proof -
  have t: "template_ok 1024 8" by code_simp
  with full_retry_rejects_all [OF t, of Debug 100000000] show ?thesis by simp
qed

end
