(* ===== verification/Ring_Queues.thy ===== *)
theory Ring_Queues
  imports Throughput
begin

text \<open>
  The baselines of \<open>throughput.cpp\<close>: the mutex-protected ring and the single-producer
  single-consumer ring, behind the interface of a bounded queue, and the loops that pump
  values through one queue or through three. The mutex makes an operation of \<open>mutex_ring\<close>
  one step; an operation of \<open>spsc_ring\<close> is taken as one step, too.
\<close>

unbundle bit_operations_syntax

section \<open>The interface\<close>

text \<open>\<open>models q xs\<close>: the queue holds \<open>xs\<close>, oldest first. A failed \<open>try_pop\<close> leaves its out-parameter alone.\<close>

locale bounded_fifo =
  fixes push :: "'q \<Rightarrow> u64 \<Rightarrow> bool \<times> 'q"
    and pop :: "'q \<Rightarrow> u64 \<Rightarrow> bool \<times> u64 \<times> 'q"
    and models :: "'q \<Rightarrow> u64 list \<Rightarrow> bool"
    and room :: nat
  assumes room_pos: "0 < room"
    and bounded: "models q xs \<Longrightarrow> length xs \<le> room"
    and push_law: "models q xs \<Longrightarrow> \<exists>q'. push q v = (length xs < room, q') \<and>
      models q' (if length xs < room then xs @ [v] else xs)"
    and pop_law: "models q xs \<Longrightarrow> \<exists>q'. pop q out = (xs \<noteq> [], if xs = [] then out else hd xs, q') \<and> models q' (tl xs)"

section \<open>The mutex ring\<close>

record mutex_ring =
  mr_values :: "u64 list"
  mr_read_index :: size_t
  mr_write_index :: size_t
  mr_size :: size_t

definition new_mutex_ring :: mutex_ring where
  "new_mutex_ring = \<lparr>mr_values = replicate (unat throughput_capacity) 0, mr_read_index = 0, mr_write_index = 0, mr_size = 0\<rparr>"

definition mutex_try_push :: "mutex_ring \<Rightarrow> u64 \<Rightarrow> bool \<times> mutex_ring" where
  "mutex_try_push q v =
     (if mr_size q = throughput_capacity then (False, q)
      else (True, q\<lparr>mr_values := (mr_values q)[unat (mr_write_index q) := v],
                    mr_write_index := (mr_write_index q + 1) mod throughput_capacity,
                    mr_size := mr_size q + 1\<rparr>))"

definition mutex_try_pop :: "mutex_ring \<Rightarrow> u64 \<Rightarrow> bool \<times> u64 \<times> mutex_ring" where
  "mutex_try_pop q out =
     (if mr_size q = 0 then (False, out, q)
      else (True, mr_values q ! unat (mr_read_index q),
            q\<lparr>mr_read_index := (mr_read_index q + 1) mod throughput_capacity, mr_size := mr_size q - 1\<rparr>))"

text \<open>The slots from the read index on hold the queue.\<close>

definition ring_slots :: "u64 list \<Rightarrow> nat \<Rightarrow> nat \<Rightarrow> u64 list" where
  "ring_slots vs r n = map (\<lambda>i. vs ! ((r + i) mod length vs)) [0..<n]"

definition mutex_models :: "mutex_ring \<Rightarrow> u64 list \<Rightarrow> bool" where
  "mutex_models q xs \<longleftrightarrow> length (mr_values q) = unat throughput_capacity \<and> length xs \<le> unat throughput_capacity \<and>
     unat (mr_read_index q) < unat throughput_capacity \<and> mr_size q = of_nat (length xs) \<and>
     unat (mr_write_index q) = (unat (mr_read_index q) + length xs) mod unat throughput_capacity \<and>
     xs = ring_slots (mr_values q) (unat (mr_read_index q)) (length xs)"

lemma capacity_power: "unat throughput_capacity = 2 ^ 16"
  by (simp add: throughput_capacity_def)

lemma length_ring_slots [simp]: "length (ring_slots vs r n) = n"
  by (simp add: ring_slots_def)

lemma ring_slots_push:
  assumes "n < length vs" "w = (r + n) mod length vs"
  shows "ring_slots (vs[w := v]) r (Suc n) = ring_slots vs r n @ [v]"
proof -
  have "vs[w := v] ! ((r + i) mod length vs) = vs ! ((r + i) mod length vs)" if "i < n" for i
    using mod_add_inj [of r i "length vs" n] that assms by (intro nth_list_update_neq) auto
  moreover have "w < length vs" using assms by (cases vs) auto
  ultimately show ?thesis using assms(2) by (simp add: ring_slots_def)
qed

lemma ring_slots_tl: "tl (ring_slots vs r n) = ring_slots vs (Suc r) (n - 1)"
proof (cases n)
  case (Suc m)
  have "[0..<Suc m] = 0 # map Suc [0..<m]" by (simp add: map_Suc_upt upt_conv_Cons del: upt_Suc)
  then show ?thesis by (simp add: ring_slots_def Suc del: upt_Suc)
qed (simp add: ring_slots_def)

lemma ring_slots_hd: "0 < n \<Longrightarrow> r < length vs \<Longrightarrow> hd (ring_slots vs r n) = vs ! r"
  by (cases n) (simp_all add: ring_slots_def upt_conv_Cons del: upt_Suc)

lemma ring_slots_mod: "ring_slots vs (r mod length vs) n = ring_slots vs r n"
  by (simp add: ring_slots_def mod_add_left_eq)

lemma unat_next_index: "unat i < unat throughput_capacity \<Longrightarrow>
    unat ((i + 1) mod throughput_capacity) = Suc (unat i) mod unat throughput_capacity"
  using unat_add_no_wrap [of i 1] capacity_power by (simp add: unat_mod)

interpretation mutex: bounded_fifo mutex_try_push mutex_try_pop mutex_models "unat throughput_capacity"
proof unfold_locales
  show "0 < unat throughput_capacity" using capacity_power by simp
  show "mutex_models q xs \<Longrightarrow> length xs \<le> unat throughput_capacity" for q xs by (simp add: mutex_models_def)
next
  fix q xs v
  assume m: "mutex_models q xs"
  have sz: "unat (mr_size q) = length xs"
    using m capacity_power by (simp add: mutex_models_def unat_of_nat64)
  then have full: "mr_size q = throughput_capacity \<longleftrightarrow> \<not> length xs < unat throughput_capacity"
    using m by (auto simp: mutex_models_def word_unat_eq_iff)
  show "\<exists>q'. mutex_try_push q v = (length xs < unat throughput_capacity, q') \<and>
      mutex_models q' (if length xs < unat throughput_capacity then xs @ [v] else xs)"
  proof (cases "length xs < unat throughput_capacity")
    case True
    let ?w = "unat (mr_write_index q)"
    have w: "?w = (unat (mr_read_index q) + length xs) mod length (mr_values q)" "?w < unat throughput_capacity"
      using m True by (auto simp: mutex_models_def)
    have "ring_slots ((mr_values q)[?w := v]) (unat (mr_read_index q)) (Suc (length xs)) = xs @ [v]"
      using ring_slots_push [OF _ w(1)] m True by (simp add: mutex_models_def)
    moreover have "unat ((mr_write_index q + 1) mod throughput_capacity) =
        (unat (mr_read_index q) + Suc (length xs)) mod unat throughput_capacity"
      unfolding unat_next_index [OF w(2)] using w(1) m by (simp add: mutex_models_def mod_Suc_eq)
    ultimately show ?thesis using m True full
      by (simp add: mutex_try_push_def mutex_models_def add.commute)
  next
    case False
    then show ?thesis using m full by (simp add: mutex_try_push_def)
  qed
next
  fix q xs out
  assume m: "mutex_models q xs"
  have sz: "unat (mr_size q) = length xs"
    using m capacity_power by (simp add: mutex_models_def unat_of_nat64)
  show "\<exists>q'. mutex_try_pop q out = (xs \<noteq> [], if xs = [] then out else hd xs, q') \<and> mutex_models q' (tl xs)"
  proof (cases "xs = []")
    case True
    then have "mr_size q = 0" using sz by (simp add: word_unat_eq_iff)
    then show ?thesis using m True by (simp add: mutex_try_pop_def)
  next
    case False
    then have pos: "mr_size q \<noteq> 0" "0 < length xs" using sz by auto
    let ?r = "unat (mr_read_index q)"
    have r: "?r < unat throughput_capacity" "length (mr_values q) = unat throughput_capacity"
      and xs: "xs = ring_slots (mr_values q) ?r (length xs)" using m by (auto simp: mutex_models_def)
    have hd: "hd xs = mr_values q ! ?r" using ring_slots_hd [of "length xs" ?r "mr_values q"] pos(2) r xs by simp
    have tl: "tl xs = ring_slots (mr_values q) (Suc ?r mod unat throughput_capacity) (length (tl xs))"
      using ring_slots_tl [of "mr_values q" ?r "length xs"] xs ring_slots_mod [of "mr_values q" "Suc ?r"] r(2) by simp
    have "(Suc ?r mod unat throughput_capacity + length (tl xs)) mod unat throughput_capacity =
        (?r + length xs) mod unat throughput_capacity"
      using pos(2) by (cases xs) (simp_all add: mod_add_left_eq)
    moreover have "mr_size q - 1 = of_nat (length (tl xs))" using m pos(2) by (cases xs) (simp_all add: mutex_models_def)
    moreover have "length xs \<le> unat throughput_capacity" using m by (simp add: mutex_models_def)
    then have "length (tl xs) \<le> unat throughput_capacity" by simp
    ultimately show ?thesis using m False pos(1) hd tl r
      by (simp add: mutex_try_pop_def mutex_models_def unat_next_index)
  qed
qed

section \<open>The single-producer single-consumer ring\<close>

record spsc_ring =
  sp_values :: "u64 list"
  sp_read :: u64
  sp_write :: u64

definition new_spsc_ring :: spsc_ring where
  "new_spsc_ring = \<lparr>sp_values = replicate (unat throughput_capacity) 0, sp_read = 0, sp_write = 0\<rparr>"

definition spsc_try_push :: "spsc_ring \<Rightarrow> u64 \<Rightarrow> bool \<times> spsc_ring" where
  "spsc_try_push q v =
     (let next = sp_write q + 1
      in if next - sp_read q > throughput_capacity then (False, q)
         else (True, q\<lparr>sp_values := (sp_values q)[unat (sp_write q AND (throughput_capacity - 1)) := v],
                       sp_write := next\<rparr>))"

definition spsc_try_pop :: "spsc_ring \<Rightarrow> u64 \<Rightarrow> bool \<times> u64 \<times> spsc_ring" where
  "spsc_try_pop q out =
     (if sp_read q = sp_write q then (False, out, q)
      else (True, sp_values q ! unat (sp_read q AND (throughput_capacity - 1)), q\<lparr>sp_read := sp_read q + 1\<rparr>))"

definition spsc_models :: "spsc_ring \<Rightarrow> u64 list \<Rightarrow> bool" where
  "spsc_models q xs \<longleftrightarrow> length (sp_values q) = unat throughput_capacity \<and> length xs \<le> unat throughput_capacity \<and>
     sp_write q = sp_read q + of_nat (length xs) \<and> xs = ring_slots (sp_values q) (unat (sp_read q)) (length xs)"

lemma unat_masked: "unat (p AND (throughput_capacity - 1)) = unat p mod unat throughput_capacity"
  by (rule unat_mask_power2 [OF capacity_power])

lemma unat_position_mod:
  "unat (p + of_nat n :: u64) mod unat throughput_capacity = (unat p + n) mod unat throughput_capacity"
proof -
  have "unat (p + of_nat n) mod unat throughput_capacity =
      (unat p + unat (of_nat n :: u64) mod unat throughput_capacity) mod unat throughput_capacity"
    unfolding mod_add_right_eq by (rule unat_add_mod_power2 [OF capacity_power]) simp
  also have "unat (of_nat n :: u64) mod unat throughput_capacity = n mod unat throughput_capacity"
    by (rule unat_of_nat_mod_power2 [OF capacity_power]) simp
  finally show ?thesis by (simp only: mod_add_right_eq)
qed

lemma ring_slots_advance: "length vs = unat throughput_capacity \<Longrightarrow>
    ring_slots vs (unat (p + 1 :: u64)) n = ring_slots vs (Suc (unat p)) n"
  using ring_slots_mod [of vs "unat (p + 1)" n] ring_slots_mod [of vs "Suc (unat p)" n] unat_position_mod [of p 1]
  by (simp del: unat_word_ariths)

interpretation spsc: bounded_fifo spsc_try_push spsc_try_pop spsc_models "unat throughput_capacity"
proof unfold_locales
  show "0 < unat throughput_capacity" using capacity_power by simp
  show "spsc_models q xs \<Longrightarrow> length xs \<le> unat throughput_capacity" for q xs by (simp add: spsc_models_def)
next
  fix q xs v
  assume m: "spsc_models q xs"
  have step: "sp_write q + 1 - sp_read q = of_nat (Suc (length xs))" using m by (simp add: spsc_models_def)
  have "unat (of_nat (Suc (length xs)) :: u64) = Suc (length xs)"
    using m capacity_power by (intro unat_of_nat64) (simp add: spsc_models_def)
  then have full: "sp_write q + 1 - sp_read q > throughput_capacity \<longleftrightarrow> \<not> length xs < unat throughput_capacity"
    unfolding step word_less_nat_alt by auto
  show "\<exists>q'. spsc_try_push q v = (length xs < unat throughput_capacity, q') \<and>
      spsc_models q' (if length xs < unat throughput_capacity then xs @ [v] else xs)"
  proof (cases "length xs < unat throughput_capacity")
    case True
    have w: "unat (sp_write q AND (throughput_capacity - 1)) =
        (unat (sp_read q) + length xs) mod length (sp_values q)"
      using m unat_position_mod [of "sp_read q" "length xs"] by (simp add: unat_masked spsc_models_def)
    have "ring_slots ((sp_values q)[unat (sp_write q AND (throughput_capacity - 1)) := v])
        (unat (sp_read q)) (Suc (length xs)) = xs @ [v]"
      using ring_slots_push [OF _ w] m True by (simp add: spsc_models_def)
    then show ?thesis using m True full
      by (simp add: spsc_try_push_def spsc_models_def Let_def)
  next
    case False
    then show ?thesis using m full by (simp add: spsc_try_push_def Let_def)
  qed
next
  fix q xs out
  assume m: "spsc_models q xs"
  have len: "unat (of_nat (length xs) :: u64) = length xs"
    using m capacity_power by (intro unat_of_nat64) (simp add: spsc_models_def)
  have empty: "sp_read q = sp_write q \<longleftrightarrow> xs = []"
  proof
    assume "sp_read q = sp_write q"
    then have "(of_nat (length xs) :: u64) = 0" using m by (simp add: spsc_models_def)
    then show "xs = []" using len by simp
  qed (use m in \<open>simp add: spsc_models_def\<close>)
  show "\<exists>q'. spsc_try_pop q out = (xs \<noteq> [], if xs = [] then out else hd xs, q') \<and> spsc_models q' (tl xs)"
  proof (cases "xs = []")
    case True
    then show ?thesis using m empty by (simp add: spsc_try_pop_def)
  next
    case False
    let ?r = "unat (sp_read q)" and ?n = "length (sp_values q)"
    have lv: "?n = unat throughput_capacity" "0 < ?n" and xs: "xs = ring_slots (sp_values q) ?r (length xs)"
      using m capacity_power by (simp_all add: spsc_models_def)
    have pos: "0 < length xs" using False by simp
    have "hd (ring_slots (sp_values q) (?r mod ?n) (length xs)) = sp_values q ! (?r mod ?n)"
      using lv(2) pos by (intro ring_slots_hd) simp_all
    then have hd: "hd xs = sp_values q ! unat (sp_read q AND (throughput_capacity - 1))"
      using ring_slots_mod [of "sp_values q" ?r "length xs"] xs unfolding unat_masked lv(1) by metis
    have tl: "tl xs = ring_slots (sp_values q) (unat (sp_read q + 1)) (length (tl xs))"
      using ring_slots_tl [of "sp_values q" ?r "length xs"] xs ring_slots_advance [OF lv(1)] by simp
    have "sp_write q = sp_read q + 1 + of_nat (length (tl xs))"
      using m pos by (cases xs) (simp_all add: spsc_models_def)
    moreover have "length xs \<le> unat throughput_capacity" using m by (simp add: spsc_models_def)
    then have "length (tl xs) \<le> unat throughput_capacity" by simp
    ultimately show ?thesis using False empty hd tl lv(1)
      by (simp add: spsc_try_pop_def spsc_models_def)
  qed
qed

section \<open>Pumping values through queues\<close>

text \<open>
  The producer pushes each value into every queue in turn, retrying a full one; the thread of
  each queue pops until it has had \<open>total\<close> values. One queue gives the loops of the mutex and
  SPSC benchmarks, three those of the fan-out.
\<close>

record popper =
  po_value :: u64
  po_consumed :: u64
  po_checksum :: u64

record 'q pump =
  pu_queues :: "'q list"
  pu_value :: u64
  pu_index :: nat
  pu_poppers :: "popper list"

definition push_turn :: "('q \<Rightarrow> u64 \<Rightarrow> bool \<times> 'q) \<Rightarrow> u64 \<Rightarrow> 'q pump \<Rightarrow> 'q pump" where
  "push_turn push n_events c =
     (if pu_value c < n_events
      then case push (pu_queues c ! pu_index c) (pu_value c) of (pushed, q') \<Rightarrow>
        let c' = c\<lparr>pu_queues := (pu_queues c)[pu_index c := q']\<rparr>
        in if \<not> pushed then c'
           else if Suc (pu_index c) < length (pu_queues c) then c'\<lparr>pu_index := Suc (pu_index c)\<rparr>
           else c'\<lparr>pu_index := 0, pu_value := pu_value c + 1\<rparr>
      else c)"

definition pop_turn :: "('q \<Rightarrow> u64 \<Rightarrow> bool \<times> u64 \<times> 'q) \<Rightarrow> u64 \<Rightarrow> nat \<Rightarrow> 'q pump \<Rightarrow> 'q pump" where
  "pop_turn pop n_events i c =
     (let t = pu_poppers c ! i
      in if po_consumed t < n_events
         then case pop (pu_queues c ! i) (po_value t) of (popped, v, q') \<Rightarrow>
           c\<lparr>pu_queues := (pu_queues c)[i := q'],
             pu_poppers := (pu_poppers c)[i :=
               (if popped then \<lparr>po_value = v, po_consumed = po_consumed t + 1, po_checksum = po_checksum t + v\<rparr>
                else t\<lparr>po_value := v\<rparr>)]\<rparr>
         else c)"

definition pump_turn :: "('q \<Rightarrow> u64 \<Rightarrow> bool \<times> 'q) \<Rightarrow> ('q \<Rightarrow> u64 \<Rightarrow> bool \<times> u64 \<times> 'q) \<Rightarrow> u64 \<Rightarrow> turn \<Rightarrow> 'q pump \<Rightarrow> 'q pump" where
  "pump_turn push pop n_events t c =
     (case t of Producer_turn \<Rightarrow> push_turn push n_events c | Consumer_turn i \<Rightarrow> pop_turn pop n_events i c)"

definition pump_finished :: "u64 \<Rightarrow> 'q pump \<Rightarrow> bool" where
  "pump_finished n_events c \<longleftrightarrow> \<not> pu_value c < n_events \<and> (\<forall>t \<in> set (pu_poppers c). \<not> po_consumed t < n_events)"

definition new_pump :: "'q \<Rightarrow> nat \<Rightarrow> 'q pump" where
  "new_pump q n = \<lparr>pu_queues = replicate n q, pu_value = 0, pu_index = 0,
     pu_poppers = replicate n \<lparr>po_value = 0, po_consumed = 0, po_checksum = 0\<rparr>\<rparr>"

text \<open>The sum of the checksums when all loops have ended, \<open>None\<close> if the schedule ends before.\<close>

definition pump_checksum :: "('q \<Rightarrow> u64 \<Rightarrow> bool \<times> 'q) \<Rightarrow> ('q \<Rightarrow> u64 \<Rightarrow> bool \<times> u64 \<times> 'q) \<Rightarrow> 'q \<Rightarrow> nat \<Rightarrow>
    turn list \<Rightarrow> u64 option" where
  "pump_checksum push pop q n turns =
     (let c = fold (pump_turn push pop throughput_events) turns (new_pump q n)
      in if pump_finished throughput_events c then Some (sum_list (map po_checksum (pu_poppers c))) else None)"

definition benchmark_mutex_ring :: "turn list \<Rightarrow> u64 option" where
  "benchmark_mutex_ring turns = pump_checksum mutex_try_push mutex_try_pop new_mutex_ring 1 turns"

definition benchmark_spsc_ring :: "turn list \<Rightarrow> u64 option" where
  "benchmark_spsc_ring turns = pump_checksum spsc_try_push spsc_try_pop new_spsc_ring 1 turns"

definition benchmark_three_spsc_rings :: "turn list \<Rightarrow> u64 option" where
  "benchmark_three_spsc_rings turns = pump_checksum spsc_try_push spsc_try_pop new_spsc_ring 3 turns"

text \<open>How many values queue \<open>i\<close> has been sent when the producer is at value \<open>p\<close> and queue \<open>j\<close>.\<close>

definition sent_to :: "nat \<Rightarrow> nat \<Rightarrow> nat \<Rightarrow> nat" where
  "sent_to p j i = (if i < j then Suc p else p)"

definition popper_ok :: "popper \<Rightarrow> nat \<Rightarrow> bool" where
  "popper_ok t k \<longleftrightarrow> po_consumed t = of_nat k \<and> po_checksum t = (\<Sum>q<k. of_nat q)"

context bounded_fifo
begin

definition pump_at :: "u64 \<Rightarrow> nat \<Rightarrow> 'q pump \<Rightarrow> nat \<Rightarrow> nat \<Rightarrow> nat list \<Rightarrow> bool" where
  "pump_at n_events n c p j ks \<longleftrightarrow> length ks = n \<and> j < n \<and> p \<le> unat n_events \<and> (p = unat n_events \<longrightarrow> j = 0) \<and>
     pu_value c = of_nat p \<and> pu_index c = j \<and> length (pu_queues c) = n \<and> length (pu_poppers c) = n \<and>
     (\<forall>i < n. ks ! i \<le> sent_to p j i \<and> popper_ok (pu_poppers c ! i) (ks ! i) \<and>
        models (pu_queues c ! i) (map of_nat [ks ! i..<sent_to p j i]))"

lemma pump_at_sent:
  assumes "pump_at n_events n c p j ks" "i < n"
  shows "sent_to p j i \<le> unat n_events" "ks ! i \<le> unat n_events" "unat (of_nat (ks ! i) :: u64) = ks ! i"
proof -
  show le: "sent_to p j i \<le> unat n_events" using assms by (cases "p = unat n_events") (auto simp: pump_at_def sent_to_def)
  show "ks ! i \<le> unat n_events" using le assms by (auto simp: pump_at_def intro: order_trans)
  then show "unat (of_nat (ks ! i) :: u64) = ks ! i" by (rule unat_of_nat_le64)
qed

lemma push_turn_at:
  assumes at: "pump_at n_events n c p j ks"
  shows "\<exists>p' j'. pump_at n_events n (push_turn push n_events c) p' j' ks \<and> n * p + j \<le> n * p' + j' \<and>
    (p < unat n_events \<longrightarrow> n * p + j < n * p' + j' \<or> ks ! j < p)"
proof (cases "p < unat n_events")
  case False
  then have "push_turn push n_events c = c"
    using at unat_of_nat_le64 [of p n_events] by (simp add: push_turn_def pump_at_def word_nat)
  then show ?thesis using at False by auto
next
  case True
  have j: "j < n" and shape: "length ks = n" "pu_value c = of_nat p" "pu_index c = j"
    "length (pu_queues c) = n" "length (pu_poppers c) = n"
    and all: "\<And>i. i < n \<Longrightarrow> ks ! i \<le> sent_to p j i \<and> popper_ok (pu_poppers c ! i) (ks ! i) \<and>
      models (pu_queues c ! i) (map of_nat [ks ! i..<sent_to p j i])"
    using at by (auto simp: pump_at_def)
  have sj: "sent_to p j j = p" by (simp add: sent_to_def)
  have kj: "ks ! j \<le> p" "models (pu_queues c ! j) (map of_nat [ks ! j..<p])" using all [OF j] sj by auto
  obtain q' where push: "push (pu_queues c ! j) (of_nat p) = (p - ks ! j < room, q')"
    and q': "models q' (if p - ks ! j < room then map of_nat [ks ! j..<p] @ [of_nat p] else map of_nat [ks ! j..<p])"
    using push_law [OF kj(2), of "of_nat p"] by auto
  have less: "pu_value c < n_events" using True unat_of_nat_le64 [of p n_events] shape(2) by (simp add: word_nat)
  show ?thesis
  proof (cases "p - ks ! j < room")
    case False
    then have "push_turn push n_events c = c\<lparr>pu_queues := (pu_queues c)[j := q']\<rparr>"
      using less push shape(2,3) by (simp add: push_turn_def Let_def)
    moreover have "pump_at n_events n (c\<lparr>pu_queues := (pu_queues c)[j := q']\<rparr>) p j ks"
      using at q' False sj by (auto simp: pump_at_def nth_list_update)
    moreover have "ks ! j < p" using False room_pos by simp
    ultimately show ?thesis by (intro exI [of _ p] exI [of _ j]) simp
  next
    case pushed: True
    have qj: "models q' (map of_nat [ks ! j..<Suc p])" using q' pushed kj(1) by simp
    define c' where "c' = c\<lparr>pu_queues := (pu_queues c)[j := q']\<rparr>"
    have more: "ks ! i \<le> (if i \<le> j then Suc p else p) \<and> popper_ok (pu_poppers c ! i) (ks ! i) \<and>
        models ((pu_queues c)[j := q'] ! i) (map of_nat [ks ! i..<if i \<le> j then Suc p else p])" if "i < n" for i
      using all [OF that] qj kj(1) shape(4) j by (cases i j rule: linorder_cases) (auto simp: sent_to_def nth_list_update)
    show ?thesis
    proof (cases "Suc j < n")
      case True
      have "push_turn push n_events c = c'\<lparr>pu_index := Suc j\<rparr>"
        using less push shape(2-4) pushed True by (simp add: push_turn_def Let_def c'_def)
      moreover have "sent_to p (Suc j) i = (if i \<le> j then Suc p else p)" for i by (simp add: sent_to_def less_Suc_eq_le)
      then have "pump_at n_events n (c'\<lparr>pu_index := Suc j\<rparr>) p (Suc j) ks"
        using more shape True \<open>p < unat n_events\<close> by (simp add: pump_at_def c'_def)
      ultimately show ?thesis by (intro exI [of _ p] exI [of _ "Suc j"]) simp
    next
      case False
      then have n: "n = Suc j" using j by simp
      have "push_turn push n_events c = c'\<lparr>pu_index := 0, pu_value := of_nat p + 1\<rparr>"
        using less push shape(2-4) pushed False by (simp add: push_turn_def Let_def c'_def)
      moreover have "sent_to (Suc p) 0 i = (if i \<le> j then Suc p else p)" if "i < n" for i
        using that by (simp add: sent_to_def n)
      then have "pump_at n_events n (c'\<lparr>pu_index := 0, pu_value := of_nat p + 1\<rparr>) (Suc p) 0 ks"
        using more shape \<open>p < unat n_events\<close> by (simp add: pump_at_def c'_def n)
      ultimately show ?thesis by (intro exI [of _ "Suc p"] exI [of _ 0]) (simp add: n)
    qed
  qed
qed

lemma pop_turn_at:
  assumes at: "pump_at n_events n c p j ks" and i: "i < n"
  shows "\<exists>k. pump_at n_events n (pop_turn pop n_events i c) p j (ks[i := k]) \<and> ks ! i \<le> k \<and>
    (ks ! i < sent_to p j i \<longrightarrow> ks ! i < k)"
proof (cases "ks ! i < unat n_events")
  case False
  then have "pop_turn pop n_events i c = c" "\<not> ks ! i < sent_to p j i"
    using at i pump_at_sent [OF at i] by (auto simp: pop_turn_def pump_at_def popper_ok_def word_nat Let_def)
  then show ?thesis using at by (intro exI [of _ "ks ! i"]) simp
next
  case True
  let ?t = "pu_poppers c ! i" and ?xs = "map of_nat [ks ! i..<sent_to p j i] :: u64 list"
  have m: "models (pu_queues c ! i) ?xs" and t: "popper_ok ?t (ks ! i)" and le: "ks ! i \<le> sent_to p j i"
    and shape: "length ks = n" "length (pu_queues c) = n" "length (pu_poppers c) = n"
    using at i by (auto simp: pump_at_def)
  have less: "po_consumed ?t < n_events"
    using True t pump_at_sent(3) [OF at i] by (simp add: popper_ok_def word_nat)
  obtain q' where pop: "pop (pu_queues c ! i) (po_value ?t) = (?xs \<noteq> [], if ?xs = [] then po_value ?t else hd ?xs, q')"
    and q': "models q' (tl ?xs)"
    using pop_law [OF m, of "po_value ?t"] by blast
  let ?k = "if ?xs = [] then ks ! i else Suc (ks ! i)"
  have "models q' (map of_nat [?k..<sent_to p j i]) \<and> ?k \<le> sent_to p j i"
    using q' le by (cases "ks ! i < sent_to p j i") (simp_all add: upt_conv_Cons)
  moreover have "popper_ok (pu_poppers (pop_turn pop n_events i c) ! i) ?k"
    using t less pop shape i by (auto simp: pop_turn_def Let_def popper_ok_def upt_conv_Cons add.commute)
  moreover have "pu_queues (pop_turn pop n_events i c) = (pu_queues c)[i := q']"
    using less pop by (simp add: pop_turn_def Let_def)
  moreover have "pu_poppers (pop_turn pop n_events i c) ! i' = pu_poppers c ! i'" if "i' \<noteq> i" for i'
    using less pop that by (simp add: pop_turn_def Let_def)
  moreover have "pu_value (pop_turn pop n_events i c) = pu_value c" "pu_index (pop_turn pop n_events i c) = pu_index c"
    "length (pu_poppers (pop_turn pop n_events i c)) = n"
    using less pop shape by (simp_all add: pop_turn_def Let_def)
  ultimately have "pump_at n_events n (pop_turn pop n_events i c) p j (ks[i := ?k])"
    using at i shape unfolding pump_at_def by (auto simp: nth_list_update)
  then show ?thesis by (intro exI [of _ ?k]) auto
qed

lemma pump_turns_at:
  assumes at: "pump_at n_events n c p j ks" and ts: "\<forall>t \<in> set ts. turn_ok n t"
  shows "\<exists>p' j' ks'. pump_at n_events n (fold (pump_turn push pop n_events) ts c) p' j' ks' \<and>
    n * p + j \<le> n * p' + j' \<and> list_all2 (\<le>) ks ks'"
  using at ts
proof (induction ts arbitrary: c p j ks)
  case Nil
  then show ?case by (auto intro: list_all2_refl)
next
  case (Cons t ts)
  obtain p1 j1 ks1 where one: "pump_at n_events n (pump_turn push pop n_events t c) p1 j1 ks1"
    "n * p + j \<le> n * p1 + j1" "list_all2 (\<le>) ks ks1"
  proof (cases t)
    case Producer_turn
    then show ?thesis using push_turn_at [OF Cons.prems(1)] that by (auto simp: pump_turn_def intro: list_all2_refl)
  next
    case (Consumer_turn i)
    then have "i < n" using Cons.prems(2) by (simp add: turn_ok_def)
    from pop_turn_at [OF Cons.prems(1) this] show ?thesis
      using Consumer_turn that list_all2_raise [of ks i] by (auto simp: pump_turn_def)
  qed
  obtain p' j' ks' where "pump_at n_events n (fold (pump_turn push pop n_events) ts (pump_turn push pop n_events t c)) p' j' ks'"
    "n * p1 + j1 \<le> n * p' + j'" "list_all2 (\<le>) ks1 ks'"
    using Cons.IH [OF one(1)] Cons.prems(2) by auto
  then show ?case using one(2,3) list_all2_trans [of "(\<le>)" "(\<le>)" "(\<le>)" ks ks1 ks']
    by (intro exI [of _ p'] exI [of _ j'] exI [of _ ks']) auto
qed

lemma pump_finished_at:
  assumes at: "pump_at n_events n c p j ks"
  shows "pump_finished n_events c \<longleftrightarrow> p = unat n_events \<and> (\<forall>i < n. ks ! i = unat n_events)"
proof -
  have "pu_value c = of_nat p" "p \<le> unat n_events" "length (pu_poppers c) = n"
    and cons: "\<And>i. i < n \<Longrightarrow> po_consumed (pu_poppers c ! i) = of_nat (ks ! i)"
    using at by (auto simp: pump_at_def popper_ok_def)
  moreover from this(2) have "unat (of_nat p :: u64) = p" by (rule unat_of_nat_le64)
  ultimately show ?thesis using pump_at_sent(2,3) [OF at]
    by (auto simp: pump_finished_def word_nat all_set_conv_all_nth not_less intro: le_antisym)
qed

lemma pump_round_at:
  assumes at: "pump_at n_events n c p j ks" and open': "\<not> pump_finished n_events c"
  shows "\<exists>p' j' ks'. pump_at n_events n (fold (pump_turn push pop n_events) (fair_round n) c) p' j' ks' \<and>
    n * p + j + sum_list ks < n * p' + j' + sum_list ks'"
proof -
  let ?run = "\<lambda>ts c. fold (pump_turn push pop n_events) ts c"
  obtain p1 j1 where one: "pump_at n_events n (push_turn push n_events c) p1 j1 ks" "n * p + j \<le> n * p1 + j1"
    and progress: "p < unat n_events \<longrightarrow> n * p + j < n * p1 + j1 \<or> ks ! j < p"
    using push_turn_at [OF at] by blast
  show ?thesis
  proof (cases "n * p + j < n * p1 + j1")
    case True
    obtain p' j' ks' where "pump_at n_events n (?run (map Consumer_turn [0..<n]) (push_turn push n_events c)) p' j' ks'"
      "n * p1 + j1 \<le> n * p' + j'" "list_all2 (\<le>) ks ks'"
      using pump_turns_at [OF one(1), of "map Consumer_turn [0..<n]"] by (auto simp: turn_ok_def)
    then show ?thesis using True sum_list_all2_le [of ks ks']
      by (intro exI [of _ p'] exI [of _ j'] exI [of _ ks']) (simp add: fair_round_def pump_turn_def)
  next
    case False
    then have same: "n * p1 + j1 = n * p + j" using one(2) by simp
    have "j < n" "j1 < n" using at one(1) by (auto simp: pump_at_def)
    then have pj: "p1 = p" "j1 = j"
      using arg_cong [OF same, of "\<lambda>x. x div n"] arg_cong [OF same, of "\<lambda>x. x mod n"] by simp_all
    obtain i where i: "i < n" "ks ! i < sent_to p j i"
    proof (cases "p < unat n_events")
      case True
      then show ?thesis using progress False \<open>j < n\<close> that [of j] by (simp add: sent_to_def)
    next
      case False
      then have p: "p = unat n_events" using at by (simp add: pump_at_def)
      then obtain i where "i < n" "ks ! i \<noteq> unat n_events" using open' pump_finished_at [OF at] by blast
      then show ?thesis using p that [of i] pump_at_sent(2) [OF at, of i] by (auto simp: sent_to_def)
    qed
    have turns: "map Consumer_turn [0..<n] = map Consumer_turn [0..<i] @ Consumer_turn i # map Consumer_turn [Suc i..<n]"
      using i(1) upt_split [of i n] by (simp add: upt_conv_Cons)
    obtain p2 j2 ks2 where two: "pump_at n_events n (?run (map Consumer_turn [0..<i]) (push_turn push n_events c)) p2 j2 ks2"
      "n * p1 + j1 \<le> n * p2 + j2" "list_all2 (\<le>) ks ks2"
      using pump_turns_at [OF one(1), of "map Consumer_turn [0..<i]"] i(1) by (auto simp: turn_ok_def)
    let ?c2 = "?run (map Consumer_turn [0..<i]) (push_turn push n_events c)"
    obtain k where k: "pump_at n_events n (pop_turn pop n_events i ?c2) p2 j2 (ks2[i := k])"
      "ks2 ! i \<le> k" "ks2 ! i < sent_to p2 j2 i \<longrightarrow> ks2 ! i < k"
      using pop_turn_at [OF two(1) i(1)] by blast
    obtain p' j' ks' where four: "pump_at n_events n (?run (map Consumer_turn [Suc i..<n]) (pop_turn pop n_events i ?c2)) p' j' ks'"
      "n * p2 + j2 \<le> n * p' + j'" "list_all2 (\<le>) (ks2[i := k]) ks'"
      using pump_turns_at [OF k(1), of "map Consumer_turn [Suc i..<n]"] by (auto simp: turn_ok_def)
    have len: "length ks = n" "length ks2 = n" using at two(1) by (auto simp: pump_at_def)
    have "ks ! i < ks' ! i"
    proof -
      have "sent_to p j i \<le> sent_to p2 j2 i"
      proof -
        have "j2 < n" using two(1) by (simp add: pump_at_def)
        have "n * p + j \<le> n * p2 + j2" using two(2) pj by simp
        then have "p \<le> p2 \<and> (p = p2 \<longrightarrow> j \<le> j2)"
          using div_le_mono [of "n * p + j" "n * p2 + j2" n] \<open>j < n\<close> \<open>j2 < n\<close> by auto
        then show ?thesis by (auto simp: sent_to_def)
      qed
      then have "ks ! i < k" using k(2,3) i(2) list_all2_nthD [OF two(3), of i] i(1) len by linarith
      also have "k \<le> ks' ! i" using list_all2_nthD [OF four(3), of i] i(1) len by simp
      finally show ?thesis .
    qed
    moreover have le: "list_all2 (\<le>) ks ks'"
      using list_all2_trans [OF order_trans two(3) list_all2_trans [OF order_trans list_all2_raise [OF k(2)] four(3)]] .
    ultimately have "sum_list ks < sum_list ks'" using sum_list_all2_less [OF le] i(1) len by simp
    moreover have "?run (fair_round n) c = ?run (map Consumer_turn [Suc i..<n]) (pop_turn pop n_events i ?c2)"
      unfolding fair_round_def turns by (simp add: pump_turn_def)
    ultimately show ?thesis using four(1,2) two(2) pj
      by (intro exI [of _ p'] exI [of _ j'] exI [of _ ks']) simp
  qed
qed

lemma pump_rounds_finish:
  assumes "pump_at n_events n c p j ks"
  shows "\<exists>m. m \<le> 2 * n * unat n_events - (n * p + j + sum_list ks) \<and>
    pump_finished n_events (fold (pump_turn push pop n_events) (concat (replicate m (fair_round n))) c)"
  using assms
proof (induction "2 * n * unat n_events - (n * p + j + sum_list ks)" arbitrary: c p j ks rule: less_induct)
  case less
  show ?case
  proof (cases "pump_finished n_events c")
    case True
    then show ?thesis by (intro exI [of _ 0]) simp
  next
    case False
    obtain p1 j1 ks1 where one: "pump_at n_events n (fold (pump_turn push pop n_events) (fair_round n) c) p1 j1 ks1"
      and more: "n * p + j + sum_list ks < n * p1 + j1 + sum_list ks1"
      using pump_round_at [OF less.prems False] by blast
    have "sum_list ks1 \<le> length ks1 * unat n_events"
      using pump_at_sent(2) [OF one] one sum_list_mono [of ks1 id "\<lambda>_. unat n_events"]
      by (auto simp: sum_list_triv pump_at_def in_set_conv_nth)
    moreover have "n * p1 + j1 \<le> n * unat n_events"
    proof (cases "p1 = unat n_events")
      case False
      then have "n * p1 + n \<le> n * unat n_events" "j1 < n"
        using one mult_le_mono2 [of "Suc p1" "unat n_events" n] by (auto simp: pump_at_def)
      then show ?thesis by simp
    qed (use one in \<open>simp add: pump_at_def\<close>)
    ultimately have le: "n * p1 + j1 + sum_list ks1 \<le> 2 * n * unat n_events"
      using one by (simp add: pump_at_def)
    then obtain m where "m \<le> 2 * n * unat n_events - (n * p1 + j1 + sum_list ks1)"
      "pump_finished n_events (fold (pump_turn push pop n_events) (concat (replicate m (fair_round n)))
        (fold (pump_turn push pop n_events) (fair_round n) c))"
      using less.hyps [OF _ one] more by (meson diff_less_mono2 less_le_trans)
    then show ?thesis using more le by (intro exI [of _ "Suc m"]) (simp add: fold_append)
  qed
qed

lemma new_pump_at: "models q [] \<Longrightarrow> 0 < n \<Longrightarrow> pump_at n_events n (new_pump q n) 0 0 (replicate n 0)"
  by (simp add: pump_at_def new_pump_def sent_to_def popper_ok_def)

lemma pump_checksum_result:
  assumes q: "models q []" and n: "0 < n"
  shows "\<forall>t \<in> set turns. turn_ok n t \<Longrightarrow>
      pump_checksum push pop q n turns \<in> {None, Some (of_nat n * throughput_expected_checksum)}"
    and "\<exists>m \<le> 2 * n * unat throughput_events. pump_checksum push pop q n (concat (replicate m (fair_round n))) \<noteq> None"
proof -
  let ?N = throughput_events
  show "\<exists>m \<le> 2 * n * unat ?N. pump_checksum push pop q n (concat (replicate m (fair_round n))) \<noteq> None"
    using pump_rounds_finish [OF new_pump_at [OF q n], of ?N] by (fastforce simp: pump_checksum_def Let_def sum_list_replicate)
  assume ts: "\<forall>t \<in> set turns. turn_ok n t"
  define c where "c = fold (pump_turn push pop ?N) turns (new_pump q n)"
  obtain p j ks where at: "pump_at ?N n c p j ks"
    using pump_turns_at [OF new_pump_at [OF q n] ts] unfolding c_def by blast
  have len: "length (pu_poppers c) = n" and each: "\<And>i. i < n \<Longrightarrow> popper_ok (pu_poppers c ! i) (ks ! i)"
    using at by (auto simp: pump_at_def)
  have "sum_list (map po_checksum (pu_poppers c)) = of_nat n * throughput_expected_checksum"
    if fin: "pump_finished ?N c"
  proof -
    have "po_checksum (pu_poppers c ! i) = throughput_expected_checksum" if "i < n" for i
    proof -
      have "ks ! i = unat ?N" using pump_finished_at [OF at] fin that by blast
      then show ?thesis using each [OF that] throughput_state_total [of 1 0]
        by (simp add: popper_ok_def throughput_state_def)
    qed
    then have "map po_checksum (pu_poppers c) = replicate n throughput_expected_checksum"
      using len by (intro nth_equalityI) simp_all
    then show ?thesis by (simp add: sum_list_replicate)
  qed
  then show "pump_checksum push pop q n turns \<in> {None, Some (of_nat n * throughput_expected_checksum)}"
    by (simp add: pump_checksum_def Let_def c_def)
qed

end

section \<open>Properties\<close>

lemma new_rings: "mutex_models new_mutex_ring []" "spsc_models new_spsc_ring []"
  using capacity_power
  by (simp_all add: mutex_models_def new_mutex_ring_def spsc_models_def new_spsc_ring_def ring_slots_def)

text \<open>The baselines are fair comparisons: both rings behave as a queue of 65536 values, so that
  whatever turns the threads take, the mutex ring, the SPSC ring and the fan-out to three SPSC
  rings deliver every value exactly once and in order and return the checksums \<open>main\<close> expects, and
  they end when the threads keep getting turns.\<close>

theorem ring_benchmarks_checksums:
  assumes "\<forall>t \<in> set turns. turn_ok 1 t" "\<forall>t \<in> set turns3. turn_ok 3 t"
  shows "benchmark_mutex_ring turns \<in> {None, Some throughput_expected_checksum} \<and>
    benchmark_spsc_ring turns \<in> {None, Some throughput_expected_checksum} \<and>
    benchmark_three_spsc_rings turns3 \<in> {None, Some (throughput_expected_checksum * 3)} \<and>
    (\<exists>m \<le> 2 * unat throughput_events. benchmark_mutex_ring (concat (replicate m (fair_round 1))) \<noteq> None) \<and>
    (\<exists>m \<le> 2 * unat throughput_events. benchmark_spsc_ring (concat (replicate m (fair_round 1))) \<noteq> None) \<and>
    (\<exists>m \<le> 6 * unat throughput_events. benchmark_three_spsc_rings (concat (replicate m (fair_round 3))) \<noteq> None)"
  using mutex.pump_checksum_result(1) [OF new_rings(1) _ assms(1)] mutex.pump_checksum_result(2) [OF new_rings(1), of 1]
    spsc.pump_checksum_result(1) [OF new_rings(2) _ assms(1)] spsc.pump_checksum_result(2) [OF new_rings(2), of 1]
    spsc.pump_checksum_result(1) [OF new_rings(2) _ assms(2)] spsc.pump_checksum_result(2) [OF new_rings(2), of 3]
  by (simp add: benchmark_mutex_ring_def benchmark_spsc_ring_def benchmark_three_spsc_rings_def mult.commute
      del: One_nat_def)

theorem ring_benchmarks_checksums_witness:
  "benchmark_mutex_ring [Producer_turn, Consumer_turn 0] \<in> {None, Some throughput_expected_checksum} \<and>
   benchmark_three_spsc_rings [Producer_turn, Consumer_turn 2] \<in> {None, Some (throughput_expected_checksum * 3)}"
  using ring_benchmarks_checksums [of "[Producer_turn, Consumer_turn 0]" "[Producer_turn, Consumer_turn 2]"]
  by (simp add: turn_ok_def)

end
