(* ===== verification/Lockstep.thy ===== *)
theory Lockstep
  imports Stream_Client
begin

text \<open>
  The loops of the latency benchmarks: after each accepted batch the producer waits until every
  consumer has taken it, one consumer after the other, before it publishes the next one. What
  it asks to see whether a consumer is still behind differs between the programs and is a
  parameter, \<open>behind\<close>, with its laws in two locales: that it never reports a consumer that has
  caught up, so that a wait ends, and that it reports every consumer that has not, so that the
  ring never holds more than one batch and no publication is ever rejected.
\<close>

section \<open>Turns\<close>

text \<open>
  \<open>pc_awaited\<close> is the consumer the producer waits for, the number of consumers when it waits
  for none; \<open>pc_retries\<close> counts the rejected attempts.
\<close>

record ('s, 'h) paced =
  pc_client :: "('s, 'h) client"
  pc_awaited :: nat
  pc_retries :: nat

definition paced_producer_turn :: "('s \<Rightarrow> size_t \<Rightarrow> ('ev, unit) batch_writer \<Rightarrow> unit \<Rightarrow> failure + bool \<times> 's \<times> unit) \<Rightarrow>
    ('s \<Rightarrow> nat \<Rightarrow> u64 \<Rightarrow> bool) \<Rightarrow> ('ev, 'h) stream_program \<Rightarrow> ('s, 'h) paced \<Rightarrow> failure + ('s, 'h) paced" where
  "paced_producer_turn publish behind prog pc =
     (let c = pc_client pc
      in if pc_awaited pc < length (cl_handlers c)
         then Inr (if behind (cl_stream c) (pc_awaited pc) (cl_published c) then pc
                   else pc\<lparr>pc_awaited := Suc (pc_awaited pc)\<rparr>)
         else if cl_published c < event_total prog
         then case publish_attempt publish prog c of
                Inl f \<Rightarrow> Inl f
              | Inr (accepted, c') \<Rightarrow> Inr (if accepted then pc\<lparr>pc_client := c', pc_awaited := 0\<rparr>
                  else pc\<lparr>pc_client := c', pc_retries := Suc (pc_retries pc)\<rparr>)
         else Inr pc)"

fun run_paced :: "('s \<Rightarrow> size_t \<Rightarrow> ('ev, unit) batch_writer \<Rightarrow> unit \<Rightarrow> failure + bool \<times> 's \<times> unit) \<Rightarrow>
    ('s \<Rightarrow> nat \<Rightarrow> size_t \<Rightarrow> ('ev, 'h) sequence_handler \<Rightarrow> 'h \<Rightarrow> failure + size_t \<times> 's \<times> 'h) \<Rightarrow>
    ('s \<Rightarrow> nat \<Rightarrow> u64 \<Rightarrow> bool) \<Rightarrow> ('ev, 'h) stream_program \<Rightarrow> u64 \<Rightarrow> turn list \<Rightarrow> ('s, 'h) paced \<Rightarrow>
    failure + ('s, 'h) paced" where
  "run_paced publish consume behind prog first [] pc = Inr pc"
| "run_paced publish consume behind prog first (t # ts) pc =
     (case (case t of Producer_turn \<Rightarrow> paced_producer_turn publish behind prog pc
              | Consumer_turn i \<Rightarrow> map_sum id (\<lambda>c. pc\<lparr>pc_client := c\<rparr>) (consume_turn consume prog first i (pc_client pc))) of
        Inl f \<Rightarrow> Inl f
      | Inr pc' \<Rightarrow> run_paced publish consume behind prog first ts pc')"

text \<open>Every loop has ended: the threads' and the producer's last wait.\<close>

definition paced_finished :: "('ev, 'h) stream_program \<Rightarrow> ('s, 'h) paced \<Rightarrow> bool" where
  "paced_finished prog pc \<longleftrightarrow> finished prog (pc_client pc) \<and> \<not> pc_awaited pc < length (cl_handlers (pc_client pc))"

definition new_paced :: "'s \<Rightarrow> 'h list \<Rightarrow> ('s, 'h) paced" where
  "new_paced s hs = \<lparr>pc_client = \<lparr>cl_stream = s, cl_published = 0, cl_handlers = hs\<rparr>,
     pc_awaited = length hs, pc_retries = 0\<rparr>"

text \<open>What a run reports when every loop has ended.\<close>

definition paced_outcome :: "('ev, 'h) stream_program \<Rightarrow> ('h list \<Rightarrow> run_error + 'r) \<Rightarrow> failure + ('s, 'h) paced \<Rightarrow> run_error + 'r" where
  "paced_outcome prog report outcome =
     (case outcome of
        Inl f \<Rightarrow> Inl (Stopped f)
      | Inr pc \<Rightarrow> if \<not> paced_finished prog pc then Inl Still_running else report (cl_handlers (pc_client pc)))"

lemma run_paced_append:
  "run_paced publish consume behind prog first (xs @ ys) pc =
     (case run_paced publish consume behind prog first xs pc of Inl f \<Rightarrow> Inl f
      | Inr pc' \<Rightarrow> run_paced publish consume behind prog first ys pc')"
  by (induction xs arbitrary: pc) (auto split: sum.splits turn.splits)

lemma run_paced_consumers:
  "run_paced publish consume behind prog first (map Consumer_turn is) pc =
     map_sum id (\<lambda>c. pc\<lparr>pc_client := c\<rparr>) (run_turns publish consume prog first (map Consumer_turn is) (pc_client pc))"
proof (induction "is" arbitrary: pc)
  case (Cons i "is")
  show ?case
  proof (cases "consume_turn consume prog first i (pc_client pc)")
    case (Inr c)
    then show ?thesis using Cons.IH [of "pc\<lparr>pc_client := c\<rparr>"] by (simp add: comp_def)
  qed simp
qed simp

section \<open>Waits that end\<close>

locale paced_client = stream_client publish consume position models room consumer_total base valid prog vals aligned expected
  for publish :: "'s \<Rightarrow> size_t \<Rightarrow> ('ev, unit) batch_writer \<Rightarrow> unit \<Rightarrow> failure + bool \<times> 's \<times> unit"
    and consume :: "'s \<Rightarrow> nat \<Rightarrow> size_t \<Rightarrow> ('ev, 'h) sequence_handler \<Rightarrow> 'h \<Rightarrow> failure + size_t \<times> 's \<times> 'h"
    and position :: "'s \<Rightarrow> nat \<Rightarrow> u64" and models :: "'s \<Rightarrow> 'ev list \<Rightarrow> nat list \<Rightarrow> bool"
    and room :: nat and consumer_total :: nat and base :: u64
    and valid :: "'c \<Rightarrow> bool" and prog :: "'c \<Rightarrow> ('ev, 'h) stream_program"
    and vals :: "'c \<Rightarrow> nat \<Rightarrow> 'ev" and aligned :: "'c \<Rightarrow> nat \<Rightarrow> bool"
    and expected :: "'c \<Rightarrow> u64 \<Rightarrow> nat \<Rightarrow> 'h" +
  fixes behind :: "'s \<Rightarrow> nat \<Rightarrow> u64 \<Rightarrow> bool"
  assumes behind_law: "models s log cs \<Longrightarrow> i < consumer_total \<Longrightarrow> log \<noteq> [] \<Longrightarrow> length log < 2 ^ 64 \<Longrightarrow>
      behind s i (of_nat (length log)) \<Longrightarrow> cs ! i < length log"
begin

text \<open>A paced run on a new stream; the producer waits only once it has published.\<close>

definition paced_at :: "'c \<Rightarrow> ('s, 'h) paced \<Rightarrow> nat \<Rightarrow> nat list \<Rightarrow> bool" where
  "paced_at x pc p ks \<longleftrightarrow> at x [] (pc_client pc) p ks \<and> pc_awaited pc \<le> consumer_total \<and>
     (p = 0 \<longrightarrow> pc_awaited pc = consumer_total)"

lemma handlers_at: "at x log0 c p ks \<Longrightarrow> length (cl_handlers c) = consumer_total"
  using at_shape(1) by (simp add: at_def)

lemma paced_producer_turn_at:
  assumes v: "valid x" and at: "paced_at x pc p ks"
  shows "\<exists>pc' p'. paced_producer_turn publish behind (prog x) pc = Inr pc' \<and> paced_at x pc' p' ks \<and> p \<le> p' \<and>
    Suc consumer_total * p + pc_awaited pc \<le> Suc consumer_total * p' + pc_awaited pc' \<and>
    ((\<exists>k \<in> set ks. k < p) \<or> Suc consumer_total * p + pc_awaited pc < Suc consumer_total * p' + pc_awaited pc' \<or>
     paced_finished (prog x) pc)"
proof (cases "pc_awaited pc < consumer_total")
  case True
  have m: "models (cl_stream (pc_client pc)) (map (vals x) [0..<p]) ks" and a: "at x [] (pc_client pc) p ks"
    and pub: "cl_published (pc_client pc) = of_nat p" and p: "p \<noteq> 0" "p < 2 ^ 64"
    using at True le_less_trans [OF _ unat_lt_2p64, of p "event_total (prog x)"] by (auto simp: paced_at_def at_def)
  let ?b = "behind (cl_stream (pc_client pc)) (pc_awaited pc) (cl_published (pc_client pc))"
  have "?b \<Longrightarrow> ks ! pc_awaited pc < p"
    using behind_law [OF m True] p by (simp add: pub)
  moreover have "ks ! pc_awaited pc \<in> set ks" using True at_shape(1) [OF a] by simp
  ultimately have "?b \<Longrightarrow> \<exists>k \<in> set ks. k < p" by blast
  moreover have "paced_producer_turn publish behind (prog x) pc =
      Inr (if ?b then pc else pc\<lparr>pc_awaited := Suc (pc_awaited pc)\<rparr>)"
    using True handlers_at [OF a] by (simp add: paced_producer_turn_def Let_def)
  moreover have "paced_at x (pc\<lparr>pc_awaited := Suc (pc_awaited pc)\<rparr>) p ks" using True at p by (simp add: paced_at_def)
  ultimately show ?thesis using at by (cases ?b) auto
next
  case False
  then have aw: "pc_awaited pc = consumer_total" and a: "at x [] (pc_client pc) p ks" using at by (auto simp: paced_at_def)
  note h = handlers_at [OF a]
  show ?thesis
  proof (cases "p < unat (event_total (prog x))")
    case True
    obtain acc c' p' where att: "publish_attempt publish (prog x) (pc_client pc) = Inr (acc, c')" "at x [] c' p' ks"
      and res: "if acc then p < p' \<and> p' = p + unat (batch (prog x) (event_total (prog x) - of_nat p))
        else p' = p \<and> (\<exists>k \<in> set ks. k < p) \<and>
          (\<exists>k \<in> set ks. k + room < p + unat (batch (prog x) (event_total (prog x) - of_nat p)))"
      using publish_attempt_at [OF v a True] by blast
    have lt: "cl_published (pc_client pc) < event_total (prog x)"
      using True a at_shape(3) [OF a] by (simp add: at_def word_nat)
    have "Suc consumer_total * Suc p \<le> Suc consumer_total * p'" if acc using res that by (intro mult_le_mono2) auto
    then have more: "Suc consumer_total * p + consumer_total < Suc consumer_total * p'" if acc using that by simp
    have turn: "paced_producer_turn publish behind (prog x) pc =
        Inr (if acc then pc\<lparr>pc_client := c', pc_awaited := 0\<rparr>
          else pc\<lparr>pc_client := c', pc_retries := Suc (pc_retries pc)\<rparr>)"
      using att lt h False by (simp add: paced_producer_turn_def Let_def)
    show ?thesis
    proof (cases acc)
      case True
      then show ?thesis using turn att(2) res more aw
        by (intro exI [of _ "pc\<lparr>pc_client := c', pc_awaited := 0\<rparr>"] exI [of _ p']) (auto simp: paced_at_def)
    next
      case False
      then show ?thesis using turn att(2) res aw
        by (intro exI [of _ "pc\<lparr>pc_client := c', pc_retries := Suc (pc_retries pc)\<rparr>"] exI [of _ p]) (auto simp: paced_at_def)
    qed
  next
    case False
    then have p: "p = unat (event_total (prog x))" using a by (simp add: at_def)
    have "paced_finished (prog x) pc" if "\<not> (\<exists>k \<in> set ks. k < p)"
      using that at_shape(2) [OF a] finished_at [OF v a] p aw h by (fastforce simp: paced_finished_def)
    moreover have "\<not> cl_published (pc_client pc) < event_total (prog x)"
      using p a by (simp add: at_def)
    ultimately show ?thesis using at aw h
      by (intro exI [of _ pc] exI [of _ p]) (auto simp: paced_producer_turn_def Let_def)
  qed
qed

text \<open>What a consumer's turn keeps, any property of the run that more progress keeps.\<close>

lemma paced_consumer_turn_at:
  assumes v: "valid x" and at: "paced_at x pc p ks" and i: "i < consumer_total"
  shows "\<exists>c' ks'. consume_turn consume (prog x) base i (pc_client pc) = Inr c' \<and> paced_at x (pc\<lparr>pc_client := c'\<rparr>) p ks' \<and>
    list_all2 (\<le>) ks ks'"
proof -
  have a: "at x [] (pc_client pc) p ks" using at by (simp add: paced_at_def)
  obtain c' k where "consume_turn consume (prog x) base i (pc_client pc) = Inr c'" "at x [] c' p (ks[i := k])" "ks ! i \<le> k"
    using consume_turn_at [OF v a i] by auto
  then show ?thesis using at by (intro exI [of _ c'] exI [of _ "ks[i := k]"]) (auto simp: paced_at_def list_all2_raise)
qed

lemma run_paced_at:
  assumes v: "valid x" and at: "paced_at x pc p ks" and ts: "\<forall>t \<in> set ts. turn_ok consumer_total t"
  shows "\<exists>pc' p' ks'. run_paced publish consume behind (prog x) base ts pc = Inr pc' \<and> paced_at x pc' p' ks'"
  using at ts
proof (induction ts arbitrary: pc p ks)
  case (Cons t ts)
  have "\<exists>pc1 p1 ks1. (case t of Producer_turn \<Rightarrow> paced_producer_turn publish behind (prog x) pc
      | Consumer_turn i \<Rightarrow> map_sum id (\<lambda>c. pc\<lparr>pc_client := c\<rparr>) (consume_turn consume (prog x) base i (pc_client pc))) = Inr pc1 \<and>
      paced_at x pc1 p1 ks1"
  proof (cases t)
    case Producer_turn
    then show ?thesis using paced_producer_turn_at [OF v Cons.prems(1)] by auto
  next
    case (Consumer_turn i)
    then have "i < consumer_total" using Cons.prems(2) by (simp add: turn_ok_def)
    then obtain c' ks' where "consume_turn consume (prog x) base i (pc_client pc) = Inr c'"
      "paced_at x (pc\<lparr>pc_client := c'\<rparr>) p ks'"
      using paced_consumer_turn_at [OF v Cons.prems(1), of i] by blast
    then show ?thesis using Consumer_turn by auto
  qed
  then obtain pc1 p1 ks1 where step: "(case t of Producer_turn \<Rightarrow> paced_producer_turn publish behind (prog x) pc
      | Consumer_turn i \<Rightarrow> map_sum id (\<lambda>c. pc\<lparr>pc_client := c\<rparr>) (consume_turn consume (prog x) base i (pc_client pc))) = Inr pc1"
    and at1: "paced_at x pc1 p1 ks1" by blast
  then show ?case using Cons.IH [OF at1] Cons.prems(2) by simp
next
  case Nil
  then show ?case by auto
qed

text \<open>A fair round moves the producer, its wait or a consumer.\<close>

definition paced_progress :: "('s, 'h) paced \<Rightarrow> nat \<Rightarrow> nat list \<Rightarrow> nat" where
  "paced_progress pc p ks = Suc consumer_total * p + pc_awaited pc + sum_list ks"

lemma paced_progress_bound:
  assumes "paced_at x pc p ks"
  shows "paced_progress pc p ks \<le> consumer_total + (2 * consumer_total + 1) * unat (event_total (prog x))"
proof -
  let ?n = "unat (event_total (prog x))"
  have a: "at x [] (pc_client pc) p ks" and w: "pc_awaited pc \<le> consumer_total" using assms by (simp_all add: paced_at_def)
  have p: "p \<le> ?n" using a by (simp add: at_def)
  have "k \<le> ?n" if "k \<in> set ks" for k using at_shape(2) [OF a that] p by simp
  then have "sum_list ks \<le> length ks * ?n"
    using sum_list_mono [of ks id "\<lambda>_. ?n"] by (simp add: sum_list_triv)
  then have "sum_list ks \<le> consumer_total * ?n" using at_shape(1) [OF a] by simp
  moreover have "Suc consumer_total * p \<le> Suc consumer_total * ?n" using p by (rule mult_le_mono2)
  ultimately show ?thesis using w by (simp add: paced_progress_def algebra_simps)
qed

lemma paced_round_at:
  assumes v: "valid x" and at: "paced_at x pc p ks" and "\<not> paced_finished (prog x) pc"
  shows "\<exists>pc' p' ks'. run_paced publish consume behind (prog x) base (fair_round consumer_total) pc = Inr pc' \<and>
    paced_at x pc' p' ks' \<and> paced_progress pc p ks < paced_progress pc' p' ks'"
proof -
  obtain pc1 p1 where turn: "paced_producer_turn publish behind (prog x) pc = Inr pc1" and at1: "paced_at x pc1 p1 ks"
    and le: "p \<le> p1" "Suc consumer_total * p + pc_awaited pc \<le> Suc consumer_total * p1 + pc_awaited pc1" and prog: "(\<exists>k \<in> set ks. k < p) \<or>
      Suc consumer_total * p + pc_awaited pc < Suc consumer_total * p1 + pc_awaited pc1"
    using paced_producer_turn_at [OF v at] assms(3) by blast
  have a1: "at x [] (pc_client pc1) p1 ks" using at1 by (simp add: paced_at_def)
  obtain c' ks' where cons: "run_turns publish consume (prog x) base (map Consumer_turn [0..<consumer_total]) (pc_client pc1) = Inr c'"
    and at2: "at x [] c' p1 ks'" and sum: "sum_list ks \<le> sum_list ks'" "(\<exists>k \<in> set ks. k < p1) \<longrightarrow> sum_list ks < sum_list ks'"
    using consumers_round_at [OF v a1] by auto
  have run: "run_paced publish consume behind (prog x) base (fair_round consumer_total) pc = Inr (pc1\<lparr>pc_client := c'\<rparr>)"
    by (simp add: fair_round_def turn run_paced_consumers cons)
  have "paced_at x (pc1\<lparr>pc_client := c'\<rparr>) p1 ks'" using at1 at2 by (simp add: paced_at_def)
  moreover have "(\<exists>k \<in> set ks. k < p) \<longrightarrow> (\<exists>k \<in> set ks. k < p1)" using le(1) by (auto intro: less_le_trans)
  then have "paced_progress pc p ks < paced_progress (pc1\<lparr>pc_client := c'\<rparr>) p1 ks'"
    using prog sum le(2) unfolding paced_progress_def by auto
  ultimately show ?thesis using run by blast
qed

text \<open>Enough fair rounds end a paced run.\<close>

lemma paced_rounds_finish:
  assumes v: "valid x" and at: "paced_at x pc p ks"
  shows "\<exists>m pc' p' ks'. run_paced publish consume behind (prog x) base (concat (replicate m (fair_round consumer_total))) pc = Inr pc' \<and>
    paced_finished (prog x) pc' \<and> paced_at x pc' p' ks' \<and>
    m \<le> consumer_total + (2 * consumer_total + 1) * unat (event_total (prog x)) - paced_progress pc p ks"
  using at
proof (induction "consumer_total + (2 * consumer_total + 1) * unat (event_total (prog x)) - paced_progress pc p ks"
    arbitrary: pc p ks rule: less_induct)
  case less
  let ?bound = "consumer_total + (2 * consumer_total + 1) * unat (event_total (prog x))"
  show ?case
  proof (cases "paced_finished (prog x) pc")
    case True
    then show ?thesis using less.prems by (intro exI [of _ 0] exI [of _ pc] exI [of _ p] exI [of _ ks]) simp
  next
    case False
    obtain pc1 p1 ks1 where one: "run_paced publish consume behind (prog x) base (fair_round consumer_total) pc = Inr pc1"
      "paced_at x pc1 p1 ks1" and more: "paced_progress pc p ks < paced_progress pc1 p1 ks1"
      using paced_round_at [OF v less.prems False] by blast
    have le: "paced_progress pc1 p1 ks1 \<le> ?bound" using paced_progress_bound [OF one(2)] .
    obtain m pc' p' ks' where rest: "run_paced publish consume behind (prog x) base
        (concat (replicate m (fair_round consumer_total))) pc1 = Inr pc'" "paced_finished (prog x) pc'"
      "paced_at x pc' p' ks'" "m \<le> ?bound - paced_progress pc1 p1 ks1"
      using less.hyps [OF _ one(2)] more le by (meson diff_less_mono2 less_le_trans)
    then show ?thesis using one(1) more le
      by (intro exI [of _ "Suc m"] exI [of _ pc'] exI [of _ p'] exI [of _ ks']) (simp add: run_paced_append)
  qed
qed

lemma new_paced_at:
  assumes "run_start x [] s h0"
  shows "paced_at x (new_paced s (replicate consumer_total h0)) 0 (replicate consumer_total 0)"
  using run_start_at [OF assms] by (simp add: paced_at_def new_paced_def)

lemma paced_done_at:
  assumes "valid x" "paced_at x pc p ks" "paced_finished (prog x) pc"
  shows "run_done x [] (pc_client pc)"
  using assms(2,3) unfolding paced_at_def paced_finished_def by (intro run_done_at [OF assms(1)]) auto

text \<open>A paced run from a new stream never fails, and fair rounds end it.\<close>

definition run_paced_from :: "'c \<Rightarrow> 's \<Rightarrow> 'h \<Rightarrow> turn list \<Rightarrow> failure + ('s, 'h) paced" where
  "run_paced_from x s h0 ts = run_paced publish consume behind (prog x) base ts (new_paced s (replicate consumer_total h0))"

lemma paced_result:
  assumes start: "run_start x [] s h0" and ts: "\<forall>t \<in> set ts. turn_ok consumer_total t"
  shows "\<exists>pc. run_paced_from x s h0 ts = Inr pc \<and> (paced_finished (prog x) pc \<longrightarrow> run_done x [] (pc_client pc))"
proof -
  have v: "valid x" using start by (simp add: run_start_def)
  obtain pc p ks where "run_paced_from x s h0 ts = Inr pc" "paced_at x pc p ks"
    using run_paced_at [OF v new_paced_at [OF start] ts] unfolding run_paced_from_def by blast
  then show ?thesis using paced_done_at [OF v] by blast
qed

lemma paced_finishes:
  assumes start: "run_start x [] s h0"
  shows "\<exists>m pc. m \<le> (2 * consumer_total + 1) * unat (event_total (prog x)) \<and>
    run_paced_from x s h0 (concat (replicate m (fair_round consumer_total))) = Inr pc \<and>
    paced_finished (prog x) pc \<and> run_done x [] (pc_client pc)"
proof -
  have v: "valid x" using start by (simp add: run_start_def)
  obtain m pc p ks where "run_paced_from x s h0 (concat (replicate m (fair_round consumer_total))) = Inr pc"
    "paced_finished (prog x) pc" "paced_at x pc p ks"
    "m \<le> consumer_total + (2 * consumer_total + 1) * unat (event_total (prog x)) -
      paced_progress (new_paced s (replicate consumer_total h0)) 0 (replicate consumer_total 0)"
    using paced_rounds_finish [OF v new_paced_at [OF start]] unfolding run_paced_from_def by blast
  then show ?thesis using paced_done_at [OF v]
    by (intro exI [of _ m] exI [of _ pc]) (auto simp: paced_progress_def new_paced_def sum_list_replicate)
qed

lemma paced_reports:
  assumes start: "run_start x [] s h0" and ts: "\<forall>t \<in> set ts. turn_ok consumer_total t"
    and exact: "report (replicate consumer_total (expected x base (unat (event_total (prog x))))) = result"
  shows "paced_outcome (prog x) report (run_paced_from x s h0 ts) \<in> {Inl Still_running, result} \<and>
    (\<exists>m \<le> (2 * consumer_total + 1) * unat (event_total (prog x)).
      paced_outcome (prog x) report (run_paced_from x s h0 (concat (replicate m (fair_round consumer_total)))) = result)"
proof -
  have result: "paced_outcome (prog x) report (Inr pc) = result"
    if "paced_finished (prog x) pc" "run_done x [] (pc_client pc)" for pc :: "('s, 'h) paced"
    using that exact by (simp add: paced_outcome_def run_done_def Let_def)
  obtain pc where run: "run_paced_from x s h0 ts = Inr pc"
    and fin: "paced_finished (prog x) pc \<longrightarrow> run_done x [] (pc_client pc)"
    using paced_result [OF start ts] by blast
  have "paced_outcome (prog x) report (Inr pc) \<in> {Inl Still_running, result}"
    using result [of pc] fin by (cases "paced_finished (prog x) pc") (simp_all add: paced_outcome_def)
  moreover obtain m pc' where "m \<le> (2 * consumer_total + 1) * unat (event_total (prog x))"
    "run_paced_from x s h0 (concat (replicate m (fair_round consumer_total))) = Inr pc'"
    "paced_finished (prog x) pc'" "run_done x [] (pc_client pc')"
    using paced_finishes [OF start] by blast
  ultimately show ?thesis using run result [of pc'] by auto
qed

end

section \<open>Lockstep\<close>

text \<open>
  \<open>behind\<close> reports every consumer that has not taken all that is published, and \<open>limit\<close> bounds
  a batch.
\<close>

locale lockstep_client = paced_client publish consume position models room consumer_total base valid prog vals
    aligned expected behind
  for publish :: "'s \<Rightarrow> size_t \<Rightarrow> ('ev, unit) batch_writer \<Rightarrow> unit \<Rightarrow> failure + bool \<times> 's \<times> unit"
    and consume :: "'s \<Rightarrow> nat \<Rightarrow> size_t \<Rightarrow> ('ev, 'h) sequence_handler \<Rightarrow> 'h \<Rightarrow> failure + size_t \<times> 's \<times> 'h"
    and position :: "'s \<Rightarrow> nat \<Rightarrow> u64" and models :: "'s \<Rightarrow> 'ev list \<Rightarrow> nat list \<Rightarrow> bool"
    and room :: nat and consumer_total :: nat and base :: u64
    and valid :: "'c \<Rightarrow> bool" and prog :: "'c \<Rightarrow> ('ev, 'h) stream_program"
    and vals :: "'c \<Rightarrow> nat \<Rightarrow> 'ev" and aligned :: "'c \<Rightarrow> nat \<Rightarrow> bool"
    and expected :: "'c \<Rightarrow> u64 \<Rightarrow> nat \<Rightarrow> 'h" and behind :: "'s \<Rightarrow> nat \<Rightarrow> u64 \<Rightarrow> bool" +
  fixes limit :: "'c \<Rightarrow> nat"
  assumes strict_law: "models s log cs \<Longrightarrow> i < consumer_total \<Longrightarrow> log \<noteq> [] \<Longrightarrow> length log < 2 ^ 64 \<Longrightarrow>
      cs ! i < length log \<Longrightarrow> behind s i (of_nat (length log))"
    and limit_law: "valid x \<Longrightarrow> p < unat (event_total (prog x)) \<Longrightarrow>
      unat (batch (prog x) (event_total (prog x) - of_nat p)) \<le> limit x"
begin

definition lockstep_at :: "'c \<Rightarrow> ('s, 'h) paced \<Rightarrow> nat \<Rightarrow> nat list \<Rightarrow> bool" where
  "lockstep_at x pc p ks \<longleftrightarrow> paced_at x pc p ks \<and> pc_retries pc = 0 \<and>
     (\<forall>i < pc_awaited pc. ks ! i = p) \<and> (\<forall>k \<in> set ks. p \<le> k + limit x)"

lemma lockstep_producer_turn:
  assumes v: "valid x" and at: "lockstep_at x pc p ks"
  shows "\<exists>pc' p'. paced_producer_turn publish behind (prog x) pc = Inr pc' \<and> lockstep_at x pc' p' ks"
proof (cases "pc_awaited pc < consumer_total")
  case True
  have pat: "paced_at x pc p ks" and a: "at x [] (pc_client pc) p ks"
    using at by (simp_all add: lockstep_at_def paced_at_def)
  have m: "models (cl_stream (pc_client pc)) (map (vals x) [0..<p]) ks"
    and pub: "cl_published (pc_client pc) = of_nat p" and p: "p \<noteq> 0" "p < 2 ^ 64"
    using pat a True le_less_trans [OF _ unat_lt_2p64, of p "event_total (prog x)"] by (auto simp: paced_at_def at_def)
  let ?b = "behind (cl_stream (pc_client pc)) (pc_awaited pc) (cl_published (pc_client pc))"
  have k: "ks ! pc_awaited pc \<le> p" using True at_shape [OF a] by simp
  have "ks ! pc_awaited pc = p" if "\<not> ?b" using strict_law [OF m True] p k that by (fastforce simp: pub)
  then have "lockstep_at x (if ?b then pc else pc\<lparr>pc_awaited := Suc (pc_awaited pc)\<rparr>) p ks"
    using at True p by (auto simp: lockstep_at_def paced_at_def less_Suc_eq)
  then show ?thesis using True handlers_at [OF a]
    by (intro exI [of _ "if ?b then pc else pc\<lparr>pc_awaited := Suc (pc_awaited pc)\<rparr>"] exI [of _ p])
      (simp add: paced_producer_turn_def Let_def)
next
  case False
  have aw: "pc_awaited pc = consumer_total" and a: "at x [] (pc_client pc) p ks"
    using False at by (auto simp: lockstep_at_def paced_at_def)
  then have all: "\<forall>k \<in> set ks. k = p" using at at_shape(1) [OF a] by (auto simp: lockstep_at_def in_set_conv_nth)
  show ?thesis
  proof (cases "p < unat (event_total (prog x))")
    case True
    let ?B = "unat (batch (prog x) (event_total (prog x) - of_nat p))"
    obtain c' where att: "publish_attempt publish (prog x) (pc_client pc) = Inr (True, c')" "at x [] c' (p + ?B) ks" "0 < ?B"
      using publish_attempt_at [OF v a True] all by (fastforce split: if_splits)
    moreover have "cl_published (pc_client pc) < event_total (prog x)"
      using True a at_shape(3) [OF a] by (simp add: at_def word_nat)
    moreover have "lockstep_at x (pc\<lparr>pc_client := c', pc_awaited := 0\<rparr>) (p + ?B) ks"
      using att(2,3) at all limit_law [OF v True] by (auto simp: lockstep_at_def paced_at_def)
    ultimately show ?thesis using False handlers_at [OF a]
      by (intro exI [of _ "pc\<lparr>pc_client := c', pc_awaited := 0\<rparr>"] exI [of _ "p + ?B"])
        (simp add: paced_producer_turn_def Let_def)
  next
    case False
    then have "\<not> cl_published (pc_client pc) < event_total (prog x)"
      using a by (simp add: at_def word_nat at_shape(3) [OF a])
    then show ?thesis using at aw handlers_at [OF a]
      by (intro exI [of _ pc] exI [of _ p]) (simp add: paced_producer_turn_def Let_def)
  qed
qed

lemma lockstep_consumer_turn:
  assumes v: "valid x" and at: "lockstep_at x pc p ks" and i: "i < consumer_total"
  shows "\<exists>c' ks'. consume_turn consume (prog x) base i (pc_client pc) = Inr c' \<and> lockstep_at x (pc\<lparr>pc_client := c'\<rparr>) p ks'"
proof -
  have pat: "paced_at x pc p ks" using at by (simp add: lockstep_at_def)
  obtain c' ks' where turn: "consume_turn consume (prog x) base i (pc_client pc) = Inr c'"
    and at': "paced_at x (pc\<lparr>pc_client := c'\<rparr>) p ks'" and le: "list_all2 (\<le>) ks ks'"
    using paced_consumer_turn_at [OF v pat i] by blast
  have a': "at x [] c' p ks'" using at' by (simp add: paced_at_def)
  have len: "length ks = consumer_total" "length ks' = consumer_total"
    using at_shape(1) [OF a'] le by (auto dest: list_all2_lengthD)
  have bound: "ks ! j \<le> ks' ! j \<and> ks' ! j \<le> p" if "j < consumer_total" for j
    using that len list_all2_nthD [OF le, of j] at_shape(2) [OF a' nth_mem, of j] by simp
  have aw: "pc_awaited pc \<le> consumer_total" using pat by (simp add: paced_at_def)
  have "ks' ! j = p" if "j < pc_awaited pc" for j
    using bound [of j] that aw at by (fastforce simp: lockstep_at_def)
  moreover have "p \<le> k + limit x" if k: "k \<in> set ks'" for k
  proof -
    obtain j where "j < consumer_total" "k = ks' ! j" using k len by (auto simp: in_set_conv_nth)
    moreover from this(1) have "p \<le> ks ! j + limit x" using at len by (simp add: lockstep_at_def)
    ultimately show ?thesis using bound [of j] by linarith
  qed
  ultimately have "lockstep_at x (pc\<lparr>pc_client := c'\<rparr>) p ks'" using at at' by (simp add: lockstep_at_def)
  then show ?thesis using turn by blast
qed

lemma run_lockstep_at:
  assumes v: "valid x" and at: "lockstep_at x pc p ks" and ts: "\<forall>t \<in> set ts. turn_ok consumer_total t"
  shows "\<exists>pc' p' ks'. run_paced publish consume behind (prog x) base ts pc = Inr pc' \<and> lockstep_at x pc' p' ks'"
  using at ts
proof (induction ts arbitrary: pc p ks)
  case (Cons t ts)
  obtain pc1 p1 ks1 where step: "(case t of Producer_turn \<Rightarrow> paced_producer_turn publish behind (prog x) pc
      | Consumer_turn i \<Rightarrow> map_sum id (\<lambda>c. pc\<lparr>pc_client := c\<rparr>) (consume_turn consume (prog x) base i (pc_client pc))) = Inr pc1"
    and at1: "lockstep_at x pc1 p1 ks1"
  proof (cases t)
    case Producer_turn
    then show ?thesis using lockstep_producer_turn [OF v Cons.prems(1)] that by auto
  next
    case (Consumer_turn i)
    then have "i < consumer_total" using Cons.prems(2) by (simp add: turn_ok_def)
    from lockstep_consumer_turn [OF v Cons.prems(1) this] obtain c' ks'
      where "consume_turn consume (prog x) base i (pc_client pc) = Inr c'" "lockstep_at x (pc\<lparr>pc_client := c'\<rparr>) p ks'"
      by blast
    then show ?thesis using Consumer_turn that [of "pc\<lparr>pc_client := c'\<rparr>" p ks'] by simp
  qed
  then show ?case using Cons.IH [OF at1] Cons.prems(2) by simp
next
  case Nil
  then show ?case by auto
qed

text \<open>On every schedule: no rejected attempt, and no consumer more than a batch behind the producer.\<close>

definition in_lockstep :: "'c \<Rightarrow> ('s, 'h) paced \<Rightarrow> bool" where
  "in_lockstep x pc \<longleftrightarrow> pc_retries pc = 0 \<and>
     (\<forall>i < consumer_total. unat (cl_published (pc_client pc) - (position (cl_stream (pc_client pc)) i - base)) \<le> limit x)"

lemma lockstep_result:
  assumes start: "run_start x [] s h0" and ts: "\<forall>t \<in> set ts. turn_ok consumer_total t"
  shows "\<exists>pc. run_paced_from x s h0 ts = Inr pc \<and> in_lockstep x pc \<and>
    (paced_finished (prog x) pc \<longrightarrow> run_done x [] (pc_client pc))"
proof -
  have v: "valid x" using start by (simp add: run_start_def)
  have "lockstep_at x (new_paced s (replicate consumer_total h0)) 0 (replicate consumer_total 0)"
    using new_paced_at [OF start] by (simp add: lockstep_at_def new_paced_def)
  from run_lockstep_at [OF v this ts] obtain pc p ks where run: "run_paced_from x s h0 ts = Inr pc"
    and at: "lockstep_at x pc p ks" unfolding run_paced_from_def by blast
  have a: "at x [] (pc_client pc) p ks" and pat: "paced_at x pc p ks" using at by (simp_all add: lockstep_at_def paced_at_def)
  have "unat (cl_published (pc_client pc) - (position (cl_stream (pc_client pc)) i - base)) \<le> limit x"
    if i: "i < consumer_total" for i
  proof -
    have m: "models (cl_stream (pc_client pc)) (map (vals x) [0..<p]) ks" and pub: "cl_published (pc_client pc) = of_nat p"
      using a by (simp_all add: at_def)
    have k: "ks ! i \<le> p" "p \<le> ks ! i + limit x"
      using at i at_shape [OF a] by (simp_all add: lockstep_at_def)
    then have "(of_nat p :: u64) - of_nat (ks ! i) = of_nat (p - ks ! i)" by (simp add: of_nat_diff)
    then show ?thesis
      using k position_law [OF m i] at_shape(3) [OF a] unat_of_nat_le64 [of "p - ks ! i" "of_nat p"] by (simp add: pub)
  qed
  then have "in_lockstep x pc" using at by (simp add: in_lockstep_def lockstep_at_def)
  then show ?thesis using run paced_done_at [OF v pat] by blast
qed

lemma lockstep_reports:
  assumes "run_start x [] s h0" "\<forall>t \<in> set ts. turn_ok consumer_total t"
    and "report (replicate consumer_total (expected x base (unat (event_total (prog x))))) = result"
  shows "paced_outcome (prog x) report (run_paced_from x s h0 ts) \<in> {Inl Still_running, result} \<and>
    (\<exists>pc. run_paced_from x s h0 ts = Inr pc \<and> in_lockstep x pc) \<and>
    (\<exists>m \<le> (2 * consumer_total + 1) * unat (event_total (prog x)).
      paced_outcome (prog x) report (run_paced_from x s h0 (concat (replicate m (fair_round consumer_total)))) = result)"
  using paced_reports [where report = report, OF assms] lockstep_result [OF assms(1,2)] by blast

end

end
