(* ===== verification/Samples.thy ===== *)
theory Samples
  imports Lockstep
begin

text \<open>
  How the latency benchmarks keep their samples: none for the events of the warm-up, and for each
  later one its latency, at its index.
\<close>

section \<open>Samples\<close>

definition record_sample :: "u64 \<Rightarrow> u64 \<Rightarrow> 'a \<Rightarrow> 'a list \<Rightarrow> 'a list" where
  "record_sample warmup sequence sample samples =
     (if sequence \<ge> warmup then samples[unat (sequence - warmup) := sample] else samples)"

text \<open>The samples after the first \<open>k\<close> events.\<close>

fun samples_after :: "u64 \<Rightarrow> 'a list \<Rightarrow> (u64 \<Rightarrow> nat \<Rightarrow> 'a) \<Rightarrow> u64 \<Rightarrow> nat \<Rightarrow> 'a list" where
  "samples_after warmup samples sample first 0 = samples"
| "samples_after warmup samples sample first (Suc k) =
     record_sample warmup (first + of_nat k) (sample (first + of_nat k) k) (samples_after warmup samples sample first k)"

lemma samples_after_warmup:
  "j \<le> unat warmup \<Longrightarrow> samples_after warmup samples sample 0 j = samples"
proof (induction j)
  case (Suc j)
  then have "unat (of_nat j :: u64) = j" by (intro unat_of_nat_le64 [of _ warmup]) simp
  then have "\<not> warmup \<le> of_nat j" using Suc.prems by (simp add: word_nat)
  then show ?case using Suc by (simp add: record_sample_def)
qed simp

lemma samples_after_measured:
  assumes "unat warmup + length samples < 2 ^ 64" "k \<le> length samples"
  shows "samples_after warmup samples sample 0 (unat warmup + k) =
    map (\<lambda>q. sample (warmup + of_nat q) (unat warmup + q)) [0..<k] @ drop k samples"
  using assms(2)
proof (induction k)
  case 0
  then show ?case by (simp add: samples_after_warmup)
next
  case (Suc k)
  have j: "unat (warmup + of_nat k) = unat warmup + k"
    using unat_of_nat64 [of "unat warmup + k"] Suc.prems assms(1) by simp
  then have "warmup \<le> warmup + of_nat k" by (simp add: word_nat)
  moreover have "unat (warmup + of_nat k - warmup) = k" using unat_of_nat64 [of k] Suc.prems assms(1) by simp
  moreover have "(map f [0..<k] @ drop k samples)[k := f k] = map f [0..<Suc k] @ drop (Suc k) samples" for f :: "nat \<Rightarrow> 'a"
    using Suc.prems by (simp add: list_update_append Cons_nth_drop_Suc [symmetric])
  ultimately show ?case using Suc by (simp add: record_sample_def)
qed

lemma samples_after_all:
  assumes "unat (warmup + n) = unat warmup + unat n"
  shows "samples_after warmup (replicate (unat n) z) (\<lambda>sequence q. f sequence (of_nat q)) 0 (unat (warmup + n)) =
    map (\<lambda>q. f (warmup + of_nat q) (warmup + of_nat q)) [0..<unat n]"
proof -
  have "unat warmup + length (replicate (unat n) z) < 2 ^ 64" using unat_lt_2p64 [of "warmup + n"] assms by simp
  from samples_after_measured [OF this, of "unat n" "\<lambda>sequence q. f sequence (of_nat q)"] show ?thesis
    unfolding assms by simp
qed

text \<open>The latency of measured event \<open>q\<close> at a consumer whose clock reads \<open>arrival\<close>.\<close>

definition measured_latency :: "u64 \<Rightarrow> (u64 \<Rightarrow> int) \<Rightarrow> (u64 \<Rightarrow> int) \<Rightarrow> nat \<Rightarrow> int" where
  "measured_latency warmup stamp arrival q = arrival (warmup + of_nat q) - stamp (warmup + of_nat q)"

text \<open>
  The samples of several consumers in one vector, one part for each. A handler captures its
  consumer's index, so that a sample is a function of it.
\<close>

definition gathered :: "(nat \<Rightarrow> int) list list \<Rightarrow> int list" where
  "gathered parts = concat (map (\<lambda>(consumer, samples). map (\<lambda>sample. sample consumer) samples) (enumerate 0 parts))"

lemma gathered_replicate:
  "gathered (replicate n (map (\<lambda>q consumer. f consumer q) qs)) = concat (map (\<lambda>i. map (f i) qs) [0..<n])"
  by (simp add: gathered_def enumerate_replicate_eq comp_def)

end
