(* ===== verification/Latency_Statistics.thy ===== *)
theory Latency_Statistics
  imports Prelude
begin

text \<open>
  The statistics of \<open>paired_latency_benchmark.cpp\<close>: \<open>percentile_index\<close> in the arithmetic of
  \<open>std::size_t\<close>, and \<open>summarize\<close>. Latencies are integers; the vector of samples is a list.
\<close>

section \<open>Percentiles\<close>

definition percentile_index :: "size_t \<Rightarrow> size_t \<Rightarrow> size_t \<Rightarrow> size_t" where
  "percentile_index count numerator denominator =
     (let lst = count - 1
      in (lst div denominator) * numerator + ((lst mod denominator) * numerator) div denominator)"

record distribution =
  p50_ns :: int
  p90_ns :: int
  p95_ns :: int
  p99_ns :: int
  p99_9_ns :: int
  maximum_ns :: int
  positive_measured_events :: nat

definition measured_samples :: "int list \<Rightarrow> u64 \<Rightarrow> u64 \<Rightarrow> int list" where
  "measured_samples samples warmup_events measured_events =
     sort (map (\<lambda>index. samples ! index) [unat warmup_events..<unat (warmup_events + measured_events)])"

definition percentile :: "int list \<Rightarrow> size_t \<Rightarrow> size_t \<Rightarrow> int" where
  "percentile measured numerator denominator =
     measured ! unat (percentile_index (of_nat (length measured)) numerator denominator)"

definition summarize :: "int list \<Rightarrow> u64 \<Rightarrow> u64 \<Rightarrow> distribution" where
  "summarize samples warmup_events measured_events =
     (let measured = measured_samples samples warmup_events measured_events
      in \<lparr>p50_ns = percentile measured 50 100, p90_ns = percentile measured 90 100,
          p95_ns = percentile measured 95 100, p99_ns = percentile measured 99 100,
          p99_9_ns = percentile measured 999 1000, maximum_ns = last measured,
          positive_measured_events = length (filter (\<lambda>v. v > 0) measured)\<rparr>)"

section \<open>Exactness\<close>

lemma div_split_nat: "(l div d) * n + (l mod d) * n div d = l * n div (d :: nat)"
proof (cases "d = 0")
  case False
  have "l * n = ((l div d) * n) * d + (l mod d) * n"
    by (metis (no_types) add_mult_distrib div_mult_mod_eq mult.assoc mult.commute)
  then show ?thesis using False by simp
qed simp

lemma percentile_index_exact:
  assumes c: "0 < unat count" and n: "unat numerator \<le> unat denominator" and d: "unat denominator \<le> 2 ^ 31"
  shows "unat (percentile_index count numerator denominator) =
    (unat count - 1) * unat numerator div unat denominator"
    and "unat (percentile_index count numerator denominator) < unat count"
proof -
  let ?l = "unat (count - 1)" and ?n = "unat numerator" and ?d = "unat denominator"
  have l: "?l = unat count - 1" using c by (simp add: unat_minus_one unat_gt_0)
  have le: "?l * ?n div ?d \<le> ?l"
    using n by (cases "?d = 0") (auto simp: div_le_mono intro!: order_trans [OF div_le_mono [of "?l * ?n" "?l * ?d" ?d]] mult_le_mono2)
  have "(?l mod ?d) * ?n < 2 ^ 64"
  proof (cases "?d = 0")
    case False
    then have "?l mod ?d \<le> 2 ^ 31" using mod_less_divisor [of ?d ?l] d by linarith
    then have "(?l mod ?d) * ?n \<le> 2 ^ 31 * 2 ^ 31" using n d by (intro mult_le_mono) auto
    then show ?thesis by simp
  qed (use n in simp)
  then have second: "unat (((count - 1) mod denominator) * numerator div denominator) = (?l mod ?d) * ?n div ?d"
    by (simp add: unat_div unat_mod unat_word_ariths)
  have sum: "(?l div ?d) * ?n + (?l mod ?d) * ?n div ?d \<le> ?l" unfolding div_split_nat by (rule le)
  then have "(?l div ?d) * ?n < 2 ^ 64" using unat_lt_2p64 [of "count - 1"] by linarith
  then have first: "unat ((count - 1) div denominator * numerator) = (?l div ?d) * ?n"
    by (simp add: unat_div unat_word_ariths)
  have "unat (percentile_index count numerator denominator) = (?l div ?d) * ?n + (?l mod ?d) * ?n div ?d"
    unfolding percentile_index_def Let_def
    using unat_add_no_wrap [of "(count - 1) div denominator * numerator" "((count - 1) mod denominator) * numerator div denominator"]
      sum unat_lt_2p64 [of "count - 1"] unfolding first second by linarith
  then show eq: "unat (percentile_index count numerator denominator) = (unat count - 1) * ?n div ?d"
    unfolding div_split_nat l .
  show "unat (percentile_index count numerator denominator) < unat count"
    unfolding eq using le c unfolding l by linarith
qed

section \<open>Summaries\<close>

lemma measured_samples_mset:
  assumes "unat warmup_events + unat measured_events < 2 ^ 64" "unat warmup_events + unat measured_events \<le> length samples"
  shows "measured_samples samples warmup_events measured_events =
    sort (take (unat measured_events) (drop (unat warmup_events) samples))"
proof -
  have "map (\<lambda>index. samples ! index) [unat warmup_events..<unat warmup_events + unat measured_events] =
      take (unat measured_events) (drop (unat warmup_events) samples)"
    using assms(2) by (intro nth_equalityI) auto
  then show ?thesis using assms(1) by (simp add: measured_samples_def unat_add_no_wrap)
qed

lemma sorted_filter_le:
  assumes "sorted xs" "k < length xs"
  shows "k < length (filter (\<lambda>v. v \<le> xs ! k) (xs :: int list))"
proof -
  have "filter (\<lambda>v. v \<le> xs ! k) (take (Suc k) xs) = take (Suc k) xs"
    using assms by (auto simp: filter_id_conv in_set_conv_nth intro!: sorted_nth_mono)
  moreover have "filter (\<lambda>v. v \<le> xs ! k) xs =
      filter (\<lambda>v. v \<le> xs ! k) (take (Suc k) xs) @ filter (\<lambda>v. v \<le> xs ! k) (drop (Suc k) xs)"
    by (metis append_take_drop_id filter_append)
  ultimately show ?thesis using assms(2) by simp
qed

lemma sorted_filter_less:
  assumes "sorted xs" "k < length xs"
  shows "length (filter (\<lambda>v. v < xs ! k) (xs :: int list)) \<le> k"
proof -
  have "xs ! k \<le> v" if "v \<in> set (drop k xs)" for v
    using that assms by (auto simp: in_set_conv_nth intro!: sorted_nth_mono)
  then have "filter (\<lambda>v. v < xs ! k) (drop k xs) = []" by (fastforce simp: filter_empty_conv)
  then have "filter (\<lambda>v. v < xs ! k) xs = filter (\<lambda>v. v < xs ! k) (take k xs)"
    by (metis append_Nil2 append_take_drop_id filter_append)
  then show ?thesis by (metis length_filter_le length_take min.bounded_iff)
qed

lemma sorted_le_last: "sorted xs \<Longrightarrow> xs \<noteq> [] \<Longrightarrow> \<forall>x \<in> set xs. x \<le> (last xs :: int)"
  by (induction xs) (auto split: if_splits)

text \<open>What a percentile of a sorted sample is: in range, monotone, and of the right rank.\<close>

lemma percentile_rank:
  assumes xs: "sorted xs" "xs \<noteq> []" "length xs < 2 ^ 64" and n: "unat numerator \<le> unat denominator"
    "0 < unat denominator" "unat denominator \<le> 2 ^ 31"
  shows "percentile xs numerator denominator = xs ! ((length xs - 1) * unat numerator div unat denominator)"
    and "percentile xs numerator denominator \<in> set xs" and "percentile xs numerator denominator \<le> last xs"
    and "(length xs - 1) * unat numerator <
      unat denominator * length (filter (\<lambda>v. v \<le> percentile xs numerator denominator) xs)"
    and "unat denominator * length (filter (\<lambda>v. v < percentile xs numerator denominator) xs) \<le>
      (length xs - 1) * unat numerator"
proof -
  let ?k = "(length xs - 1) * unat numerator div unat denominator"
  have len: "unat (of_nat (length xs) :: u64) = length xs" using xs(3) by (rule unat_of_nat64)
  have idx: "unat (percentile_index (of_nat (length xs)) numerator denominator) = ?k" "?k < length xs"
    using percentile_index_exact [of "of_nat (length xs)" numerator denominator] len xs(2) n by auto
  then show eq: "percentile xs numerator denominator = xs ! ?k" by (simp add: percentile_def)
  show "percentile xs numerator denominator \<in> set xs" unfolding eq using idx(2) by simp
  show "percentile xs numerator denominator \<le> last xs"
    unfolding eq using xs(1,2) idx(2) by (simp add: last_conv_nth sorted_nth_mono)
  have "(length xs - 1) * unat numerator < unat denominator * Suc ?k"
    using n(2) dividend_less_times_div [of "unat denominator" "(length xs - 1) * unat numerator"] by simp
  also have "\<dots> \<le> unat denominator * length (filter (\<lambda>v. v \<le> xs ! ?k) xs)"
    using sorted_filter_le [OF xs(1) idx(2)] by (intro mult_le_mono2) simp
  finally show "(length xs - 1) * unat numerator <
      unat denominator * length (filter (\<lambda>v. v \<le> percentile xs numerator denominator) xs)"
    unfolding eq .
  have "unat denominator * length (filter (\<lambda>v. v < xs ! ?k) xs) \<le> unat denominator * ?k"
    by (rule mult_le_mono2 [OF sorted_filter_less [OF xs(1) idx(2)]])
  also have "\<dots> \<le> (length xs - 1) * unat numerator" by simp
  finally show "unat denominator * length (filter (\<lambda>v. v < percentile xs numerator denominator) xs) \<le>
      (length xs - 1) * unat numerator"
    unfolding eq .
qed

lemma percentile_mono:
  assumes xs: "sorted xs" "xs \<noteq> []" "length xs < 2 ^ 64"
    and n: "unat n1 * unat d2 \<le> unat n2 * unat d1" "0 < unat d1" "0 < unat d2"
      "unat n1 \<le> unat d1" "unat n2 \<le> unat d2" "unat d1 \<le> 2 ^ 31" "unat d2 \<le> 2 ^ 31"
  shows "percentile xs n1 d1 \<le> percentile xs n2 d2"
proof -
  let ?m = "length xs - 1"
  have "?m * unat n1 div unat d1 = (?m * unat n1 * unat d2) div (unat d1 * unat d2)" using n(3) by simp
  also have "\<dots> \<le> (?m * unat n2 * unat d1) div (unat d1 * unat d2)"
    using mult_le_mono2 [OF n(1), of ?m] by (intro div_le_mono) (simp add: ac_simps)
  also have "\<dots> = ?m * unat n2 div unat d2" using n(2) by (simp add: mult.commute [of "unat d1"])
  finally have le: "?m * unat n1 div unat d1 \<le> ?m * unat n2 div unat d2" .
  have "?m * unat n2 div unat d2 \<le> ?m * unat d2 div unat d2" using n(5) by (intro div_le_mono mult_le_mono2)
  then have "?m * unat n2 div unat d2 \<le> ?m" unfolding nonzero_mult_div_cancel_right [OF less_imp_neq [OF n(3), symmetric]] .
  moreover have "?m < length xs" using xs(2) by (cases xs) auto
  ultimately have "?m * unat n2 div unat d2 < length xs" by (rule le_less_trans)
  then show ?thesis
    unfolding percentile_rank(1) [OF xs n(4,2,6)] percentile_rank(1) [OF xs n(5,3,7)]
    using xs(1) le by (intro sorted_nth_mono)
qed

text \<open>All samples positive means all measured ones are.\<close>

lemma summarize_all_positive:
  assumes "unat warmup_events + unat measured_events < 2 ^ 64" "unat warmup_events + unat measured_events \<le> length samples"
    and "\<And>v. v \<in> set samples \<Longrightarrow> 0 < v"
  shows "positive_measured_events (summarize samples warmup_events measured_events) = unat measured_events"
proof -
  let ?xs = "take (unat measured_events) (drop (unat warmup_events) samples)"
  have "filter (\<lambda>v. v > 0) (sort ?xs) = sort ?xs"
    using assms(3) by (auto simp: filter_id_conv dest!: in_set_takeD in_set_dropD)
  then show ?thesis using assms(2) by (simp add: summarize_def Let_def measured_samples_mset [OF assms(1,2)])
qed

text \<open>C37: The latency summary is exact: for any warm-up and measured counts that fit the samples, the
  index arithmetic neither overflows nor leaves the vector, the percentiles and the maximum are
  measured samples in ascending order, and each percentile is exactly the order statistic of its
  rank: with \<open>n\<close> measured samples, more than the named share of \<open>n - 1\<close> samples lies at or below it
  and at most that share lies strictly below it, which no other value satisfies. The maximum bounds
  every measured sample, and the count of positive samples is exact, so it equals the measured
  events exactly when all of them are positive.\<close>

theorem latency_summary_exact:
  assumes "0 < unat measured_events" "unat warmup_events + unat measured_events < 2 ^ 64"
    and "unat warmup_events + unat measured_events \<le> length samples"
  defines "d \<equiv> summarize samples warmup_events measured_events"
    and "xs \<equiv> take (unat measured_events) (drop (unat warmup_events) samples)"
  shows "p50_ns d \<le> p90_ns d \<and> p90_ns d \<le> p95_ns d \<and> p95_ns d \<le> p99_ns d \<and> p99_ns d \<le> p99_9_ns d \<and>
    p99_9_ns d \<le> maximum_ns d \<and>
    set [p50_ns d, p90_ns d, p95_ns d, p99_ns d, p99_9_ns d, maximum_ns d] \<subseteq> set xs \<and>
    (\<forall>x \<in> set xs. x \<le> maximum_ns d) \<and>
    (\<forall>(p, numerator, denominator) \<in> {(p50_ns d, 50, 100), (p90_ns d, 90, 100), (p95_ns d, 95, 100),
        (p99_ns d, 99, 100), (p99_9_ns d, 999, 1000)}.
      (unat measured_events - 1) * numerator < denominator * length (filter (\<lambda>x. x \<le> p) xs) \<and>
      denominator * length (filter (\<lambda>x. x < p) xs) \<le> (unat measured_events - 1) * numerator) \<and>
    positive_measured_events d = length (filter (\<lambda>x. 0 < x) xs) \<and>
    (positive_measured_events d = unat measured_events \<longleftrightarrow> (\<forall>x \<in> set xs. 0 < x))"
proof -
  let ?m = "sort xs"
  have len: "length xs = unat measured_events" using assms(3) by (simp add: xs_def)
  have lm: "length ?m = unat measured_events" using len by simp
  have m: "sorted ?m" "?m \<noteq> []" "length ?m < 2 ^ 64"
    using lm assms(1,2) by (simp, metis list.size(3) less_irrefl, simp)
  have d: "p50_ns d = percentile ?m 50 100" "p90_ns d = percentile ?m 90 100" "p95_ns d = percentile ?m 95 100"
    "p99_ns d = percentile ?m 99 100" "p99_9_ns d = percentile ?m 999 1000" "maximum_ns d = last ?m"
    "positive_measured_events d = length (filter (\<lambda>v. v > 0) ?m)"
    unfolding d_def summarize_def Let_def measured_samples_mset [OF assms(2,3), folded xs_def] by simp_all
  have rank: "(unat measured_events - 1) * unat n < unat q * length (filter (\<lambda>x. x \<le> percentile ?m n q) xs) \<and>
      unat q * length (filter (\<lambda>x. x < percentile ?m n q) xs) \<le> (unat measured_events - 1) * unat n"
    if "unat n \<le> unat q" "0 < unat q" "unat q \<le> 2 ^ 31" for n q
  proof -
    have "length (filter P ?m) = length (filter P xs)" for P
      by (metis filter_sort length_sort)
    then show ?thesis using percentile_rank(4,5) [OF m that] len by simp
  qed
  have order: "p50_ns d \<le> p90_ns d" "p90_ns d \<le> p95_ns d" "p95_ns d \<le> p99_ns d" "p99_ns d \<le> p99_9_ns d"
    "p99_9_ns d \<le> maximum_ns d"
    unfolding d by (rule percentile_mono [OF m] percentile_rank(3) [OF m]; simp)+
  have mem: "set [p50_ns d, p90_ns d, p95_ns d, p99_ns d, p99_9_ns d, maximum_ns d] \<subseteq> set ?m"
    unfolding d using percentile_rank(2) [OF m, of 50 100] percentile_rank(2) [OF m, of 90 100]
      percentile_rank(2) [OF m, of 95 100] percentile_rank(2) [OF m, of 99 100] percentile_rank(2) [OF m, of 999 1000]
      last_in_set [OF m(2)]
    by (simp del: set_sort last_in_set)
  have max: "\<forall>x \<in> set xs. x \<le> maximum_ns d"
    unfolding d using sorted_le_last [OF m(1,2)] by simp
  have count: "positive_measured_events d = length (filter (\<lambda>x. 0 < x) xs)"
    unfolding d by (metis filter_sort length_sort)
  then have pos: "positive_measured_events d = unat measured_events \<longleftrightarrow> (\<forall>x \<in> set xs. 0 < x)"
    using len by (metis filter_id_conv length_filter_less nat_neq_iff)
  show ?thesis using order mem [unfolded set_sort] max count pos rank [of 50 100] rank [of 90 100] rank [of 95 100] rank [of 99 100] rank [of 999 1000]
    unfolding d(1-5) by simp
qed

theorem latency_summary_exact_witness:
  "p99_9_ns (summarize [9, 5, 3, 4] 1 3) \<le> maximum_ns (summarize [9, 5, 3, 4] 1 3)"
  using latency_summary_exact [of 3 1 "[9, 5, 3, 4]"] by simp

end
