(* ===== verification/Paired_Benchmark.thy ===== *)
theory Paired_Benchmark
  imports Stream_Client
begin

text \<open>
  The measured loops of \<open>paired_benchmark.cpp\<close> over the producer and consumer handles: the
  event, the writer, the validating handler, the phases and their acceptance, and the
  closed-form checksum. A phase's two threads take turns in any order; the clock and the
  CPU pinning are outside the model, the measured duration is a parameter of each phase.
\<close>

unbundle bit_operations_syntax

section \<open>Checksums\<close>

definition expected_checksum :: "u64 \<Rightarrow> u64" where
  "expected_checksum count =
     (if count AND 1 = 0 then (count div 2) * (count - 1) else count * ((count - 1) div 2))"

lemma of_nat_div_two: "k < 2 ^ 64 \<Longrightarrow> (of_nat k :: u64) div 2 = of_nat (k div 2)"
  by (simp add: word_unat_eq_iff unat_div unat_of_nat64 del: word_of_nat_eq_0_iff)

lemma and_one_even: "((w :: u64) AND 1 = 0) \<longleftrightarrow> even (unat w)"
  by (simp add: and_one_eq word_unat_eq_iff unat_mod even_iff_mod_2_eq_zero)

lemma expected_checksum_sum:
  assumes "k < 2 ^ 64"
  shows "expected_checksum (of_nat k) = (\<Sum>q<k. of_nat q)"
proof -
  have k: "unat (of_nat k :: u64) = k" using assms by (rule unat_of_nat64)
  have sum: "(\<Sum>q<k. of_nat q) = (of_nat (k * (k - 1) div 2) :: u64)"
    unfolding sum_upto_nat [symmetric] by (rule of_nat_sum [symmetric])
  show ?thesis
  proof (cases "even k")
    case True
    then obtain m where m: "k = 2 * m" by blast
    have half: "(of_nat k :: u64) div 2 = of_nat m" using of_nat_div_two [OF assms] m by simp
    have "expected_checksum (of_nat k) = of_nat m * (of_nat k - 1)"
      unfolding expected_checksum_def and_one_even k using True half by simp
    also have "\<dots> = of_nat (m * (k - 1))" by (cases k) (simp_all add: m)
    also have "m * (k - 1) = k * (k - 1) div 2" by (simp add: m)
    finally show ?thesis using sum by simp
  next
    case False
    then obtain m where m: "k = 2 * m + 1" using oddE by blast
    have "(of_nat k - 1 :: u64) = of_nat (2 * m)" by (simp add: m)
    then have half: "(of_nat k - 1 :: u64) div 2 = of_nat m"
      using of_nat_div_two [of "2 * m"] assms m by simp
    have "expected_checksum (of_nat k) = of_nat k * of_nat m"
      unfolding expected_checksum_def and_one_even k using False half by simp
    also have "\<dots> = of_nat (k * m)" by simp
    also have "k * m = k * (k - 1) div 2" by (simp add: m)
    finally show ?thesis using sum by simp
  qed
qed

section \<open>Events, writer and handler\<close>

record event =
  event_value :: u64

record validation =
  consumed :: u64
  checksum :: u64
  order_value_mismatch :: u64

definition write_value :: "u64 \<Rightarrow> (event, unit) batch_writer" where
  "write_value n_published output index w = (output\<lparr>event_value := n_published + index\<rparr>, w)"

definition observe_event :: "u64 \<Rightarrow> (event, validation) sequence_handler" where
  "observe_event first_sequence input sequence r =
     (let expected = consumed r
      in r\<lparr>order_value_mismatch := order_value_mismatch r OR
             ((event_value input XOR expected) OR (sequence XOR (first_sequence + expected))),
           checksum := checksum r + event_value input,
           consumed := consumed r + 1\<rparr>)"

definition new_validation :: validation where
  "new_validation = \<lparr>consumed = 0, checksum = 0, order_value_mismatch = 0\<rparr>"

record phase_settings =
  producer_batch :: size_t
  drain_limit :: size_t
  event_count :: u64

definition ring_capacity :: size_t where
  "ring_capacity = 65536"

text \<open>The batch and drain sizes the templates are instantiated for, and exact batches.\<close>

definition phase_ok :: "phase_settings \<Rightarrow> bool" where
  "phase_ok x \<longleftrightarrow> producer_batch x \<in> {1, 16, 64} \<and> drain_limit x \<in> {1, 16, 64, ring_capacity} \<and>
     event_count x mod producer_batch x = 0"

definition phase_program :: "phase_settings \<Rightarrow> (event, validation) stream_program" where
  "phase_program x =
     \<lparr>event_total = event_count x, batch = (\<lambda>_. producer_batch x), event_writer_from = write_value,
      drain = drain_limit x, handler_from = observe_event, progress_of = consumed,
      advance = (\<lambda>_ r. r)\<rparr>"

definition validated :: "u64 \<Rightarrow> nat \<Rightarrow> validation" where
  "validated first k = \<lparr>consumed = of_nat k, checksum = (\<Sum>q<k. of_nat q), order_value_mismatch = 0\<rparr>"

lemma deliver_observe:
  "deliver (observe_event first) (first + of_nat k) (map (\<lambda>q. \<lparr>event_value = of_nat q\<rparr>) [k..<k + n])
     (validated first k) = validated first (k + n)"
  by (rule deliver_steps) (simp add: observe_event_def validated_def Let_def add.commute)

interpretation phase: stream_client "handle_publish b" handle_consume handle_position
  "handle_models b base ring_capacity 1" "unat ring_capacity" 1 base phase_ok phase_program
  "\<lambda>_ q. \<lparr>event_value = of_nat q\<rparr>" "\<lambda>x p. unat (producer_batch x) dvd p" "\<lambda>_. validated"
  for b base
proof unfold_locales
  fix x p assume x: "phase_ok x" and al: "unat (producer_batch x) dvd p"
    and p: "p < unat (event_total (phase_program x))"
  let ?P = "unat (producer_batch x)"
  have P: "0 < ?P" "?P \<le> unat ring_capacity" using x by (auto simp: phase_ok_def ring_capacity_def)
  have "unat (event_count x mod producer_batch x) = 0" using x by (simp add: phase_ok_def)
  then have "?P dvd unat (event_count x)" by (simp add: unat_mod mod_eq_0_iff_dvd)
  then have "p + ?P \<le> unat (event_count x)"
    using al p by (metis P(1) add.commute add_le_cancel_left dvd_def dvd_diff_nat dvd_imp_le
        less_imp_le_nat le_add_diff_inverse phase_program_def stream_program.select_convs(1) zero_less_diff)
  then show "0 < unat (batch (phase_program x) (event_total (phase_program x) - of_nat p)) \<and>
      unat (batch (phase_program x) (event_total (phase_program x) - of_nat p)) \<le> unat ring_capacity \<and>
      p + unat (batch (phase_program x) (event_total (phase_program x) - of_nat p)) \<le>
        unat (event_total (phase_program x)) \<and>
      ?P dvd p + unat (batch (phase_program x) (event_total (phase_program x) - of_nat p))"
    using P al by (simp add: phase_program_def)
next
  show "phase_ok x \<Longrightarrow> drain (phase_program x) \<noteq> 0" for x
    by (auto simp: phase_ok_def phase_program_def ring_capacity_def)
next
  fix x p and old :: "event list"
  show "fst (written (event_writer_from (phase_program x) (of_nat p)) old 0 ()) =
      map (\<lambda>q. \<lparr>event_value = of_nat q\<rparr>) [p..<p + length old]"
    using written_values_from [where writer = "write_value (of_nat p)" and g = "\<lambda>v. \<lparr>event_value = v\<rparr>" and old = old]
    by (simp add: phase_program_def write_value_def)
next
  show "advance (phase_program x) (of_nat n) (deliver (handler_from (phase_program x) first) (first + of_nat k)
      (map (\<lambda>q. \<lparr>event_value = of_nat q\<rparr>) [k..<k + n]) (validated first k)) = validated first (k + n)"
    for x n first k
    by (simp add: phase_program_def deliver_observe)
  show "progress_of (phase_program x) (validated first k) = of_nat k" for x first k
    by (simp add: phase_program_def validated_def)
qed

section \<open>Phases\<close>

text \<open>
  One phase: both threads run their turns on the stream the phase before left, and the
  producer's thread then validates what the consumer measured.
\<close>

definition run_phase :: "build \<Rightarrow> phase_settings \<Rightarrow> int \<Rightarrow> turn list \<Rightarrow> event endpoint \<Rightarrow>
    run_error + event endpoint \<times> validation" where
  "run_phase b x duration_ns turns s =
     (let first_sequence = handle_position s 0
      in case run_turns (handle_publish b) handle_consume (phase_program x) first_sequence turns
           \<lparr>cl_stream = s, cl_published = 0, cl_handlers = [new_validation]\<rparr> of
           Inl f \<Rightarrow> Inl (Stopped f)
         | Inr c \<Rightarrow>
             if \<not> finished (phase_program x) c then Inl Still_running
             else let r = cl_handlers c ! 0
               in if duration_ns \<le> 0 \<or> consumed r \<noteq> event_count x \<or>
                     checksum r \<noteq> expected_checksum (event_count x) \<or> order_value_mismatch r \<noteq> 0
                  then Inl Failed_validation else Inr (cl_stream c, r))"

text \<open>The warm-up phases and the measured one; the result is the last phase's.\<close>

fun run_all_phases :: "build \<Rightarrow> size_t \<Rightarrow> size_t \<Rightarrow> (u64 \<times> int \<times> turn list) list \<Rightarrow> event endpoint \<Rightarrow>
    validation \<Rightarrow> run_error + event endpoint \<times> validation" where
  "run_all_phases b P D [] s measured = Inr (s, measured)"
| "run_all_phases b P D ((count, duration_ns, turns) # phases) s measured =
     (case run_phase b \<lparr>producer_batch = P, drain_limit = D, event_count = count\<rparr> duration_ns turns s of
        Inl e \<Rightarrow> Inl e
      | Inr (s', r) \<Rightarrow> run_all_phases b P D phases s' r)"

definition correct_sample :: "u64 \<Rightarrow> validation" where
  "correct_sample count = \<lparr>consumed = count, checksum = expected_checksum count, order_value_mismatch = 0\<rparr>"

definition drained :: "build \<Rightarrow> u64 \<Rightarrow> event endpoint \<Rightarrow> bool" where
  "drained b base s \<longleftrightarrow> (\<exists>log. handle_models b base ring_capacity 1 s log [length log])"

lemma phase_start:
  assumes "handle_models b base ring_capacity 1 s log [length log]"
  shows "handle_position s 0 = base + of_nat (length log)"
    and "phase.at b base x log \<lparr>cl_stream = s, cl_published = 0, cl_handlers = [new_validation]\<rparr> 0 [0]"
  using handles.position_law [OF assms, of 0] assms
  unfolding phase.at_def by (simp_all add: new_validation_def validated_def)

lemma validated_all: "validated first (unat n) = correct_sample n"
  using expected_checksum_sum [of "unat n"] unat_lt_2p64 [of n]
  by (simp add: validated_def correct_sample_def)

lemma phase_end:
  assumes ok: "phase_ok x" and at: "phase.at b base x log c p ks" and fin: "finished (phase_program x) c"
  shows "cl_handlers c ! 0 = correct_sample (event_count x)" "drained b base (cl_stream c)"
proof -
  have len: "length ks = 1" by (rule phase.at_shape(1) [OF at])
  then obtain k where ks: "ks = [k]" by (cases ks) auto
  have p: "p = unat (event_count x)" "k = p"
    using phase.finished_at [OF ok at] fin by (auto simp: ks phase_program_def)
  have "cl_handlers c = [validated (base + of_nat (length log)) k]"
    using at unfolding phase.at_def by (simp add: ks)
  then show "cl_handlers c ! 0 = correct_sample (event_count x)" using p by (simp add: validated_all)
  have "handle_models b base ring_capacity 1 (cl_stream c)
      (log @ map (\<lambda>q. \<lparr>event_value = of_nat q\<rparr>) [0..<p]) [length log + k]"
    using at unfolding phase.at_def by (simp add: ks)
  then show "drained b base (cl_stream c)" using p(2) unfolding drained_def
    by (intro exI [of _ "log @ map (\<lambda>q. \<lparr>event_value = of_nat q\<rparr>) [0..<p]"]) simp
qed

lemma run_phase_result:
  assumes ok: "phase_ok x" and ns: "0 < duration_ns" and ts: "\<forall>t \<in> set turns. turn_ok 1 t"
    and start: "drained b base s"
  shows "run_phase b x duration_ns turns s = Inl Still_running \<or>
    (\<exists>s'. run_phase b x duration_ns turns s = Inr (s', correct_sample (event_count x)) \<and> drained b base s')"
proof -
  obtain log where m: "handle_models b base ring_capacity 1 s log [length log]"
    using start by (auto simp: drained_def)
  let ?c = "\<lparr>cl_stream = s, cl_published = 0, cl_handlers = [new_validation]\<rparr>"
  obtain c p ks where run: "run_turns (handle_publish b) handle_consume (phase_program x)
      (base + of_nat (length log)) turns ?c = Inr c" and at: "phase.at b base x log c p ks"
    using phase.run_turns_at [OF ok phase_start(2) [OF m] ts] by blast
  show ?thesis
  proof (cases "finished (phase_program x) c")
    case True
    then show ?thesis using phase_end [OF ok at True] ns run phase_start(1) [OF m]
      by (simp add: run_phase_def correct_sample_def)
  next
    case False
    then show ?thesis using run phase_start(1) [OF m] by (simp add: run_phase_def)
  qed
qed

lemma run_phase_finishes:
  assumes ok: "phase_ok x" and ns: "0 < duration_ns" and start: "drained b base s"
  shows "\<exists>m s'. m \<le> 2 * unat (event_count x) \<and>
    run_phase b x duration_ns (concat (replicate m (fair_round 1))) s = Inr (s', correct_sample (event_count x)) \<and>
    drained b base s'"
proof -
  obtain log where m: "handle_models b base ring_capacity 1 s log [length log]"
    using start by (auto simp: drained_def)
  let ?c = "\<lparr>cl_stream = s, cl_published = 0, cl_handlers = [new_validation]\<rparr>"
  obtain n c p ks where run: "run_turns (handle_publish b) handle_consume (phase_program x)
      (base + of_nat (length log)) (concat (replicate n (fair_round 1))) ?c = Inr c"
    and fin: "finished (phase_program x) c" and at: "phase.at b base x log c p ks"
    and n: "n \<le> Suc 1 * unat (event_total (phase_program x)) - (0 + sum_list [0])"
    using phase.fair_rounds_finish [OF ok phase_start(2) [OF m]] by blast
  then show ?thesis using phase_end [OF ok at fin] ns phase_start(1) [OF m]
    by (intro exI [of _ n] exI [of _ "cl_stream c"])
      (simp add: run_phase_def correct_sample_def phase_program_def)
qed

lemma run_all_phases_result:
  assumes "\<forall>(count, ns, turns) \<in> set phases.
      phase_ok \<lparr>producer_batch = P, drain_limit = D, event_count = count\<rparr> \<and> 0 < ns \<and> (\<forall>t \<in> set turns. turn_ok 1 t)"
    and "drained b base s"
  shows "run_all_phases b P D phases s measured = Inl Still_running \<or>
    (\<exists>s'. drained b base s' \<and> run_all_phases b P D phases s measured =
      Inr (s', if phases = [] then measured else correct_sample (fst (last phases))))"
  using assms
proof (induction phases arbitrary: s measured)
  case (Cons ph phases)
  obtain count ns turns where ph: "ph = (count, ns, turns)" by (cases ph) auto
  let ?x = "\<lparr>producer_batch = P, drain_limit = D, event_count = count\<rparr>"
  have "phase_ok ?x" "0 < ns" "\<forall>t \<in> set turns. turn_ok 1 t" using Cons.prems(1) by (auto simp: ph)
  from run_phase_result [OF this Cons.prems(2)]
  consider "run_phase b ?x ns turns s = Inl Still_running"
    | s' where "run_phase b ?x ns turns s = Inr (s', correct_sample count)" "drained b base s'"
    by auto
  then show ?case
  proof cases
    case 1
    then show ?thesis by (simp add: ph)
  next
    case 2
    then show ?thesis using Cons.IH [OF _ 2(2), of "correct_sample count"] Cons.prems(1) by (auto simp: ph)
  qed
qed simp

lemma run_all_phases_finishes:
  assumes "\<forall>count \<in> set counts. phase_ok \<lparr>producer_batch = P, drain_limit = D, event_count = count\<rparr>"
    and "drained b base s" "0 < ns"
  shows "\<exists>rounds s'. length rounds = length counts \<and> drained b base s' \<and>
    list_all2 (\<lambda>m count. m \<le> 2 * unat count) rounds counts \<and>
    run_all_phases b P D (map2 (\<lambda>count m. (count, ns, concat (replicate m (fair_round 1)))) counts rounds) s measured =
      Inr (s', if counts = [] then measured else correct_sample (last counts))"
  using assms
proof (induction counts arbitrary: s measured)
  case (Cons count counts)
  let ?x = "\<lparr>producer_batch = P, drain_limit = D, event_count = count\<rparr>"
  obtain m s1 where one: "m \<le> 2 * unat count" "drained b base s1"
    "run_phase b ?x ns (concat (replicate m (fair_round 1))) s = Inr (s1, correct_sample count)"
    using run_phase_finishes [of ?x ns b base s] Cons.prems by auto
  obtain rounds s2 where "length rounds = length counts" "drained b base s2"
    "list_all2 (\<lambda>m count. m \<le> 2 * unat count) rounds counts"
    "run_all_phases b P D (map2 (\<lambda>count m. (count, ns, concat (replicate m (fair_round 1)))) counts rounds) s1
      (correct_sample count) = Inr (s2, if counts = [] then correct_sample count else correct_sample (last counts))"
    using Cons.IH [of s1 "correct_sample count"] Cons.prems one(2) by auto
  then show ?case using one by (intro exI [of _ "m # rounds"] exI [of _ s2]) simp
qed simp

section \<open>Properties\<close>

lemma new_endpoint_drained:
  "\<exists>s. new_endpoint b ring_capacity 1 dflt p = Inr s \<and> drained b p s"
proof -
  have "template_ok ring_capacity 1" by code_simp
  then obtain s where "new_endpoint b ring_capacity 1 dflt p = Inr s"
    "handle_models b p ring_capacity 1 s [] (replicate 1 0)"
    using new_handle_models [of ring_capacity 1 b dflt p] by blast
  moreover from this(2) have "drained b p s" unfolding drained_def by (intro exI [of _ "[]"]) simp
  ultimately show ?thesis by blast
qed

text \<open>The paired benchmark's acceptance never rejects a correct run: with the supported
  batch and drain sizes and exact batches, whatever turns the two threads take and whatever
  position the stream starts at, every warm-up phase and the measured one consume exactly
  their events in order, with the closed-form checksum and no order mismatch, so that the
  only other outcome is that the schedule ends before the loops do.\<close>

theorem paired_run_validates:
  assumes "P \<in> {1, 16, 64}" "D \<in> {1, 16, 64, ring_capacity}" "phases \<noteq> []"
    and "\<forall>(count, ns, turns) \<in> set phases. count mod P = 0 \<and> 0 < ns \<and> (\<forall>t \<in> set turns. turn_ok 1 t)"
  shows "\<exists>s. new_endpoint b ring_capacity 1 \<lparr>event_value = 0\<rparr> position = Inr s \<and>
    (run_all_phases b P D phases s new_validation = Inl Still_running \<or>
     (\<exists>s'. run_all_phases b P D phases s new_validation =
        Inr (s', \<lparr>consumed = fst (last phases), checksum = (\<Sum>q < unat (fst (last phases)). of_nat q),
                  order_value_mismatch = 0\<rparr>)))"
proof -
  obtain s where s: "new_endpoint b ring_capacity 1 \<lparr>event_value = 0\<rparr> position = Inr s" "drained b position s"
    using new_endpoint_drained by blast
  have sum: "correct_sample n = \<lparr>consumed = n, checksum = (\<Sum>q < unat n. of_nat q), order_value_mismatch = 0\<rparr>" for n
    using validated_all [of undefined n] by (simp add: validated_def)
  have "\<forall>(count, ns, turns) \<in> set phases. phase_ok \<lparr>producer_batch = P, drain_limit = D, event_count = count\<rparr> \<and>
      0 < ns \<and> (\<forall>t \<in> set turns. turn_ok 1 t)"
    using assms by (auto simp: phase_ok_def)
  from run_all_phases_result [OF this s(2), of new_validation] show ?thesis
    using s(1) assms(3) by (auto simp: sum)
qed

theorem paired_run_validates_witness:
  "\<exists>s. new_endpoint Debug ring_capacity 1 \<lparr>event_value = 0\<rparr> 5 = Inr s \<and>
    (run_all_phases Debug 1 16 [(2, 9, [Producer_turn, Producer_turn, Consumer_turn 0])] s new_validation = Inl Still_running \<or>
     (\<exists>s'. run_all_phases Debug 1 16 [(2, 9, [Producer_turn, Producer_turn, Consumer_turn 0])] s new_validation =
        Inr (s', \<lparr>consumed = 2, checksum = 1, order_value_mismatch = 0\<rparr>)))"
proof -
  have sum: "(\<Sum>q < 2. of_nat q) = (1 :: u64)" by (simp add: numeral_2_eq_2)
  show ?thesis
    using paired_run_validates [of 1 16 "[(2, 9, [Producer_turn, Producer_turn, Consumer_turn 0])]" Debug 5]
    by (simp add: turn_ok_def sum)
qed

text \<open>The benchmark terminates: if both threads keep getting turns, every phase ends after
  at most two rounds per event, and the whole run returns the validated sample; no
  batch is starved and no consumer waits for an event that will not come.\<close>

theorem paired_run_terminates:
  assumes "P \<in> {1, 16, 64}" "D \<in> {1, 16, 64, ring_capacity}" "counts \<noteq> []"
    and "\<forall>count \<in> set counts. count mod P = 0" "0 < ns"
  shows "\<exists>s rounds s'. new_endpoint b ring_capacity 1 \<lparr>event_value = 0\<rparr> position = Inr s \<and>
    list_all2 (\<lambda>m count. m \<le> 2 * unat count) rounds counts \<and>
    run_all_phases b P D (map2 (\<lambda>count m. (count, ns, concat (replicate m (fair_round 1)))) counts rounds)
      s new_validation = Inr (s', correct_sample (last counts))"
proof -
  obtain s where s: "new_endpoint b ring_capacity 1 \<lparr>event_value = 0\<rparr> position = Inr s" "drained b position s"
    using new_endpoint_drained by blast
  have "\<forall>count \<in> set counts. phase_ok \<lparr>producer_batch = P, drain_limit = D, event_count = count\<rparr>"
    using assms by (auto simp: phase_ok_def)
  from run_all_phases_finishes [OF this s(2) assms(5), of new_validation] show ?thesis
    using s(1) assms(3) by auto
qed

theorem paired_run_terminates_witness:
  "\<exists>s rounds s'. new_endpoint Debug ring_capacity 1 \<lparr>event_value = 0\<rparr> 5 = Inr s \<and>
    list_all2 (\<lambda>m count. m \<le> 2 * unat count) rounds [16, 64 :: u64] \<and>
    run_all_phases Debug 16 ring_capacity (map2 (\<lambda>count m. (count, 9, concat (replicate m (fair_round 1)))) [16, 64] rounds)
      s new_validation = Inr (s', correct_sample 64)"
  using paired_run_terminates [of 16 ring_capacity "[16, 64]" 9 Debug 5] by simp

text \<open>The closed-form checksum is the exact sum of the first \<open>count\<close> values modulo 2^64, for
  every 64-bit count: dividing before multiplying loses nothing.\<close>

theorem expected_checksum_exact: "expected_checksum count = (\<Sum>q < unat count. of_nat q)"
  using expected_checksum_sum [of "unat count"] unat_lt_2p64 [of count] by simp

end
