(* ===== verification/Paired_Config.thy ===== *)
theory Paired_Config
  imports Paired_Benchmark Text
begin

text \<open>
  The command lines of \<open>paired_benchmark.cpp\<close> and \<open>paired_latency_benchmark.cpp\<close>: parsing,
  the checks that follow it, and the dispatch to the instantiated loops. An exception of
  type \<open>std::invalid_argument\<close> is \<open>Inl\<close> its message; \<open>Inr None\<close> is the exit after \<open>--help\<close>.
  The list is \<open>argv\<close> without the program's name. Integers of type \<open>int\<close> are \<open>int\<close>s.
\<close>

section \<open>Option values\<close>

definition maximum_event_count :: u64 where
  "maximum_event_count = 2 ^ 63 - 1"

definition CPU_SETSIZE :: u64 where
  "CPU_SETSIZE = 1024"

definition parse_u64 :: "string \<Rightarrow> string \<Rightarrow> string + u64" where
  "parse_u64 text option =
     (case from_chars_u64 text of
        (Inr v, []) \<Rightarrow> Inr v
      | _ \<Rightarrow> Inl (''invalid value for '' @ option @ '': '' @ text))"

definition parse_cpu :: "string \<Rightarrow> string \<Rightarrow> string + int" where
  "parse_cpu text option =
     (case parse_u64 text option of
        Inl e \<Rightarrow> Inl e
      | Inr parsed \<Rightarrow> if parsed \<ge> CPU_SETSIZE then Inl (option @ '' must be below CPU_SETSIZE'')
                    else Inr (uint parsed))"

datatype drain_family = Strict | Opportunistic

record paired_config =
  pc_events :: u64
  pc_warmup_events :: u64
  pc_warmup_runs :: size_t
  pc_producer_batch :: size_t
  pc_drain_limit :: size_t
  pc_claim_policy :: string
  pc_producer_cpu :: int
  pc_consumer_cpu :: int
  pc_family :: drain_family
  pc_run_id :: string
  pc_sample_id :: string
  pc_pair_order :: string
  pc_git_revision :: string
  pc_build_profile :: string
  pc_execution_flags :: string

definition default_paired_config :: paired_config where
  "default_paired_config =
     \<lparr>pc_events = 1000000000, pc_warmup_events = 100000000, pc_warmup_runs = 2,
      pc_producer_batch = 1, pc_drain_limit = 1, pc_claim_policy = ''try-publish-batch'',
      pc_producer_cpu = - 1, pc_consumer_cpu = - 1, pc_family = Strict,
      pc_run_id = ''manual'', pc_sample_id = ''1'', pc_pair_order = ''unpaired'',
      pc_git_revision = ''unknown'', pc_build_profile = ''unknown'', pc_execution_flags = ''unknown''\<rparr>"

section \<open>The throughput benchmark\<close>

definition set_option :: "paired_config \<Rightarrow> string \<Rightarrow> string \<Rightarrow> string + paired_config" where
  "set_option c option v =
     (if option = ''--events'' then map_sum id (\<lambda>n. c\<lparr>pc_events := n\<rparr>) (parse_u64 v option)
      else if option = ''--warmup-events'' then map_sum id (\<lambda>n. c\<lparr>pc_warmup_events := n\<rparr>) (parse_u64 v option)
      else if option = ''--warmup-runs'' then map_sum id (\<lambda>n. c\<lparr>pc_warmup_runs := n\<rparr>) (parse_u64 v option)
      else if option = ''--producer-batch'' then map_sum id (\<lambda>n. c\<lparr>pc_producer_batch := n\<rparr>) (parse_u64 v option)
      else if option = ''--claim-policy'' then Inr (c\<lparr>pc_claim_policy := v\<rparr>)
      else if option = ''--drain-limit'' then map_sum id (\<lambda>n. c\<lparr>pc_drain_limit := n\<rparr>) (parse_u64 v option)
      else if option = ''--producer-cpu'' then map_sum id (\<lambda>n. c\<lparr>pc_producer_cpu := n\<rparr>) (parse_cpu v option)
      else if option = ''--consumer-cpu'' then map_sum id (\<lambda>n. c\<lparr>pc_consumer_cpu := n\<rparr>) (parse_cpu v option)
      else if option = ''--family'' then
        (if v = ''strict'' then Inr (c\<lparr>pc_family := Strict\<rparr>)
         else if v = ''opportunistic'' then Inr (c\<lparr>pc_family := Opportunistic\<rparr>)
         else Inl (''unknown drain family: '' @ v))
      else if option = ''--run-id'' then Inr (c\<lparr>pc_run_id := v\<rparr>)
      else if option = ''--sample-id'' then Inr (c\<lparr>pc_sample_id := v\<rparr>)
      else if option = ''--pair-order'' then Inr (c\<lparr>pc_pair_order := v\<rparr>)
      else if option = ''--git-revision'' then Inr (c\<lparr>pc_git_revision := v\<rparr>)
      else if option = ''--build-profile'' then Inr (c\<lparr>pc_build_profile := v\<rparr>)
      else if option = ''--execution-flags'' then Inr (c\<lparr>pc_execution_flags := v\<rparr>)
      else Inl (''unknown option: '' @ option))"

text \<open>The checks after the loop, in their order.\<close>

definition check_config :: "paired_config \<Rightarrow> string + paired_config" where
  "check_config c =
     (if pc_events c = 0 \<or> pc_events c > maximum_event_count
      then Inl ''--events must be in [1, INT64_MAX]''
      else if pc_warmup_events c = 0 \<or> pc_warmup_events c > maximum_event_count
      then Inl ''--warmup-events must be in [1, INT64_MAX]''
      else if pc_warmup_runs c = 0 then Inl ''--warmup-runs must be positive''
      else if pc_producer_batch c = 0 \<or> pc_producer_batch c > ring_capacity
      then Inl ''--producer-batch must be in [1, 65536]''
      else if pc_drain_limit c = 0 \<or> pc_drain_limit c > ring_capacity
      then Inl ''--drain-limit must be in [1, 65536]''
      else if pc_producer_cpu c < 0 \<or> pc_consumer_cpu c < 0
      then Inl ''--producer-cpu and --consumer-cpu are required''
      else if pc_producer_cpu c = pc_consumer_cpu c then Inl ''producer and consumer CPUs must differ''
      else if pc_events c mod pc_producer_batch c \<noteq> 0 \<or> pc_warmup_events c mod pc_producer_batch c \<noteq> 0
      then Inl ''measured and warm-up event counts must be divisible by P so every producer claim is exactly P''
      else let maximum_warmup_runs = (maximum_event_count - pc_events c) div pc_warmup_events c
        in if pc_warmup_runs c > maximum_warmup_runs
           then Inl ''warm-up plus measured positions must fit in INT64_MAX''
      else if pc_producer_batch c \<noteq> 1 \<and> pc_producer_batch c \<noteq> 16 \<and> pc_producer_batch c \<noteq> 64
      then Inl ''supported P values are 1, 16, and 64''
      else if pc_claim_policy c \<noteq> ''try-publish-batch''
      then Inl ''C++ supports --claim-policy try-publish-batch''
      else if pc_drain_limit c \<noteq> 1 \<and> pc_drain_limit c \<noteq> 16 \<and> pc_drain_limit c \<noteq> 64 \<and>
        pc_drain_limit c \<noteq> ring_capacity
      then Inl ''supported D values are 1, 16, 64, and 65536''
      else if pc_family c = Strict \<and> pc_drain_limit c \<noteq> pc_producer_batch c
      then Inl ''strict family requires D=P''
      else if pc_family c = Opportunistic \<and> pc_drain_limit c \<noteq> ring_capacity
      then Inl ''opportunistic family requires D=ring capacity''
      else Inr c)"

text \<open>The loop over the arguments, for a given way to store an option and to check the result.\<close>

fun parse_loop :: "('c \<Rightarrow> string \<Rightarrow> string \<Rightarrow> string + 'c) \<Rightarrow> ('c \<Rightarrow> string + 'c) \<Rightarrow> 'c \<Rightarrow> string list \<Rightarrow>
    string + 'c option" where
  "parse_loop store check c [] = map_sum id Some (check c)"
| "parse_loop store check c [option] =
     (if option = ''--help'' then Inr None else Inl (''missing value for '' @ option))"
| "parse_loop store check c (option # v # args) =
     (if option = ''--help'' then Inr None
      else case store c option v of Inl e \<Rightarrow> Inl e | Inr c' \<Rightarrow> parse_loop store check c' args)"

definition parse_arguments :: "string list \<Rightarrow> string + paired_config option" where
  "parse_arguments args = parse_loop set_option check_config default_paired_config args"

text \<open>
  The switch over the instantiated batch and drain sizes; its default branches throw. The
  phases are the warm-ups and the measured one, each with its duration and its turns.
\<close>

definition run_comparison :: "build \<Rightarrow> paired_config \<Rightarrow> (int \<times> turn list) list \<Rightarrow> event endpoint \<Rightarrow>
    string + (run_error + event endpoint \<times> validation)" where
  "run_comparison b c runs s =
     (if pc_producer_batch c \<notin> {1, 16, 64} then Inl ''supported P values are 1, 16, and 64''
      else if pc_drain_limit c \<notin> {1, 16, 64, ring_capacity}
      then Inl ''supported D values are 1, 16, 64, and 65536''
      else Inr (run_all_phases b (pc_producer_batch c) (pc_drain_limit c)
        (zip (replicate (unat (pc_warmup_runs c)) (pc_warmup_events c) @ [pc_events c]) runs)
        s new_validation))"

section \<open>The latency benchmark\<close>

record latency_config =
  lc_events :: u64
  lc_warmup_events :: u64
  lc_producer_cpu :: int
  lc_consumer_cpu :: int
  lc_run_id :: string
  lc_sample_id :: string
  lc_pair_order :: string
  lc_git_revision :: string
  lc_build_profile :: string
  lc_execution_flags :: string

definition default_latency_config :: latency_config where
  "default_latency_config =
     \<lparr>lc_events = 1000000, lc_warmup_events = 1000000, lc_producer_cpu = - 1, lc_consumer_cpu = - 1,
      lc_run_id = ''manual'', lc_sample_id = ''1'', lc_pair_order = ''unpaired'',
      lc_git_revision = ''unknown'', lc_build_profile = ''unknown'', lc_execution_flags = ''unknown''\<rparr>"

definition set_latency_option :: "latency_config \<Rightarrow> string \<Rightarrow> string \<Rightarrow> string + latency_config" where
  "set_latency_option c option v =
     (if option = ''--events'' then map_sum id (\<lambda>n. c\<lparr>lc_events := n\<rparr>) (parse_u64 v option)
      else if option = ''--warmup-events'' then map_sum id (\<lambda>n. c\<lparr>lc_warmup_events := n\<rparr>) (parse_u64 v option)
      else if option = ''--producer-cpu'' then map_sum id (\<lambda>n. c\<lparr>lc_producer_cpu := n\<rparr>) (parse_cpu v option)
      else if option = ''--consumer-cpu'' then map_sum id (\<lambda>n. c\<lparr>lc_consumer_cpu := n\<rparr>) (parse_cpu v option)
      else if option = ''--run-id'' then Inr (c\<lparr>lc_run_id := v\<rparr>)
      else if option = ''--sample-id'' then Inr (c\<lparr>lc_sample_id := v\<rparr>)
      else if option = ''--pair-order'' then Inr (c\<lparr>lc_pair_order := v\<rparr>)
      else if option = ''--git-revision'' then Inr (c\<lparr>lc_git_revision := v\<rparr>)
      else if option = ''--build-profile'' then Inr (c\<lparr>lc_build_profile := v\<rparr>)
      else if option = ''--execution-flags'' then Inr (c\<lparr>lc_execution_flags := v\<rparr>)
      else Inl (''unknown option: '' @ option))"

definition check_latency_config :: "latency_config \<Rightarrow> string + latency_config" where
  "check_latency_config c =
     (if lc_events c = 0 \<or> lc_events c > maximum_event_count
      then Inl ''--events must be in [1, INT64_MAX]''
      else if lc_warmup_events c = 0 \<or> lc_warmup_events c > maximum_event_count
      then Inl ''--warmup-events must be in [1, INT64_MAX]''
      else if lc_producer_cpu c < 0 \<or> lc_consumer_cpu c < 0
      then Inl ''--producer-cpu and --consumer-cpu are required''
      else if lc_producer_cpu c = lc_consumer_cpu c then Inl ''producer and consumer CPUs must differ''
      else if lc_warmup_events c > maximum_event_count - lc_events c
      then Inl ''warm-up plus measured positions must fit in INT64_MAX''
      else let samples = lc_warmup_events c + lc_events c
        in if samples > - 1 then Inl ''sample storage exceeds SIZE_MAX'' else Inr c)"

definition parse_latency_arguments :: "string list \<Rightarrow> string + latency_config option" where
  "parse_latency_arguments args = parse_loop set_latency_option check_latency_config default_latency_config args"

section \<open>What an accepted command line guarantees\<close>

lemma parse_loop_accepted:
  assumes "parse_loop store check c args = Inr (Some r)" "P c"
    and "\<And>c option v c'. P c \<Longrightarrow> store c option v = Inr c' \<Longrightarrow> P c'"
  shows "\<exists>c'. check c' = Inr r \<and> P c'"
  using assms
proof (induction store check c args rule: parse_loop.induct)
  case (1 store check c)
  then show ?case by (auto simp: map_sum_def split: sum.splits)
next
  case (3 store check c option v args)
  then show ?case by (auto split: if_splits sum.splits)
qed (auto split: if_splits)

definition cpu_ok :: "int \<Rightarrow> bool" where
  "cpu_ok i \<longleftrightarrow> i < 1024"

lemma parse_cpu_bounds: "parse_cpu text option = Inr i \<Longrightarrow> 0 \<le> i \<and> cpu_ok i"
  by (auto simp: parse_cpu_def CPU_SETSIZE_def cpu_ok_def word_le_def split: sum.splits if_splits)

lemma map_sum_Inr: "map_sum id f x = Inr y \<longleftrightarrow> (\<exists>z. x = Inr z \<and> y = f z)"
  by (cases x) auto

lemma set_option_cpus:
  assumes "set_option c option v = Inr c'" "cpu_ok (pc_producer_cpu c) \<and> cpu_ok (pc_consumer_cpu c)"
  shows "cpu_ok (pc_producer_cpu c') \<and> cpu_ok (pc_consumer_cpu c')"
  using assms parse_cpu_bounds
  by (auto simp: set_option_def map_sum_Inr split: if_splits)

lemma check_config_accepted:
  assumes "check_config c = Inr r"
  shows "r = c" "pc_producer_batch c \<in> {1, 16, 64}" "pc_drain_limit c \<in> {1, 16, 64, ring_capacity}"
    and "pc_events c mod pc_producer_batch c = 0" "pc_warmup_events c mod pc_producer_batch c = 0"
    and "pc_family c = Strict \<longrightarrow> pc_drain_limit c = pc_producer_batch c"
    and "pc_family c = Opportunistic \<longrightarrow> pc_drain_limit c = ring_capacity"
    and "0 \<le> pc_producer_cpu c" "0 \<le> pc_consumer_cpu c" "pc_producer_cpu c \<noteq> pc_consumer_cpu c"
    and "pc_events c \<noteq> 0" "pc_warmup_events c \<noteq> 0" "pc_warmup_runs c \<noteq> 0"
    and "pc_events c \<le> maximum_event_count"
    and "pc_warmup_runs c \<le> (maximum_event_count - pc_events c) div pc_warmup_events c"
  using assms by (auto simp: check_config_def Let_def not_less split: if_splits)

lemma accepted_positions:
  assumes "check_config c = Inr r"
  shows "unat (pc_warmup_runs c) * unat (pc_warmup_events c) + unat (pc_events c) \<le> 2 ^ 63 - 1"
proof -
  note ok = check_config_accepted [OF assms]
  have max: "unat maximum_event_count = 2 ^ 63 - 1" by (simp add: maximum_event_count_def)
  have "unat (pc_warmup_runs c) \<le> unat (maximum_event_count - pc_events c) div unat (pc_warmup_events c)"
    using ok(15) by (simp add: word_nat unat_div)
  then have "unat (pc_warmup_runs c) * unat (pc_warmup_events c) \<le> unat (maximum_event_count - pc_events c)"
    by (meson div_times_less_eq_dividend mult_le_mono1 order_trans)
  also have "\<dots> = unat maximum_event_count - unat (pc_events c)" using ok(14) by (rule unat_sub_le)
  finally show ?thesis using ok(14) unfolding u64_le_unat max by linarith
qed

lemma parse_arguments_accepted:
  assumes "parse_arguments args = Inr (Some c)"
  shows "check_config c = Inr c" "cpu_ok (pc_producer_cpu c)" "cpu_ok (pc_consumer_cpu c)"
proof -
  have "\<exists>c'. check_config c' = Inr c \<and> (cpu_ok (pc_producer_cpu c') \<and> cpu_ok (pc_consumer_cpu c'))"
    by (rule parse_loop_accepted [OF assms [unfolded parse_arguments_def]])
      (use set_option_cpus in \<open>auto simp: default_paired_config_def cpu_ok_def\<close>)
  then show "check_config c = Inr c" "cpu_ok (pc_producer_cpu c)" "cpu_ok (pc_consumer_cpu c)"
    using check_config_accepted(1) by auto
qed

section \<open>Properties\<close>

definition sample_arguments :: "string list" where
  "sample_arguments = [''--producer-cpu'', ''2'', ''--consumer-cpu'', ''3'']"

definition sample_config :: paired_config where
  "sample_config = default_paired_config\<lparr>pc_producer_cpu := 2, pc_consumer_cpu := 3\<rparr>"

lemmas parse_simps = parse_cpu_def parse_u64_def from_chars_u64_def is_digit_def digits_value_def
  digit_value_def CPU_SETSIZE_def

lemma sample_parse: "parse_arguments sample_arguments = Inr (Some sample_config)"
proof -
  have "set_option default_paired_config ''--producer-cpu'' ''2'' =
      Inr (default_paired_config\<lparr>pc_producer_cpu := 2\<rparr>)"
    "set_option (default_paired_config\<lparr>pc_producer_cpu := 2\<rparr>) ''--consumer-cpu'' ''3'' = Inr sample_config"
    by (simp_all add: set_option_def parse_simps sample_config_def)
  moreover have "check_config sample_config = Inr sample_config"
    unfolding sample_config_def by code_simp
  ultimately show ?thesis by (simp add: parse_arguments_def sample_arguments_def)
qed

text \<open>A command line the throughput benchmark accepts names two different CPUs below
  CPU_SETSIZE, batch and drain sizes the program is instantiated for and that fit the
  family, event counts that are whole batches, and so few events that every stream
  position of the run fits in 63 bits.\<close>

theorem accepted_configuration:
  assumes "parse_arguments args = Inr (Some c)"
  shows "pc_producer_batch c \<in> {1, 16, 64} \<and> pc_drain_limit c \<in> {1, 16, 64, ring_capacity} \<and>
    pc_events c mod pc_producer_batch c = 0 \<and> pc_warmup_events c mod pc_producer_batch c = 0 \<and>
    (pc_family c = Strict \<and> pc_drain_limit c = pc_producer_batch c \<or>
     pc_family c = Opportunistic \<and> pc_drain_limit c = ring_capacity) \<and>
    pc_producer_cpu c \<in> {0..<1024} \<and> pc_consumer_cpu c \<in> {0..<1024} \<and>
    pc_producer_cpu c \<noteq> pc_consumer_cpu c \<and>
    unat (pc_warmup_runs c) * unat (pc_warmup_events c) + unat (pc_events c) \<le> 2 ^ 63 - 1"
  using parse_arguments_accepted [OF assms] check_config_accepted [of c c] accepted_positions [of c c]
  by (cases "pc_family c") (simp_all add: cpu_ok_def)

theorem accepted_configuration_witness:
  "pc_producer_cpu sample_config \<in> {0..<1024} \<and>
    unat (pc_warmup_runs sample_config) * unat (pc_warmup_events sample_config) + unat (pc_events sample_config) \<le> 2 ^ 63 - 1"
  using accepted_configuration [OF sample_parse] by blast

text \<open>C35: The throughput benchmark keeps its promise from the command line on: for every
  accepted configuration, in a debug build as in a release build, there are numbers of
  fair rounds, at most two per event, after which the whole run has returned the measured
  sample with every event consumed in order and the closed-form checksum; no switch over
  the batch and drain sizes falls through to its throwing default.\<close>

theorem accepted_run_completes:
  assumes "parse_arguments args = Inr (Some c)"
  shows "\<exists>s rounds s'. new_endpoint b ring_capacity 1 \<lparr>event_value = 0\<rparr> 0 = Inr s \<and>
    list_all2 (\<lambda>m count. m \<le> 2 * unat count) rounds
      (replicate (unat (pc_warmup_runs c)) (pc_warmup_events c) @ [pc_events c]) \<and>
    run_comparison b c (map (\<lambda>m. (1, concat (replicate m (fair_round 1)))) rounds) s =
      Inr (Inr (s', \<lparr>consumed = pc_events c, checksum = (\<Sum>q < unat (pc_events c). of_nat q),
                     order_value_mismatch = 0\<rparr>))"
proof -
  note ok = check_config_accepted [OF parse_arguments_accepted(1) [OF assms]]
  let ?counts = "replicate (unat (pc_warmup_runs c)) (pc_warmup_events c) @ [pc_events c]"
  obtain s where s: "new_endpoint b ring_capacity 1 \<lparr>event_value = 0\<rparr> 0 = Inr s" "drained b 0 s"
    using new_endpoint_drained by blast
  have phases: "\<forall>count \<in> set ?counts. phase_ok \<lparr>producer_batch = pc_producer_batch c,
      drain_limit = pc_drain_limit c, event_count = count\<rparr>"
    using ok(2-5) by (auto simp: phase_ok_def)
  obtain rounds s' where rounds: "length rounds = length ?counts"
      "list_all2 (\<lambda>m count. m \<le> 2 * unat count) rounds ?counts"
    and run: "run_all_phases b (pc_producer_batch c) (pc_drain_limit c)
        (map2 (\<lambda>count m. (count, 1, concat (replicate m (fair_round 1)))) ?counts rounds) s new_validation =
      Inr (s', correct_sample (pc_events c))"
    using run_all_phases_finishes [OF phases s(2), of 1 new_validation] by auto
  have "zip ?counts (map (\<lambda>m. (1 :: int, concat (replicate m (fair_round 1)))) rounds) =
      map2 (\<lambda>count m. (count, 1, concat (replicate m (fair_round 1)))) ?counts rounds"
    by (simp only: zip_map2 split_def)
  then have cmp: "run_comparison b c (map (\<lambda>m. (1, concat (replicate m (fair_round 1)))) rounds) s =
      Inr (Inr (s', correct_sample (pc_events c)))"
    using run ok(2,3) unfolding run_comparison_def by (simp only: if_False simp_thms not_not)
  have "correct_sample (pc_events c) = \<lparr>consumed = pc_events c,
      checksum = (\<Sum>q < unat (pc_events c). of_nat q), order_value_mismatch = 0\<rparr>"
    using validated_all [of undefined "pc_events c"] by (simp add: validated_def)
  then show ?thesis using s(1) cmp rounds(2) by (intro exI [of _ s] exI [of _ rounds] exI [of _ s']) simp
qed

theorem accepted_run_completes_witness:
  "\<exists>s rounds s'. new_endpoint Debug ring_capacity 1 \<lparr>event_value = 0\<rparr> 0 = Inr s \<and>
    run_comparison Debug sample_config (map (\<lambda>m. (1, concat (replicate m (fair_round 1)))) rounds) s =
      Inr (Inr (s', \<lparr>consumed = pc_events sample_config,
        checksum = (\<Sum>q < unat (pc_events sample_config). of_nat q), order_value_mismatch = 0\<rparr>))"
  using accepted_run_completes [OF sample_parse, of Debug] by blast

end
