(* ===== verification/Latency_Benchmarks.thy ===== *)
theory Latency_Benchmarks
  imports Samples Latency_Statistics Paired_Config
begin

text \<open>
  The latency benchmarks of the disruptor: \<open>run_latency\<close> of \<open>paired_latency_benchmark.cpp\<close> and
  \<open>disruptor_latency\<close> of \<open>latency.cpp\<close>. The clock is a parameter: for each event what the
  producer read when it wrote it and what the consumer read when it handled it. Pinning and
  the start flags are not modelled.
\<close>

unbundle bit_operations_syntax

section \<open>Asking a consumer for its position\<close>

lemma endpoint_position:
  assumes "handle_models b 0 cap n s log cs" "i < n"
  shows "consumer_position (ep_object s) i = of_nat (cs ! i)"
  using assms represents_consumers [of 0 "ep_object s" log cs]
  by (auto simp: handle_models_def Let_def consumer_position_def represents_def ring_ok_def)

text \<open>A position that is below the published one, or not equal to it, is one of a consumer that is behind.\<close>

lemma position_behind:
  assumes "length cs = n \<and> (\<forall>c \<in> set cs. c \<le> length log \<and> length log \<le> c + cap)" "i < n" "length log < 2 ^ 64"
    and "p = of_nat (cs ! i)"
  shows "p < (of_nat (length log) :: u64) \<longleftrightarrow> cs ! i < length log" "p \<noteq> (of_nat (length log) :: u64) \<longleftrightarrow> cs ! i < length log"
proof -
  have "cs ! i \<le> length log" using assms(1,2) by simp
  then have "unat p = cs ! i" "unat (of_nat (length log) :: u64) = length log" "cs ! i \<le> length log"
    using assms(3,4) unat_of_nat64 [of "cs ! i"] unat_of_nat64 [of "length log"] by auto
  then show "p < (of_nat (length log) :: u64) \<longleftrightarrow> cs ! i < length log" "p \<noteq> (of_nat (length log) :: u64) \<longleftrightarrow> cs ! i < length log"
    by (auto simp: word_nat word_unat_eq_iff)
qed

section \<open>paired_latency_benchmark.cpp\<close>

record timed_event =
  published_ns :: int

record measurement =
  ms_consumed :: u64
  ms_sequence_checksum :: u64
  ms_order_mismatch :: u64
  ms_nonpositive_latency_count :: u64
  ms_samples :: "int list"

definition new_measurement :: "u64 \<Rightarrow> measurement" where
  "new_measurement total_events = \<lparr>ms_consumed = 0, ms_sequence_checksum = 0, ms_order_mismatch = 0,
     ms_nonpositive_latency_count = 0, ms_samples = replicate (unat total_events) 0\<rparr>"

definition measure_event :: "(u64 \<Rightarrow> int) \<Rightarrow> (timed_event, measurement) sequence_handler" where
  "measure_event arrival input sequence r =
     (let expected = ms_consumed r; elapsed_ns = arrival sequence - published_ns input
      in r\<lparr>ms_samples := (ms_samples r)[unat expected := elapsed_ns],
           ms_order_mismatch := ms_order_mismatch r OR (sequence XOR expected),
           ms_sequence_checksum := ms_sequence_checksum r + sequence,
           ms_nonpositive_latency_count := ms_nonpositive_latency_count r + (if elapsed_ns > 0 then 0 else 1),
           ms_consumed := expected + 1\<rparr>)"

definition latency_program :: "u64 \<Rightarrow> (u64 \<Rightarrow> int) \<Rightarrow> (u64 \<Rightarrow> int) \<Rightarrow> (timed_event, measurement) stream_program" where
  "latency_program total_events stamp arrival =
     \<lparr>event_total = total_events, batch = (\<lambda>_. 1),
      event_writer_from = (\<lambda>n_published output _ w. (output\<lparr>published_ns := stamp n_published\<rparr>, w)),
      drain = 1, handler_from = (\<lambda>_. measure_event arrival), progress_of = ms_consumed, advance = (\<lambda>_ r. r)\<rparr>"

definition below_released :: "'ev endpoint \<Rightarrow> nat \<Rightarrow> u64 \<Rightarrow> bool" where
  "below_released s i released_position \<longleftrightarrow> consumer_position (ep_object s) i < released_position"

definition latency_turns :: "build \<Rightarrow> u64 \<Rightarrow> (u64 \<Rightarrow> int) \<Rightarrow> (u64 \<Rightarrow> int) \<Rightarrow> turn list \<Rightarrow>
    failure + (timed_event endpoint, measurement) paced" where
  "latency_turns b total_events stamp arrival turns =
     (case new_endpoint b ring_capacity 1 \<lparr>published_ns = 0\<rparr> 0 of
        Inl f \<Rightarrow> Inl f
      | Inr s \<Rightarrow> run_paced (handle_publish b) handle_consume below_released
          (latency_program total_events stamp arrival) 0 turns (new_paced s [new_measurement total_events]))"

definition run_latency :: "build \<Rightarrow> latency_config \<Rightarrow> (u64 \<Rightarrow> int) \<Rightarrow> (u64 \<Rightarrow> int) \<Rightarrow> turn list \<Rightarrow>
    run_error + measurement \<times> distribution" where
  "run_latency b settings stamp arrival turns =
     (let total_events = lc_warmup_events settings + lc_events settings
      in case latency_turns b total_events stamp arrival turns of
           Inl f \<Rightarrow> Inl (Stopped f)
         | Inr pc \<Rightarrow>
             if \<not> paced_finished (latency_program total_events stamp arrival) pc then Inl Still_running
             else let r = cl_handlers (pc_client pc) ! 0;
                      latency = summarize (ms_samples r) (lc_warmup_events settings) (lc_events settings)
               in if ms_consumed r \<noteq> total_events \<or> ms_sequence_checksum r \<noteq> expected_checksum total_events \<or>
                     ms_order_mismatch r \<noteq> 0 \<or> ms_nonpositive_latency_count r \<noteq> 0
                  then Inl Failed_validation
                  else if positive_measured_events latency \<noteq> unat (lc_events settings)
                  then Inl Failed_validation else Inr (r, latency))"

text \<open>The consumer's state after \<open>k\<close> events: the handler's steps, and what they come to.\<close>

fun measured :: "u64 \<times> (u64 \<Rightarrow> int) \<times> (u64 \<Rightarrow> int) \<Rightarrow> u64 \<Rightarrow> nat \<Rightarrow> measurement" where
  "measured (total_events, stamp, arrival) first 0 = new_measurement total_events"
| "measured (total_events, stamp, arrival) first (Suc k) =
     measure_event arrival \<lparr>published_ns = stamp (of_nat k)\<rparr> (first + of_nat k)
       (measured (total_events, stamp, arrival) first k)"

lemma measured_consumed: "ms_consumed (measured x first k) = of_nat k"
  by (induction x first k rule: measured.induct) (simp_all add: new_measurement_def measure_event_def Let_def add.commute)

definition elapsed :: "(u64 \<Rightarrow> int) \<Rightarrow> (u64 \<Rightarrow> int) \<Rightarrow> nat \<Rightarrow> int" where
  "elapsed stamp arrival q = arrival (of_nat q) - stamp (of_nat q)"

lemma measured_state:
  assumes "k \<le> unat total_events"
  shows "measured (total_events, stamp, arrival) 0 k = \<lparr>ms_consumed = of_nat k, ms_sequence_checksum = (\<Sum>q<k. of_nat q),
    ms_order_mismatch = 0,
    ms_nonpositive_latency_count = of_nat (length (filter (\<lambda>q. \<not> 0 < elapsed stamp arrival q) [0..<k])),
    ms_samples = map (elapsed stamp arrival) [0..<k] @ replicate (unat total_events - k) 0\<rparr>"
  using assms
proof (induction k)
  case (Suc k)
  let ?n = "unat total_events"
  have "unat (of_nat k :: u64) = k" using Suc.prems by (intro unat_of_nat_le64 [of _ total_events]) simp
  moreover have "(map (elapsed stamp arrival) [0..<k] @ replicate (?n - k) 0)[k := elapsed stamp arrival k] =
      map (elapsed stamp arrival) [0..<Suc k] @ replicate (?n - Suc k) 0"
    using Suc.prems by (simp add: list_update_append Suc_diff_Suc [symmetric])
  ultimately show ?case using Suc
    by (simp add: measure_event_def Let_def add.commute [of 1] elapsed_def [symmetric])
qed (simp add: new_measurement_def)

interpretation paired_latency: lockstep_client "handle_publish b" handle_consume handle_position
  "handle_models b 0 ring_capacity 1" "unat ring_capacity" 1 0 "\<lambda>_. True"
  "\<lambda>(total_events, stamp, arrival). latency_program total_events stamp arrival"
  "\<lambda>(total_events, stamp, arrival) q. \<lparr>published_ns = stamp (of_nat q)\<rparr>" "\<lambda>_ _. True" measured below_released "\<lambda>_. 1"
  for b
proof unfold_locales
  fix x :: "u64 \<times> (u64 \<Rightarrow> int) \<times> (u64 \<Rightarrow> int)" and p n k :: nat and first :: u64 and old :: "timed_event list"
  obtain total_events stamp arrival where x: "x = (total_events, stamp, arrival)" by (cases x)
  let ?prog = "case x of (total_events, stamp, arrival) \<Rightarrow> latency_program total_events stamp arrival"
  let ?vals = "(\<lambda>(total_events, stamp, arrival) q. \<lparr>published_ns = stamp (of_nat q)\<rparr>) x"
  show "drain ?prog \<noteq> 0" by (simp add: x latency_program_def)
  show "progress_of ?prog (measured x first k) = of_nat k" by (simp add: x latency_program_def measured_consumed)
  show "unat (batch ?prog (event_total ?prog - of_nat p)) \<le> 1" by (simp add: x latency_program_def)
  show "0 < unat (batch ?prog (event_total ?prog - of_nat p)) \<and>
      unat (batch ?prog (event_total ?prog - of_nat p)) \<le> unat ring_capacity \<and>
      p + unat (batch ?prog (event_total ?prog - of_nat p)) \<le> unat (event_total ?prog) \<and> True"
    if "p < unat (event_total ?prog)"
    using that by (simp add: x latency_program_def ring_capacity_def)
  show "advance ?prog (of_nat n) (deliver (handler_from ?prog first) (first + of_nat k)
      (map ?vals [k..<k + n]) (measured x first k)) = measured x first (k + n)"
    unfolding x prod.case latency_program_def stream_program.select_convs
    by (rule deliver_steps) simp
  assume "length old = unat (batch ?prog (event_total ?prog - of_nat p))"
  then obtain e where "old = [e]" by (cases old) (auto simp: x latency_program_def)
  then show "fst (written (event_writer_from ?prog (of_nat p)) old 0 ()) = map ?vals [p..<p + length old]"
    by (simp add: x latency_program_def)
next
  fix s :: "timed_event endpoint" and log :: "timed_event list" and cs i
  assume m: "handle_models b 0 ring_capacity 1 s log cs" "i < (1 :: nat)" and "length log < 2 ^ 64"
  then have "below_released s i (of_nat (length log)) \<longleftrightarrow> cs ! i < length log"
    using position_behind(1) [OF handles.models_shape [OF m(1)] m(2) _ endpoint_position [OF m]] by (simp add: below_released_def)
  then show "below_released s i (of_nat (length log)) \<Longrightarrow> cs ! i < length log"
    "cs ! i < length log \<Longrightarrow> below_released s i (of_nat (length log))" by simp_all
qed


lemma of_nat_zero_le64: "k \<le> unat (n :: u64) \<Longrightarrow> (of_nat k :: u64) = 0 \<longleftrightarrow> k = 0"
  using unat_of_nat_le64 [of k n] by (auto simp: unsigned_eq_0_iff [symmetric] simp del: word_of_nat_eq_0_iff)

lemma measured_total:
  "ms_consumed (measured (total_events, stamp, arrival) 0 (unat total_events)) = total_events"
  "ms_sequence_checksum (measured (total_events, stamp, arrival) 0 (unat total_events)) = expected_checksum total_events"
  "ms_order_mismatch (measured (total_events, stamp, arrival) 0 (unat total_events)) = 0"
  "ms_samples (measured (total_events, stamp, arrival) 0 (unat total_events)) =
     map (elapsed stamp arrival) [0..<unat total_events]"
  "ms_nonpositive_latency_count (measured (total_events, stamp, arrival) 0 (unat total_events)) = 0 \<longleftrightarrow>
     (\<forall>q < unat total_events. 0 < elapsed stamp arrival q)"
proof -
  let ?c = "length (filter (\<lambda>q. \<not> 0 < elapsed stamp arrival q) [0..<unat total_events])"
  note st = measured_state [OF order_refl, of total_events stamp arrival]
  show "ms_consumed (measured (total_events, stamp, arrival) 0 (unat total_events)) = total_events"
    "ms_order_mismatch (measured (total_events, stamp, arrival) 0 (unat total_events)) = 0"
    "ms_samples (measured (total_events, stamp, arrival) 0 (unat total_events)) =
       map (elapsed stamp arrival) [0..<unat total_events]"
    unfolding st by simp_all
  show "ms_sequence_checksum (measured (total_events, stamp, arrival) 0 (unat total_events)) = expected_checksum total_events"
    unfolding st using expected_checksum_sum [OF unat_lt_2p64, of total_events] by simp
  have "?c \<le> unat total_events" using length_filter_le [of _ "[0..<unat total_events]"] by simp
  then have "(of_nat ?c :: u64) = 0 \<longleftrightarrow> ?c = 0" by (rule of_nat_zero_le64)
  also have "\<dots> \<longleftrightarrow> (\<forall>q < unat total_events. 0 < elapsed stamp arrival q)"
    by (auto simp: filter_empty_conv)
  finally show "ms_nonpositive_latency_count (measured (total_events, stamp, arrival) 0 (unat total_events)) = 0 \<longleftrightarrow>
     (\<forall>q < unat total_events. 0 < elapsed stamp arrival q)"
    unfolding st by simp
qed

text \<open>The loops are the paced runs of the interface, from the object and handles the program makes.\<close>

lemma latency_turns_run:
  obtains s where "\<And>turns. latency_turns b total_events stamp arrival turns =
      paired_latency.run_paced_from b (total_events, stamp, arrival) s (new_measurement total_events) turns"
    and "paired_latency.run_start b (total_events, stamp, arrival) [] s (new_measurement total_events)"
proof -
  have "template_ok ring_capacity 1" by code_simp
  then obtain s where new: "new_endpoint b ring_capacity 1 \<lparr>published_ns = 0\<rparr> 0 = Inr s"
    and m: "handle_models b 0 ring_capacity 1 s [] (replicate 1 0)"
    using new_handle_models [of ring_capacity 1 b "\<lparr>published_ns = 0\<rparr>" 0] by blast
  have "latency_turns b total_events stamp arrival turns =
      paired_latency.run_paced_from b (total_events, stamp, arrival) s (new_measurement total_events) turns" for turns
    unfolding latency_turns_def new paired_latency.run_paced_from_def by simp
  moreover have "paired_latency.run_start b (total_events, stamp, arrival) [] s (new_measurement total_events)"
    using m unfolding paired_latency.run_start_def by simp
  ultimately show ?thesis by (rule that)
qed

text \<open>What a finished run comes to, from the clock readings alone.\<close>

definition latency_outcome :: "latency_config \<Rightarrow> (u64 \<Rightarrow> int) \<Rightarrow> (u64 \<Rightarrow> int) \<Rightarrow> run_error + distribution" where
  "latency_outcome settings stamp arrival =
     (let n = unat (lc_warmup_events settings) + unat (lc_events settings)
      in if \<forall>q \<in> {..<n}. 0 < elapsed stamp arrival q
         then Inr (summarize (map (elapsed stamp arrival) [0..<n]) (lc_warmup_events settings) (lc_events settings))
         else Inl Failed_validation)"

lemma check_latency_accepted:
  assumes "check_latency_config c = Inr r"
  shows "r = c" "0 < unat (lc_events c)" "unat (lc_warmup_events c) + unat (lc_events c) < 2 ^ 63"
proof -
  have ok: "r = c" "lc_events c \<noteq> 0" "lc_events c \<le> maximum_event_count"
    "lc_warmup_events c \<le> maximum_event_count - lc_events c"
    using assms by (auto simp: check_latency_config_def Let_def not_less split: if_splits)
  have max: "unat maximum_event_count = 2 ^ 63 - 1" by (simp add: maximum_event_count_def)
  show "r = c" by (rule ok(1))
  show "0 < unat (lc_events c)" using ok(2) by (simp add: unat_gt_0)
  have "unat (lc_warmup_events c) \<le> unat maximum_event_count - unat (lc_events c)"
    using ok(4) unat_sub_le [OF ok(3)] by (simp add: word_nat)
  then show "unat (lc_warmup_events c) + unat (lc_events c) < 2 ^ 63"
    using ok(3) unfolding u64_le_unat max by simp
qed

lemma run_latency_done:
  assumes acc: "check_latency_config c = Inr c"
    and turns: "latency_turns b (lc_warmup_events c + lc_events c) stamp arrival turns = Inr pc"
    and fin: "paced_finished (latency_program (lc_warmup_events c + lc_events c) stamp arrival) pc"
    and hs: "cl_handlers (pc_client pc) = [measured (lc_warmup_events c + lc_events c, stamp, arrival) 0
      (unat (lc_warmup_events c + lc_events c))]"
  shows "map_sum id snd (run_latency b c stamp arrival turns) = latency_outcome c stamp arrival"
proof -
  note acc = check_latency_accepted [OF acc]
  let ?n = "unat (lc_warmup_events c) + unat (lc_events c)"
  let ?m = "measured (lc_warmup_events c + lc_events c, stamp, arrival) 0 (unat (lc_warmup_events c + lc_events c))"
  have n: "unat (lc_warmup_events c + lc_events c) = ?n" using acc(3) by (intro unat_add_no_wrap) simp
  define m where "m = ?m"
  have m: "ms_consumed m = lc_warmup_events c + lc_events c" "ms_order_mismatch m = 0"
    "ms_sequence_checksum m = expected_checksum (lc_warmup_events c + lc_events c)"
    "ms_samples m = map (elapsed stamp arrival) [0..<?n]"
    "ms_nonpositive_latency_count m = 0 \<longleftrightarrow> (\<forall>q < ?n. 0 < elapsed stamp arrival q)"
    unfolding m_def measured_total unfolding n by simp_all
  have run: "run_latency b c stamp arrival turns =
      (let latency = summarize (ms_samples m) (lc_warmup_events c) (lc_events c)
       in if ms_nonpositive_latency_count m \<noteq> 0 then Inl Failed_validation
          else if positive_measured_events latency \<noteq> unat (lc_events c) then Inl Failed_validation else Inr (m, latency))"
    by (simp add: run_latency_def Let_def turns fin hs [folded m_def] m(1-3))
  have "positive_measured_events (summarize (ms_samples m) (lc_warmup_events c) (lc_events c)) = unat (lc_events c)"
    if "\<forall>q < ?n. 0 < elapsed stamp arrival q"
    using that acc by (intro summarize_all_positive) (auto simp: m(4))
  then show ?thesis unfolding run latency_outcome_def Let_def m(5) by (simp add: m(4) Ball_def)
qed

text \<open>C36: The paired latency run is exact and in lockstep: with an accepted command line, on every
  schedule of turns and whatever the clock reads, nothing asserts, no publication is ever rejected
  and the consumer is never more than one event behind; when the loops have ended the result is
  the summary of every event's own latency, arrival minus publication, or a failed validation
  exactly when one of them is not positive; and the loops end when the threads keep getting turns.\<close>

theorem latency_run_exact:
  assumes "parse_latency_arguments args = Inr (Some c)" "\<forall>t \<in> set turns. turn_ok 1 t"
  shows "map_sum id snd (run_latency b c stamp arrival turns) \<in> {Inl Still_running, latency_outcome c stamp arrival} \<and>
    (\<exists>pc. latency_turns b (lc_warmup_events c + lc_events c) stamp arrival turns = Inr pc \<and> pc_retries pc = 0 \<and>
      unat (cl_published (pc_client pc) - handle_position (cl_stream (pc_client pc)) 0) \<le> 1) \<and>
    (\<exists>m \<le> 3 * (unat (lc_warmup_events c) + unat (lc_events c)).
      map_sum id snd (run_latency b c stamp arrival (concat (replicate m (fair_round 1)))) = latency_outcome c stamp arrival)"
proof -
  have "\<exists>c'. check_latency_config c' = Inr c \<and> True"
    by (rule parse_loop_accepted [OF assms(1) [unfolded parse_latency_arguments_def]]) simp_all
  then have acc: "check_latency_config c = Inr c" using check_latency_accepted(1) by blast
  let ?total = "lc_warmup_events c + lc_events c"
  let ?x = "(?total, stamp, arrival)"
  have n: "unat ?total = unat (lc_warmup_events c) + unat (lc_events c)"
    using check_latency_accepted(3) [OF acc] by (intro unat_add_no_wrap) simp
  obtain s where runs: "\<And>turns. latency_turns b ?total stamp arrival turns =
      paired_latency.run_paced_from b ?x s (new_measurement ?total) turns"
    and start: "paired_latency.run_start b ?x [] s (new_measurement ?total)"
    using latency_turns_run by blast
  have total: "event_total (latency_program ?total stamp arrival) = ?total" by (simp add: latency_program_def)
  have outcome: "map_sum id snd (run_latency b c stamp arrival ts) = latency_outcome c stamp arrival"
    if "latency_turns b ?total stamp arrival ts = Inr pc" "paced_finished (latency_program ?total stamp arrival) pc"
      "paired_latency.run_done b ?x [] (pc_client pc)" for ts pc
    by (rule run_latency_done [OF acc that(1,2)])
      (use that(3) in \<open>unfold paired_latency.run_done_def, simp add: Let_def total\<close>)
  obtain pc where run: "latency_turns b ?total stamp arrival turns = Inr pc"
    and lock: "paired_latency.in_lockstep ?x pc"
    and fin: "paced_finished (latency_program ?total stamp arrival) pc \<longrightarrow> paired_latency.run_done b ?x [] (pc_client pc)"
    using paired_latency.lockstep_result [OF start assms(2)] unfolding runs by auto
  have "map_sum id snd (run_latency b c stamp arrival turns) \<in> {Inl Still_running, latency_outcome c stamp arrival}"
    using outcome [OF run] fin run by (cases "paced_finished (latency_program ?total stamp arrival) pc")
      (auto simp: run_latency_def Let_def)
  moreover obtain m pc' where "m \<le> 3 * unat ?total" "paced_finished (latency_program ?total stamp arrival) pc'"
    "latency_turns b ?total stamp arrival (concat (replicate m (fair_round 1))) = Inr pc'"
    "paired_latency.run_done b ?x [] (pc_client pc')"
    using paired_latency.paced_finishes [OF start] unfolding runs prod.case total by auto
  ultimately show ?thesis using run lock outcome unfolding n paired_latency.in_lockstep_def by auto
qed

definition sample_latency_arguments :: "string list" where
  "sample_latency_arguments = [''--producer-cpu'', ''2'', ''--consumer-cpu'', ''3'']"

definition sample_latency_config :: latency_config where
  "sample_latency_config = default_latency_config\<lparr>lc_producer_cpu := 2, lc_consumer_cpu := 3\<rparr>"

lemma sample_latency_parse: "parse_latency_arguments sample_latency_arguments = Inr (Some sample_latency_config)"
proof -
  have "set_latency_option default_latency_config ''--producer-cpu'' ''2'' =
      Inr (default_latency_config\<lparr>lc_producer_cpu := 2\<rparr>)"
    "set_latency_option (default_latency_config\<lparr>lc_producer_cpu := 2\<rparr>) ''--consumer-cpu'' ''3'' = Inr sample_latency_config"
    by (simp_all add: set_latency_option_def parse_simps sample_latency_config_def)
  moreover have "check_latency_config sample_latency_config = Inr sample_latency_config"
    unfolding sample_latency_config_def by code_simp
  ultimately show ?thesis by (simp add: parse_latency_arguments_def sample_latency_arguments_def)
qed

theorem latency_run_exact_witness:
  "map_sum id snd (run_latency Debug sample_latency_config (\<lambda>t. int (unat t)) (\<lambda>t. int (unat t) + 1) [Producer_turn, Consumer_turn 0]) \<in>
     {Inl Still_running, latency_outcome sample_latency_config (\<lambda>t. int (unat t)) (\<lambda>t. int (unat t) + 1)}"
  using latency_run_exact [OF sample_latency_parse, of "[Producer_turn, Consumer_turn 0]"] by (simp add: turn_ok_def)

section \<open>latency.cpp\<close>

text \<open>The payload is an argument's worth of words, 0 for the type without one.\<close>

record stamped_event =
  published_at :: int
  st_payload :: "u64 list"

definition fill_stamped :: "nat \<Rightarrow> stamped_event \<Rightarrow> u64 \<Rightarrow> stamped_event" where
  "fill_stamped width output sequence =
     output\<lparr>st_payload := map (\<lambda>index. sequence + of_nat index + 1) [0..<width]\<rparr>"

definition stamped_is_correct :: "stamped_event \<Rightarrow> u64 \<Rightarrow> bool" where
  "stamped_is_correct input sequence \<longleftrightarrow>
     list_all (\<lambda>(index, w). w = sequence + of_nat index + 1) (enumerate 0 (st_payload input))"

definition latency_warmup_count :: u64 where "latency_warmup_count = 10000"
definition latency_sample_count :: u64 where "latency_sample_count = 200000"
definition lockstep_events :: u64 where "lockstep_events = latency_warmup_count + latency_sample_count"
definition lockstep_capacity :: size_t where "lockstep_capacity = 1024"

record latency_tally =
  lt_consumed :: size_t
  lt_checksum :: u64
  lt_expected_sequence :: u64
  lt_ordered :: bool
  lt_samples :: "(nat \<Rightarrow> int) list"

definition new_latency_tally :: latency_tally where
  "new_latency_tally = \<lparr>lt_consumed = 0, lt_checksum = 0, lt_expected_sequence = 0, lt_ordered = True,
     lt_samples = replicate (unat latency_sample_count) (\<lambda>_. 0)\<rparr>"

definition lockstep_program :: "size_t \<Rightarrow> nat \<Rightarrow> (u64 \<Rightarrow> int) \<Rightarrow> (nat \<Rightarrow> u64 \<Rightarrow> int) \<Rightarrow> (stamped_event, latency_tally) stream_program" where
  "lockstep_program batch_size width stamp arrival =
     \<lparr>event_total = lockstep_events,
      batch = (\<lambda>remaining. if remaining < batch_size then remaining else batch_size),
      event_writer_from = (\<lambda>n_published output index w.
        (fill_stamped width (output\<lparr>published_at := stamp (n_published + index)\<rparr>) (n_published + index), w)),
      drain = batch_size,
      handler_from = (\<lambda>_ input sequence t.
        t\<lparr>lt_samples := record_sample latency_warmup_count sequence (\<lambda>consumer. arrival consumer sequence - published_at input) (lt_samples t),
          lt_checksum := lt_checksum t + sequence,
          lt_ordered := lt_ordered t \<and> sequence = lt_expected_sequence t \<and> stamped_is_correct input sequence,
          lt_expected_sequence := lt_expected_sequence t + 1\<rparr>),
      progress_of = lt_consumed,
      advance = (\<lambda>n t. t\<lparr>lt_consumed := lt_consumed t + n\<rparr>)\<rparr>"

definition not_at_last :: "'ev disruptor \<Rightarrow> nat \<Rightarrow> u64 \<Rightarrow> bool" where
  "not_at_last d i last_position \<longleftrightarrow> consumer_position d i \<noteq> last_position"

definition lockstep_turns :: "build \<Rightarrow> size_t \<Rightarrow> nat \<Rightarrow> nat \<Rightarrow> (u64 \<Rightarrow> int) \<Rightarrow> (nat \<Rightarrow> u64 \<Rightarrow> int) \<Rightarrow> turn list \<Rightarrow>
    failure + (stamped_event disruptor, latency_tally) paced" where
  "lockstep_turns b batch_size width n_consumers stamp arrival turns =
     run_paced (try_publish_batch b) direct_consume not_at_last (lockstep_program batch_size width stamp arrival) 0 turns
       (new_paced (single_producer_disruptor lockstep_capacity n_consumers
           \<lparr>published_at = 0, st_payload = replicate width 0\<rparr> 0)
         (replicate n_consumers new_latency_tally))"

text \<open>The sorted samples that its percentiles are taken from, and the member \<open>correct\<close>.\<close>

definition latency_report :: "latency_tally list \<Rightarrow> run_error + int list \<times> bool" where
  "latency_report ts = Inr (sort (gathered (map lt_samples ts)),
     list_all (\<lambda>t. (if lt_ordered t then lt_checksum t else - 1) = (lockstep_events - 1) * lockstep_events div 2) ts)"

definition disruptor_latency :: "build \<Rightarrow> size_t \<Rightarrow> nat \<Rightarrow> nat \<Rightarrow> (u64 \<Rightarrow> int) \<Rightarrow> (nat \<Rightarrow> u64 \<Rightarrow> int) \<Rightarrow> turn list \<Rightarrow>
    run_error + int list \<times> bool" where
  "disruptor_latency b batch_size width n_consumers stamp arrival turns =
     paced_outcome (lockstep_program batch_size width stamp arrival) latency_report
       (lockstep_turns b batch_size width n_consumers stamp arrival turns)"

definition lockstep_state :: "(u64 \<Rightarrow> int) \<Rightarrow> (nat \<Rightarrow> u64 \<Rightarrow> int) \<Rightarrow> u64 \<Rightarrow> nat \<Rightarrow> latency_tally" where
  "lockstep_state stamp arrival first k = \<lparr>lt_consumed = of_nat k, lt_checksum = (\<Sum>q<k. first + of_nat q),
     lt_expected_sequence = of_nat k, lt_ordered = (first = 0 \<or> k = 0),
     lt_samples = samples_after latency_warmup_count (replicate (unat latency_sample_count) (\<lambda>_. 0))
       (\<lambda>sequence q consumer. arrival consumer sequence - stamp (of_nat q)) first k\<rparr>"

definition stamped :: "nat \<Rightarrow> (u64 \<Rightarrow> int) \<Rightarrow> nat \<Rightarrow> stamped_event" where
  "stamped width stamp q = fill_stamped width \<lparr>published_at = stamp (of_nat q), st_payload = []\<rparr> (of_nat q)"

lemma stamped_is_correct_stamped: "stamped_is_correct (stamped width stamp q) (of_nat q)"
  by (auto simp: stamped_is_correct_def stamped_def fill_stamped_def list_all_iff in_set_enumerate_eq)

lemma published_at_stamped: "published_at (stamped width stamp q) = stamp (of_nat q)"
  by (simp add: stamped_def fill_stamped_def)

lemma lockstep_handler:
  "advance (lockstep_program batch_size width stamp arrival) (of_nat n)
    (deliver (handler_from (lockstep_program batch_size width stamp arrival) first) (first + of_nat k)
      (map (stamped width stamp) [k..<k + n]) (lockstep_state stamp arrival first k)) = lockstep_state stamp arrival first (k + n)"
proof -
  let ?st = "\<lambda>j. (lockstep_state stamp arrival first j)\<lparr>lt_consumed := of_nat k\<rparr>"
  have "deliver (handler_from (lockstep_program batch_size width stamp arrival) first) (first + of_nat k)
      (map (stamped width stamp) [k..<k + n]) (?st k) = ?st (k + n)"
    by (rule deliver_steps)
      (use stamped_is_correct_stamped published_at_stamped in
        \<open>auto simp: lockstep_program_def lockstep_state_def add.commute [of 1]\<close>)
  moreover have "?st k = lockstep_state stamp arrival first k" by (simp add: lockstep_state_def)
  ultimately show ?thesis by (simp add: lockstep_program_def) (simp add: lockstep_state_def)
qed

lemma direct_position_behind:
  assumes "direct_models b 0 cap n d log cs" "i < n" "length log < 2 ^ 64"
  shows "not_at_last d i (of_nat (length log)) \<longleftrightarrow> cs ! i < length log"
  using position_behind(2) [OF direct.models_shape [OF assms(1)] assms(2,3)]
    direct.position_law [OF assms(1,2)]
  by (simp add: not_at_last_def)

text \<open>The laws of a program that publishes stamped events in batches of at most \<open>batch_size\<close>.\<close>

lemma stamped_program_laws:
  fixes p :: nat
  assumes "event_writer_from prog = (\<lambda>n_published output index w.
      (fill_stamped width (output\<lparr>published_at := stamp (n_published + index)\<rparr>) (n_published + index), w))"
    and "batch prog = (\<lambda>remaining. if remaining < batch_size then remaining else batch_size)"
  shows "fst (written (event_writer_from prog (of_nat p)) old 0 ()) = map (stamped width stamp) [p..<p + length old]"
    and "p < unat (event_total prog) \<Longrightarrow> batch_size \<noteq> 0 \<Longrightarrow> batch_size \<le> cap \<Longrightarrow> 0 < unat (batch prog (event_total prog - of_nat p)) \<and>
      unat (batch prog (event_total prog - of_nat p)) \<le> unat cap \<and>
      p + unat (batch prog (event_total prog - of_nat p)) \<le> unat (event_total prog)"
    and "p < unat (event_total prog) \<Longrightarrow> unat (batch prog (event_total prog - of_nat p)) \<le> unat batch_size"
proof -
  show "fst (written (event_writer_from prog (of_nat p)) old 0 ()) = map (stamped width stamp) [p..<p + length old]"
    unfolding stamped_def by (rule written_values_from) (simp add: assms(1) fill_stamped_def)
  assume p: "p < unat (event_total prog)"
  then show "0 < unat (batch prog (event_total prog - of_nat p)) \<and>
      unat (batch prog (event_total prog - of_nat p)) \<le> unat cap \<and>
      p + unat (batch prog (event_total prog - of_nat p)) \<le> unat (event_total prog)"
    if "batch_size \<noteq> 0" "batch_size \<le> cap"
    by (rule tail_batch_law [OF _ that]) (simp add: assms(2))
  show "unat (batch prog (event_total prog - of_nat p)) \<le> unat batch_size"
    using tail_batch [OF p, of batch_size] by (simp add: assms(2))
qed

lemma lockstep_program_fields:
  "event_writer_from (lockstep_program batch_size width stamp arrival) = (\<lambda>n_published output index w.
     (fill_stamped width (output\<lparr>published_at := stamp (n_published + index)\<rparr>) (n_published + index), w))"
  "batch (lockstep_program batch_size width stamp arrival) = (\<lambda>remaining. if remaining < batch_size then remaining else batch_size)"
  "event_total (lockstep_program batch_size width stamp arrival) = lockstep_events"
  "drain (lockstep_program batch_size width stamp arrival) = batch_size"
  "progress_of (lockstep_program batch_size width stamp arrival) (lockstep_state stamp arrival first k) = of_nat k"
  by (simp_all add: lockstep_program_def lockstep_state_def)

lemmas lockstep_laws = stamped_program_laws [where prog = "lockstep_program batch_size width stamp arrival" and
  width = width and stamp = stamp and batch_size = batch_size, OF lockstep_program_fields(1,2)]
  for batch_size width stamp arrival

interpretation multi_latency: lockstep_client "try_publish_batch b" direct_consume consumer_position
  "direct_models b 0 lockstep_capacity n" "unat lockstep_capacity" n 0
  "\<lambda>(batch_size, width, stamp, arrival). batch_size \<noteq> 0 \<and> batch_size \<le> lockstep_capacity"
  "\<lambda>(batch_size, width, stamp, arrival). lockstep_program batch_size width stamp arrival"
  "\<lambda>(batch_size, width, stamp, arrival). stamped width stamp" "\<lambda>_ _. True"
  "\<lambda>(batch_size, width, stamp, arrival). lockstep_state stamp arrival" not_at_last
  "\<lambda>(batch_size, width, stamp, arrival). unat batch_size"
  for b n
  by unfold_locales (auto simp: direct_position_behind lockstep_handler lockstep_laws lockstep_program_fields(4,5) split: prod.splits)

lemma lockstep_checksum_total:
  "(\<Sum>q < unat lockstep_events. of_nat q) = (lockstep_events - 1) * lockstep_events div 2"
proof -
  have "(\<Sum>q < 210000. of_nat q) = (of_nat (\<Sum>q < 210000. q) :: u64)" by simp
  also have "\<dots> = of_nat (210000 * (210000 - 1) div 2)" unfolding sum_upto_nat ..
  finally show ?thesis by (simp add: lockstep_events_def latency_warmup_count_def latency_sample_count_def)
qed

definition multi_latency_outcome :: "nat \<Rightarrow> (u64 \<Rightarrow> int) \<Rightarrow> (nat \<Rightarrow> u64 \<Rightarrow> int) \<Rightarrow> int list" where
  "multi_latency_outcome n stamp arrival =
     sort (concat (map (\<lambda>i. map (measured_latency latency_warmup_count stamp (arrival i)) [0..<unat latency_sample_count]) [0..<n]))"

lemma lockstep_reports_exactly:
  "latency_report (replicate n (lockstep_state stamp arrival 0 (unat lockstep_events))) = Inr (multi_latency_outcome n stamp arrival, True)"
proof -
  let ?t = "lockstep_state stamp arrival 0 (unat lockstep_events)"
  have "unat (latency_warmup_count + latency_sample_count) = unat latency_warmup_count + unat latency_sample_count"
    by (simp add: latency_warmup_count_def latency_sample_count_def)
  from samples_after_all [OF this, of "\<lambda>_. 0" "\<lambda>sequence published consumer. arrival consumer sequence - stamp published"]
  have "lt_samples ?t = map (\<lambda>q consumer. measured_latency latency_warmup_count stamp (arrival consumer) q) [0..<unat latency_sample_count]"
    by (simp add: lockstep_state_def lockstep_events_def measured_latency_def)
  then have "gathered (map lt_samples (replicate n ?t)) =
      concat (map (\<lambda>i. map (measured_latency latency_warmup_count stamp (arrival i)) [0..<unat latency_sample_count]) [0..<n])"
    by (simp add: gathered_replicate)
  moreover have "lt_ordered ?t" "lt_checksum ?t = (lockstep_events - 1) * lockstep_events div 2"
    using lockstep_checksum_total by (simp_all add: lockstep_state_def)
  ultimately show ?thesis by (simp add: latency_report_def list_all_iff multi_latency_outcome_def)
qed

text \<open>The latency benchmark runs in lockstep and measures what it says: for every batch size that
  fits the ring, payload and number of consumers and whatever the clocks read, on every schedule
  nothing asserts, no publication is ever rejected and no consumer is more than one batch behind;
  when the loops have ended the checksums are correct, every consumer has seen its sequences from 0
  with the right payloads, and the samples are the latencies of every measured event at every
  consumer; and the loops end when the threads keep getting turns.\<close>

theorem lockstep_latency_correct:
  assumes "0 < n" "batch_size \<noteq> 0" "batch_size \<le> lockstep_capacity" "\<forall>t \<in> set turns. turn_ok n t"
  shows "disruptor_latency b batch_size width n stamp arrival turns \<in> {Inl Still_running, Inr (multi_latency_outcome n stamp arrival, True)} \<and>
    (\<exists>pc. lockstep_turns b batch_size width n stamp arrival turns = Inr pc \<and> pc_retries pc = 0 \<and>
      (\<forall>i \<in> {..<n}. unat (cl_published (pc_client pc) - consumer_position (cl_stream (pc_client pc)) i) \<le> unat batch_size)) \<and>
    (\<exists>m \<le> (2 * n + 1) * unat lockstep_events.
      disruptor_latency b batch_size width n stamp arrival (concat (replicate m (fair_round n))) =
        Inr (multi_latency_outcome n stamp arrival, True))"
proof -
  let ?x = "(batch_size, width, stamp, arrival)"
  let ?s = "single_producer_disruptor lockstep_capacity n \<lparr>published_at = 0, st_payload = replicate width 0\<rparr> 0"
  have "template_ok lockstep_capacity n" using assms(1) by (simp add: template_ok_def lockstep_capacity_def)
  from new_direct_models [OF this, of b 0]
  have start: "multi_latency.run_start b n ?x [] ?s new_latency_tally"
    using assms(2,3) unfolding multi_latency.run_start_def by (simp add: new_latency_tally_def lockstep_state_def)
  have runs: "lockstep_turns b batch_size width n stamp arrival ts = multi_latency.run_paced_from b n ?x ?s new_latency_tally ts" for ts
    unfolding lockstep_turns_def multi_latency.run_paced_from_def by simp
  from multi_latency.lockstep_reports [where report = latency_report, OF start assms(4), unfolded prod.case lockstep_program_fields(3),
      OF lockstep_reports_exactly]
  show ?thesis
    unfolding disruptor_latency_def runs multi_latency.in_lockstep_def by (simp add: Ball_def)
qed

theorem lockstep_latency_correct_witness:
  "disruptor_latency Debug 16 7 3 (\<lambda>_. 0) (\<lambda>i _. int i) [Producer_turn, Consumer_turn 2] \<in>
     {Inl Still_running, Inr (multi_latency_outcome 3 (\<lambda>_. 0) (\<lambda>i _. int i), True)}"
  using lockstep_latency_correct [of 3 16 "[Producer_turn, Consumer_turn 2]" Debug 7 "\<lambda>_. 0" "\<lambda>i _. int i"]
  by (simp add: turn_ok_def lockstep_capacity_def)

end
