(* ===== verification/Latency_Sweeps.thy ===== *)
theory Latency_Sweeps
  imports Latency_Benchmarks
begin

text \<open>
  The latency loops of \<open>configuration_sweep.cpp\<close> and \<open>next_frontier.cpp\<close>. Both publish in lockstep
  and take each sample from the event's time stamp; the first has any number of consumers, the
  second one, which consumes through the object or through its handle. The clock is a parameter:
  what the producer reads for an event, and what a consumer reads when it handles it. The result
  is the sorted samples; their percentiles, in floating point, are not modelled.
\<close>

section \<open>configuration_sweep.cpp\<close>

record sweep_tally =
  sw_consumed :: size_t
  sw_expected_sequence :: u64
  sw_ordered :: bool
  sw_samples :: "(nat \<Rightarrow> int) list"

definition sweep_warmup :: u64 where "sweep_warmup = 5000"
definition sweep_samples :: u64 where "sweep_samples = 50000"
definition sweep_latency_capacity :: size_t where "sweep_latency_capacity = 1024"

definition new_sweep_tally :: sweep_tally where
  "new_sweep_tally = \<lparr>sw_consumed = 0, sw_expected_sequence = 0, sw_ordered = True,
     sw_samples = replicate (unat sweep_samples) (\<lambda>_. 0)\<rparr>"

definition sweep_latency_program :: "size_t \<Rightarrow> nat \<Rightarrow> (u64 \<Rightarrow> int) \<Rightarrow> (nat \<Rightarrow> u64 \<Rightarrow> int) \<Rightarrow> (stamped_event, sweep_tally) stream_program" where
  "sweep_latency_program batch_size width stamp arrival =
     \<lparr>event_total = sweep_warmup + sweep_samples,
      batch = (\<lambda>remaining. if remaining < batch_size then remaining else batch_size),
      event_writer_from = (\<lambda>n_published output index w.
        (fill_stamped width (output\<lparr>published_at := stamp (n_published + index)\<rparr>) (n_published + index), w)),
      drain = batch_size,
      handler_from = (\<lambda>_ input sequence t.
        t\<lparr>sw_samples := record_sample sweep_warmup sequence (\<lambda>consumer. arrival consumer sequence - published_at input) (sw_samples t),
          sw_ordered := sw_ordered t \<and> sequence = sw_expected_sequence t \<and> stamped_is_correct input sequence,
          sw_expected_sequence := sw_expected_sequence t + 1\<rparr>),
      progress_of = sw_consumed,
      advance = (\<lambda>n t. t\<lparr>sw_consumed := sw_consumed t + n\<rparr>)\<rparr>"

definition sweep_latency_turns :: "build \<Rightarrow> size_t \<Rightarrow> nat \<Rightarrow> nat \<Rightarrow> (u64 \<Rightarrow> int) \<Rightarrow> (nat \<Rightarrow> u64 \<Rightarrow> int) \<Rightarrow> turn list \<Rightarrow>
    failure + (stamped_event disruptor, sweep_tally) paced" where
  "sweep_latency_turns b batch_size width n_consumers stamp arrival turns =
     run_paced (try_publish_batch b) direct_consume not_at_last (sweep_latency_program batch_size width stamp arrival) 0 turns
       (new_paced (single_producer_disruptor sweep_latency_capacity n_consumers
           \<lparr>published_at = 0, st_payload = replicate width 0\<rparr> 0)
         (replicate n_consumers new_sweep_tally))"

text \<open>What is done once the threads are joined.\<close>

definition sweep_report :: "sweep_tally list \<Rightarrow> run_error + int list" where
  "sweep_report ts = (if list_all sw_ordered ts then Inr (sort (gathered (map sw_samples ts))) else Inl Failed_validation)"

definition sweep_latency :: "build \<Rightarrow> size_t \<Rightarrow> nat \<Rightarrow> nat \<Rightarrow> (u64 \<Rightarrow> int) \<Rightarrow> (nat \<Rightarrow> u64 \<Rightarrow> int) \<Rightarrow> turn list \<Rightarrow>
    run_error + int list" where
  "sweep_latency b batch_size width n_consumers stamp arrival turns =
     paced_outcome (sweep_latency_program batch_size width stamp arrival) sweep_report
       (sweep_latency_turns b batch_size width n_consumers stamp arrival turns)"

definition sweep_state :: "(u64 \<Rightarrow> int) \<Rightarrow> (nat \<Rightarrow> u64 \<Rightarrow> int) \<Rightarrow> u64 \<Rightarrow> nat \<Rightarrow> sweep_tally" where
  "sweep_state stamp arrival first k = \<lparr>sw_consumed = of_nat k, sw_expected_sequence = of_nat k, sw_ordered = (first = 0 \<or> k = 0),
     sw_samples = samples_after sweep_warmup (replicate (unat sweep_samples) (\<lambda>_. 0))
       (\<lambda>sequence q consumer. arrival consumer sequence - stamp (of_nat q)) first k\<rparr>"

lemma sweep_latency_handler:
  "advance (sweep_latency_program batch_size width stamp arrival) (of_nat n)
    (deliver (handler_from (sweep_latency_program batch_size width stamp arrival) first) (first + of_nat k)
      (map (stamped width stamp) [k..<k + n]) (sweep_state stamp arrival first k)) = sweep_state stamp arrival first (k + n)"
proof -
  let ?st = "\<lambda>j. (sweep_state stamp arrival first j)\<lparr>sw_consumed := of_nat k\<rparr>"
  have "deliver (handler_from (sweep_latency_program batch_size width stamp arrival) first) (first + of_nat k)
      (map (stamped width stamp) [k..<k + n]) (?st k) = ?st (k + n)"
    by (intro deliver_steps)
      (use stamped_is_correct_stamped published_at_stamped in \<open>auto simp: sweep_latency_program_def sweep_state_def add.commute [of 1]\<close>)
  moreover have "?st k = sweep_state stamp arrival first k" by (simp add: sweep_state_def)
  ultimately show ?thesis by (simp add: sweep_latency_program_def) (simp add: sweep_state_def)
qed

lemma sweep_program_fields:
  "event_writer_from (sweep_latency_program batch_size width stamp arrival) = (\<lambda>n_published output index w.
     (fill_stamped width (output\<lparr>published_at := stamp (n_published + index)\<rparr>) (n_published + index), w))"
  "batch (sweep_latency_program batch_size width stamp arrival) = (\<lambda>remaining. if remaining < batch_size then remaining else batch_size)"
  "event_total (sweep_latency_program batch_size width stamp arrival) = sweep_warmup + sweep_samples"
  "drain (sweep_latency_program batch_size width stamp arrival) = batch_size"
  "progress_of (sweep_latency_program batch_size width stamp arrival) (sweep_state stamp arrival first k) = of_nat k"
  by (simp_all add: sweep_latency_program_def sweep_state_def)

lemmas sweep_laws = stamped_program_laws [where prog = "sweep_latency_program batch_size width stamp arrival" and
  width = width and stamp = stamp and batch_size = batch_size, OF sweep_program_fields(1,2)]
  for batch_size width stamp arrival

interpretation sweep_latencies: lockstep_client "try_publish_batch b" direct_consume consumer_position
  "direct_models b 0 sweep_latency_capacity n" "unat sweep_latency_capacity" n 0
  "\<lambda>(batch_size, width, stamp, arrival). batch_size \<noteq> 0 \<and> batch_size \<le> sweep_latency_capacity"
  "\<lambda>(batch_size, width, stamp, arrival). sweep_latency_program batch_size width stamp arrival"
  "\<lambda>(batch_size, width, stamp, arrival). stamped width stamp" "\<lambda>_ _. True"
  "\<lambda>(batch_size, width, stamp, arrival). sweep_state stamp arrival" not_at_last
  "\<lambda>(batch_size, width, stamp, arrival). unat batch_size"
  for b n
  by unfold_locales (auto simp: direct_position_behind sweep_latency_handler sweep_laws sweep_program_fields(4,5) split: prod.splits)

lemma sweep_reports:
  "sweep_report (replicate n (sweep_state stamp arrival 0 (unat (sweep_warmup + sweep_samples)))) =
    Inr (sort (concat (map (\<lambda>i. map (measured_latency sweep_warmup stamp (arrival i)) [0..<unat sweep_samples]) [0..<n])))"
proof -
  let ?t = "sweep_state stamp arrival 0 (unat (sweep_warmup + sweep_samples))"
  have "unat (sweep_warmup + sweep_samples) = unat sweep_warmup + unat sweep_samples"
    by (simp add: sweep_warmup_def sweep_samples_def)
  from samples_after_all [OF this, of "\<lambda>_. 0" "\<lambda>sequence published consumer. arrival consumer sequence - stamp published"]
  have "sw_samples ?t = map (\<lambda>q consumer. measured_latency sweep_warmup stamp (arrival consumer) q) [0..<unat sweep_samples]"
    by (simp add: sweep_state_def measured_latency_def)
  then have "gathered (map sw_samples (replicate n ?t)) =
      concat (map (\<lambda>i. map (measured_latency sweep_warmup stamp (arrival i)) [0..<unat sweep_samples]) [0..<n])"
    by (simp add: gathered_replicate)
  then show ?thesis by (simp add: sweep_report_def list_all_iff sweep_state_def)
qed

section \<open>next_frontier.cpp\<close>

record frontier_tally =
  ft_consumed :: size_t
  ft_ordered :: bool
  ft_samples :: "int list"

definition frontier_warmup :: u64 where "frontier_warmup = 5000"
definition frontier_samples :: u64 where "frontier_samples = 100000"
definition frontier_latency_capacity :: size_t where "frontier_latency_capacity = 1024"

definition new_frontier_tally :: frontier_tally where
  "new_frontier_tally = \<lparr>ft_consumed = 0, ft_ordered = True, ft_samples = replicate (unat frontier_samples) 0\<rparr>"

text \<open>The handler itself counts what is consumed; the count that a call returns is not used.\<close>

definition frontier_latency_program :: "size_t \<Rightarrow> (u64 \<Rightarrow> int) \<Rightarrow> (u64 \<Rightarrow> int) \<Rightarrow> (timed_event, frontier_tally) stream_program" where
  "frontier_latency_program batch_size stamp arrival =
     \<lparr>event_total = frontier_warmup + frontier_samples,
      batch = (\<lambda>remaining. if remaining < batch_size then remaining else batch_size),
      event_writer_from = (\<lambda>n_published output index w. (output\<lparr>published_ns := stamp (n_published + index)\<rparr>, w)),
      drain = batch_size,
      handler_from = (\<lambda>_ input sequence t.
        t\<lparr>ft_ordered := ft_ordered t \<and> sequence = ft_consumed t,
          ft_samples := record_sample frontier_warmup sequence (arrival sequence - published_ns input) (ft_samples t),
          ft_consumed := ft_consumed t + 1\<rparr>),
      progress_of = ft_consumed, advance = (\<lambda>_ t. t)\<rparr>"

definition endpoint_not_at_last :: "'ev endpoint \<Rightarrow> nat \<Rightarrow> u64 \<Rightarrow> bool" where
  "endpoint_not_at_last s = not_at_last (ep_object s)"

definition frontier_report :: "frontier_tally list \<Rightarrow> run_error + int list \<times> bool" where
  "frontier_report ts = Inr (sort (ft_samples (ts ! 0)), ft_ordered (ts ! 0))"

definition frontier_indexed_turns :: "build \<Rightarrow> size_t \<Rightarrow> (u64 \<Rightarrow> int) \<Rightarrow> (u64 \<Rightarrow> int) \<Rightarrow> turn list \<Rightarrow>
    failure + (timed_event disruptor, frontier_tally) paced" where
  "frontier_indexed_turns b batch_size stamp arrival turns =
     run_paced (try_publish_batch b) direct_consume not_at_last (frontier_latency_program batch_size stamp arrival) 0 turns
       (new_paced (single_producer_disruptor frontier_latency_capacity 1 \<lparr>published_ns = 0\<rparr> 0) [new_frontier_tally])"

definition frontier_handle_turns :: "build \<Rightarrow> size_t \<Rightarrow> (u64 \<Rightarrow> int) \<Rightarrow> (u64 \<Rightarrow> int) \<Rightarrow> turn list \<Rightarrow>
    failure + (timed_event endpoint, frontier_tally) paced" where
  "frontier_handle_turns b batch_size stamp arrival turns =
     run_paced (mixed_publish b) handle_consume endpoint_not_at_last (frontier_latency_program batch_size stamp arrival) 0 turns
       (new_paced (new_mixed frontier_latency_capacity 1 \<lparr>published_ns = 0\<rparr> 0) [new_frontier_tally])"

definition frontier_latency :: "build \<Rightarrow> size_t \<Rightarrow> bool \<Rightarrow> (u64 \<Rightarrow> int) \<Rightarrow> (u64 \<Rightarrow> int) \<Rightarrow> turn list \<Rightarrow> run_error + int list \<times> bool" where
  "frontier_latency b batch_size use_handle stamp arrival turns =
     (if use_handle
      then paced_outcome (frontier_latency_program batch_size stamp arrival) frontier_report
             (frontier_handle_turns b batch_size stamp arrival turns)
      else paced_outcome (frontier_latency_program batch_size stamp arrival) frontier_report
             (frontier_indexed_turns b batch_size stamp arrival turns))"

definition frontier_state :: "(u64 \<Rightarrow> int) \<Rightarrow> (u64 \<Rightarrow> int) \<Rightarrow> u64 \<Rightarrow> nat \<Rightarrow> frontier_tally" where
  "frontier_state stamp arrival first k = \<lparr>ft_consumed = of_nat k, ft_ordered = (first = 0 \<or> k = 0),
     ft_samples = samples_after frontier_warmup (replicate (unat frontier_samples) 0)
       (\<lambda>sequence q. arrival sequence - stamp (of_nat q)) first k\<rparr>"

text \<open>The laws of the program, whatever it consumes through.\<close>

lemma frontier_laws:
  fixes p n k :: nat
  assumes prog_def: "prog = frontier_latency_program batch_size stamp arrival" and "batch_size \<noteq> 0" "batch_size \<le> frontier_latency_capacity"
  shows "drain prog \<noteq> 0" "progress_of prog (frontier_state stamp arrival first k) = of_nat k"
    "fst (written (event_writer_from prog (of_nat p)) old 0 ()) = map (\<lambda>q. \<lparr>published_ns = stamp (of_nat q)\<rparr>) [p..<p + length old]"
    "advance prog (of_nat n) (deliver (handler_from prog first) (first + of_nat k)
      (map (\<lambda>q. \<lparr>published_ns = stamp (of_nat q)\<rparr>) [k..<k + n]) (frontier_state stamp arrival first k)) =
      frontier_state stamp arrival first (k + n)"
    "p < unat (event_total prog) \<Longrightarrow> 0 < unat (batch prog (event_total prog - of_nat p)) \<and>
      unat (batch prog (event_total prog - of_nat p)) \<le> unat frontier_latency_capacity \<and>
      p + unat (batch prog (event_total prog - of_nat p)) \<le> unat (event_total prog)"
    "p < unat (event_total prog) \<Longrightarrow> unat (batch prog (event_total prog - of_nat p)) \<le> unat batch_size"
proof -
  show "drain prog \<noteq> 0" "progress_of prog (frontier_state stamp arrival first k) = of_nat k"
    using assms(2) by (simp_all add: prog_def frontier_latency_program_def frontier_state_def)
  show "fst (written (event_writer_from prog (of_nat p)) old 0 ()) = map (\<lambda>q. \<lparr>published_ns = stamp (of_nat q)\<rparr>) [p..<p + length old]"
    by (rule written_values_from) (simp add: prog_def frontier_latency_program_def)
  have "deliver (handler_from prog first) (first + of_nat k)
      (map (\<lambda>q. \<lparr>published_ns = stamp (of_nat q)\<rparr>) [k..<k + n]) (frontier_state stamp arrival first k) =
      frontier_state stamp arrival first (k + n)"
    by (rule deliver_steps) (auto simp: prog_def frontier_latency_program_def frontier_state_def add.commute [of 1])
  then show "advance prog (of_nat n) (deliver (handler_from prog first) (first + of_nat k)
      (map (\<lambda>q. \<lparr>published_ns = stamp (of_nat q)\<rparr>) [k..<k + n]) (frontier_state stamp arrival first k)) =
      frontier_state stamp arrival first (k + n)"
    by (simp add: prog_def frontier_latency_program_def)
  assume p: "p < unat (event_total prog)"
  then show "0 < unat (batch prog (event_total prog - of_nat p)) \<and>
      unat (batch prog (event_total prog - of_nat p)) \<le> unat frontier_latency_capacity \<and>
      p + unat (batch prog (event_total prog - of_nat p)) \<le> unat (event_total prog)"
    using assms(2,3) tail_batch_law [of p "frontier_warmup + frontier_samples" batch_size frontier_latency_capacity]
    by (simp add: prog_def frontier_latency_program_def)
  show "unat (batch prog (event_total prog - of_nat p)) \<le> unat batch_size"
    using p tail_batch [of p "frontier_warmup + frontier_samples" batch_size]
    by (simp add: prog_def frontier_latency_program_def)
qed

interpretation frontier_indexed_latency: lockstep_client "try_publish_batch b" direct_consume consumer_position
  "direct_models b 0 frontier_latency_capacity 1" "unat frontier_latency_capacity" 1 0
  "\<lambda>(batch_size, _). batch_size \<noteq> 0 \<and> batch_size \<le> frontier_latency_capacity"
  "\<lambda>(batch_size, stamp, arrival). frontier_latency_program batch_size stamp arrival"
  "\<lambda>(_, stamp, _) q. \<lparr>published_ns = stamp (of_nat q)\<rparr>" "\<lambda>_ _. True"
  "\<lambda>(_, stamp, arrival). frontier_state stamp arrival" not_at_last "\<lambda>(batch_size, _). unat batch_size"
  for b
  by unfold_locales (auto simp: direct_position_behind frontier_laws [OF refl] split: prod.splits)

interpretation frontier_handle_latency: lockstep_client "mixed_publish b" handle_consume handle_position
  "mixed_models b 0 frontier_latency_capacity 1" "unat frontier_latency_capacity" 1 0
  "\<lambda>(batch_size, _). batch_size \<noteq> 0 \<and> batch_size \<le> frontier_latency_capacity"
  "\<lambda>(batch_size, stamp, arrival). frontier_latency_program batch_size stamp arrival"
  "\<lambda>(_, stamp, _) q. \<lparr>published_ns = stamp (of_nat q)\<rparr>" "\<lambda>_ _. True"
  "\<lambda>(_, stamp, arrival). frontier_state stamp arrival" endpoint_not_at_last "\<lambda>(batch_size, _). unat batch_size"
  for b
  by unfold_locales (auto simp: direct_position_behind endpoint_not_at_last_def mixed_models_def frontier_laws [OF refl] split: prod.splits)

section \<open>Both runs\<close>

definition sweep_outcome :: "nat \<Rightarrow> (u64 \<Rightarrow> int) \<Rightarrow> (nat \<Rightarrow> u64 \<Rightarrow> int) \<Rightarrow> int list" where
  "sweep_outcome n stamp arrival =
     sort (concat (map (\<lambda>i. map (measured_latency sweep_warmup stamp (arrival i)) [0..<unat sweep_samples]) [0..<n]))"

definition frontier_outcome :: "(u64 \<Rightarrow> int) \<Rightarrow> (u64 \<Rightarrow> int) \<Rightarrow> int list" where
  "frontier_outcome stamp arrival = sort (map (measured_latency frontier_warmup stamp arrival) [0..<unat frontier_samples])"

lemma sweep_latency_run:
  assumes "0 < n" "batch_size \<noteq> 0" "batch_size \<le> sweep_latency_capacity" "\<forall>t \<in> set turns. turn_ok n t"
  shows "sweep_latency b batch_size width n stamp arrival turns \<in> {Inl Still_running, Inr (sweep_outcome n stamp arrival)} \<and>
    (\<exists>pc. sweep_latency_turns b batch_size width n stamp arrival turns = Inr pc \<and> pc_retries pc = 0 \<and>
      (\<forall>i < n. unat (cl_published (pc_client pc) - consumer_position (cl_stream (pc_client pc)) i) \<le> unat batch_size)) \<and>
    (\<exists>m \<le> (2 * n + 1) * unat (sweep_warmup + sweep_samples).
      sweep_latency b batch_size width n stamp arrival (concat (replicate m (fair_round n))) = Inr (sweep_outcome n stamp arrival))"
proof -
  let ?x = "(batch_size, width, stamp, arrival)"
  let ?s = "single_producer_disruptor sweep_latency_capacity n \<lparr>published_at = 0, st_payload = replicate width 0\<rparr> 0"
  have "template_ok sweep_latency_capacity n" using assms(1) by (simp add: template_ok_def sweep_latency_capacity_def)
  from new_direct_models [OF this, of b 0]
  have start: "sweep_latencies.run_start b n ?x [] ?s new_sweep_tally"
    using assms(2,3) unfolding sweep_latencies.run_start_def by (simp add: new_sweep_tally_def sweep_state_def)
  have runs: "sweep_latency_turns b batch_size width n stamp arrival ts = sweep_latencies.run_paced_from b n ?x ?s new_sweep_tally ts" for ts
    unfolding sweep_latency_turns_def sweep_latencies.run_paced_from_def by simp
  from sweep_latencies.lockstep_reports [where report = sweep_report, OF start assms(4), unfolded prod.case sweep_program_fields(3), OF sweep_reports]
  show ?thesis
    unfolding sweep_latency_def runs sweep_outcome_def sweep_latencies.in_lockstep_def by simp
qed

lemma frontier_reports:
  "frontier_report (replicate 1 (frontier_state stamp arrival 0 (unat (frontier_warmup + frontier_samples)))) =
    Inr (frontier_outcome stamp arrival, True)"
proof -
  have "unat (frontier_warmup + frontier_samples) = unat frontier_warmup + unat frontier_samples"
    by (simp add: frontier_warmup_def frontier_samples_def)
  from samples_after_all [OF this, of 0 "\<lambda>sequence published. arrival sequence - stamp published"]
  show ?thesis by (simp add: frontier_report_def frontier_state_def frontier_outcome_def measured_latency_def [abs_def])
qed

lemma frontier_latency_run:
  assumes "batch_size \<noteq> 0" "batch_size \<le> frontier_latency_capacity" "\<forall>t \<in> set turns. turn_ok 1 t"
  shows "frontier_latency b batch_size use_handle stamp arrival turns \<in> {Inl Still_running, Inr (frontier_outcome stamp arrival, True)} \<and>
    (\<exists>m \<le> 3 * unat (frontier_warmup + frontier_samples).
      frontier_latency b batch_size use_handle stamp arrival (concat (replicate m (fair_round 1))) =
        Inr (frontier_outcome stamp arrival, True))"
proof -
  let ?x = "(batch_size, stamp, arrival)"
  let ?d = "single_producer_disruptor frontier_latency_capacity 1 \<lparr>published_ns = 0\<rparr> 0"
  let ?s = "new_mixed frontier_latency_capacity 1 \<lparr>published_ns = 0\<rparr> 0"
  have ok: "template_ok frontier_latency_capacity 1" by code_simp
  have tally: "new_frontier_tally = frontier_state stamp arrival 0 0" by (simp add: new_frontier_tally_def frontier_state_def)
  have start: "frontier_indexed_latency.run_start b ?x [] ?d new_frontier_tally"
    "frontier_handle_latency.run_start b ?x [] ?s new_frontier_tally"
    using assms(1,2) new_direct_models [OF ok, of b 0] new_mixed_models [OF ok, of b 0] tally
    unfolding frontier_indexed_latency.run_start_def frontier_handle_latency.run_start_def by simp_all
  have runs: "frontier_indexed_turns b batch_size stamp arrival ts = frontier_indexed_latency.run_paced_from b ?x ?d new_frontier_tally ts"
    "frontier_handle_turns b batch_size stamp arrival ts = frontier_handle_latency.run_paced_from b ?x ?s new_frontier_tally ts" for ts
    unfolding frontier_indexed_turns_def frontier_indexed_latency.run_paced_from_def
      frontier_handle_turns_def frontier_handle_latency.run_paced_from_def by simp_all
  have total: "event_total (frontier_latency_program batch_size stamp arrival) = frontier_warmup + frontier_samples"
    by (simp add: frontier_latency_program_def)
  show ?thesis
  proof (cases use_handle)
    case True
    from frontier_handle_latency.lockstep_reports [where report = frontier_report, OF start(2) assms(3), unfolded prod.case total, OF frontier_reports] True
    show ?thesis unfolding frontier_latency_def runs by simp
  next
    case False
    from frontier_indexed_latency.lockstep_reports [where report = frontier_report, OF start(1) assms(3), unfolded prod.case total, OF frontier_reports] False
    show ?thesis unfolding frontier_latency_def runs by simp
  qed
qed

text \<open>C38: The latency runs of both configuration benchmarks measure what they say: for every batch size that
  fits the ring and whatever the clocks read, on every schedule the sweep's run ends, if at all, with one
  sample for each measured event and each of its \<open>n\<close> consumers, the time from that event's own
  publication to its handling there, sorted; and the frontier run, through the object or through a
  handle, with those of its one consumer and a PASS. Nothing asserts and no validation fails;
  in the sweep no attempt to publish is rejected and no consumer is more than a batch behind.
  Both end when the threads keep getting turns.\<close>

theorem latency_sweeps_exact:
  assumes "0 < n" "batch_size \<noteq> 0" "batch_size \<le> 1024" "\<forall>t \<in> set turns. turn_ok n t" "\<forall>t \<in> set turns'. turn_ok 1 t"
  shows "sweep_latency b batch_size width n stamp arrival turns \<in> {Inl Still_running, Inr (sweep_outcome n stamp arrival)} \<and>
    (\<exists>pc. sweep_latency_turns b batch_size width n stamp arrival turns = Inr pc \<and> pc_retries pc = 0 \<and>
      (\<forall>i < n. unat (cl_published (pc_client pc) - consumer_position (cl_stream (pc_client pc)) i) \<le> unat batch_size)) \<and>
    (\<exists>m \<le> (2 * n + 1) * unat (sweep_warmup + sweep_samples).
      sweep_latency b batch_size width n stamp arrival (concat (replicate m (fair_round n))) = Inr (sweep_outcome n stamp arrival)) \<and>
    frontier_latency b batch_size use_handle stamp' arrival' turns' \<in> {Inl Still_running, Inr (frontier_outcome stamp' arrival', True)} \<and>
    (\<exists>m \<le> 3 * unat (frontier_warmup + frontier_samples).
      frontier_latency b batch_size use_handle stamp' arrival' (concat (replicate m (fair_round 1))) =
        Inr (frontier_outcome stamp' arrival', True))"
  using sweep_latency_run [of n batch_size turns b width stamp arrival]
    frontier_latency_run [of batch_size turns' b use_handle stamp' arrival'] assms
  unfolding sweep_latency_capacity_def frontier_latency_capacity_def by blast

theorem latency_sweeps_exact_witness:
  "sweep_latency Debug 16 7 3 (\<lambda>_. 0) (\<lambda>i _. int i) [Producer_turn, Consumer_turn 2] \<in>
     {Inl Still_running, Inr (sweep_outcome 3 (\<lambda>_. 0) (\<lambda>i _. int i))} \<and>
   frontier_latency Release 16 True (\<lambda>_. 0) (\<lambda>_. 1) [Producer_turn, Consumer_turn 0] \<in>
     {Inl Still_running, Inr (frontier_outcome (\<lambda>_. 0) (\<lambda>_. 1), True)}"
  using latency_sweeps_exact [of 3 16 "[Producer_turn, Consumer_turn 2]" "[Producer_turn, Consumer_turn 0]" Debug 7
      "\<lambda>_. 0" "\<lambda>i _. int i" True "\<lambda>_. 0" "\<lambda>_. 1"]
    latency_sweeps_exact [of 3 16 "[Producer_turn, Consumer_turn 2]" "[Producer_turn, Consumer_turn 0]" Release 7
      "\<lambda>_. 0" "\<lambda>i _. int i" True "\<lambda>_. 0" "\<lambda>_. 1"]
  by (simp add: turn_ok_def)

end
