(* ===== verification/Wait_Strategies.thy ===== *)
theory Wait_Strategies
  imports Latency_Benchmarks
begin

text \<open>
  The benchmark of the wait policies, \<open>wait_strategy.cpp\<close>: its throughput and its latency loops
  over one consumer. The policies do nothing the stream or the loops can see; what they do
  themselves is the subject of \<open>Spin_Wait\<close>. The clock is a parameter.
\<close>

section \<open>Throughput\<close>

text \<open>The time stamp of an event is not used here.\<close>

record wait_event =
  we_value :: u64

record wait_tally =
  wy_consumed :: u64
  wy_checksum :: u64

definition wait_event_count :: u64 where "wait_event_count = 5000000"
definition wait_capacity :: size_t where "wait_capacity = 65536"

definition wait_throughput_program :: "(wait_event, wait_tally) stream_program" where
  "wait_throughput_program =
     \<lparr>event_total = wait_event_count, batch = (\<lambda>_. 1),
      event_writer_from = (\<lambda>n_published output _ w. (output\<lparr>we_value := n_published\<rparr>, w)),
      drain = 1,
      handler_from = (\<lambda>_ input _ t. t\<lparr>wy_checksum := wy_checksum t + we_value input\<rparr>),
      progress_of = wy_consumed, advance = (\<lambda>n t. t\<lparr>wy_consumed := wy_consumed t + n\<rparr>)\<rparr>"

definition measure_throughput :: "build \<Rightarrow> turn list \<Rightarrow> run_error + u64" where
  "measure_throughput b turns =
     map_sum id (\<lambda>c. wy_checksum (cl_handlers c ! 0))
       (run_program (try_publish_batch b) direct_consume wait_throughput_program 0 turns
          (single_producer_disruptor wait_capacity 1 \<lparr>we_value = 0\<rparr> 0) [\<lparr>wy_consumed = 0, wy_checksum = 0\<rparr>])"

text \<open>The exit status of the program, from the checksums of its three throughput runs.\<close>

definition wait_strategy_status :: "u64 list \<Rightarrow> nat" where
  "wait_strategy_status checksums =
     (if list_all (\<lambda>c. c = (wait_event_count - 1) * wait_event_count div 2) checksums then 0 else 1)"

definition wait_state :: "u64 \<Rightarrow> nat \<Rightarrow> wait_tally" where
  "wait_state first k = \<lparr>wy_consumed = of_nat k, wy_checksum = (\<Sum>q<k. of_nat q)\<rparr>"

lemma wait_throughput_handler:
  "advance wait_throughput_program (of_nat n)
    (deliver (handler_from wait_throughput_program first) (first + of_nat k)
      (map (\<lambda>q. \<lparr>we_value = of_nat q\<rparr>) [k..<k + n]) (wait_state first k)) = wait_state first (k + n)"
proof -
  let ?st = "\<lambda>j. (wait_state first j)\<lparr>wy_consumed := of_nat k\<rparr>"
  have "deliver (handler_from wait_throughput_program first) (first + of_nat k)
      (map (\<lambda>q. \<lparr>we_value = of_nat q\<rparr>) [k..<k + n]) (?st k) = ?st (k + n)"
    by (rule deliver_steps) (simp add: wait_throughput_program_def wait_state_def add.commute)
  moreover have "?st k = wait_state first k" by (simp add: wait_state_def)
  ultimately show ?thesis by (simp add: wait_throughput_program_def) (simp add: wait_state_def)
qed

interpretation wait_throughput: stream_client "try_publish_batch b" direct_consume consumer_position
  "direct_models b 0 wait_capacity 1" "unat wait_capacity" 1 0 "\<lambda>_ :: unit. True"
  "\<lambda>_. wait_throughput_program" "\<lambda>_ q. \<lparr>we_value = of_nat q\<rparr>" "\<lambda>_ _. True" "\<lambda>_. wait_state"
  for b
proof unfold_locales
  fix p n k :: nat and first :: u64 and old :: "wait_event list"
  let ?prog = wait_throughput_program
  show "drain ?prog \<noteq> 0" "progress_of ?prog (wait_state first k) = of_nat k"
    by (simp_all add: wait_throughput_program_def wait_state_def)
  show "advance ?prog (of_nat n) (deliver (handler_from ?prog first) (first + of_nat k)
      (map (\<lambda>q. \<lparr>we_value = of_nat q\<rparr>) [k..<k + n]) (wait_state first k)) = wait_state first (k + n)"
    by (rule wait_throughput_handler)
  show "0 < unat (batch ?prog (event_total ?prog - of_nat p)) \<and>
      unat (batch ?prog (event_total ?prog - of_nat p)) \<le> unat wait_capacity \<and>
      p + unat (batch ?prog (event_total ?prog - of_nat p)) \<le> unat (event_total ?prog) \<and> True"
    if "p < unat (event_total ?prog)"
    using that by (simp add: wait_throughput_program_def wait_capacity_def)
  assume "length old = unat (batch ?prog (event_total ?prog - of_nat p))"
  then obtain e where "old = [e]" by (cases old) (auto simp: wait_throughput_program_def)
  then show "fst (written (event_writer_from ?prog (of_nat p)) old 0 ()) =
      map (\<lambda>q. \<lparr>we_value = of_nat q\<rparr>) [p..<p + length old]"
    by (simp add: wait_throughput_program_def)
qed

lemma wait_checksum_total: "(\<Sum>q < unat wait_event_count. of_nat q) = (wait_event_count - 1) * wait_event_count div 2"
proof -
  have "(\<Sum>q < 5000000. of_nat q) = (of_nat (\<Sum>q < 5000000. q) :: u64)" by simp
  also have "\<dots> = of_nat (5000000 * (5000000 - 1) div 2)" unfolding sum_upto_nat ..
  finally show ?thesis by (simp add: wait_event_count_def)
qed

text \<open>Every throughput run has the checksum of all its events, so that the program exits with 0, on
  every schedule of turns; and the runs end when the threads keep getting turns.\<close>

theorem wait_throughput_checksum:
  assumes "\<forall>t \<in> set turns. turn_ok 1 t"
  shows "measure_throughput b turns \<in> {Inl Still_running, Inr ((wait_event_count - 1) * wait_event_count div 2)} \<and>
    (\<exists>m \<le> 2 * unat wait_event_count.
      measure_throughput b (concat (replicate m (fair_round 1))) = Inr ((wait_event_count - 1) * wait_event_count div 2)) \<and>
    wait_strategy_status (replicate 3 ((wait_event_count - 1) * wait_event_count div 2)) = 0"
proof -
  let ?s = "single_producer_disruptor wait_capacity 1 \<lparr>we_value = 0\<rparr> 0" and ?h = "\<lparr>wy_consumed = 0, wy_checksum = 0\<rparr>"
  have "template_ok wait_capacity 1" by code_simp
  from new_direct_models [OF this, of b 0] have start: "wait_throughput.run_start b () [] ?s ?h"
    unfolding wait_throughput.run_start_def by (simp add: wait_state_def)
  have runs: "measure_throughput b ts = map_sum id (\<lambda>c. wy_checksum (cl_handlers c ! 0)) (wait_throughput.run b () [] ?s ?h ts)" for ts
    unfolding measure_throughput_def wait_throughput.run_def by simp
  have total: "event_total wait_throughput_program = wait_event_count" by (simp add: wait_throughput_program_def)
  have result: "wait_throughput.run_done b () [] c \<Longrightarrow> wy_checksum (cl_handlers c ! 0) = (wait_event_count - 1) * wait_event_count div 2" for c
    unfolding wait_throughput.run_done_def total using wait_checksum_total by (simp add: Let_def wait_state_def)
  have "measure_throughput b turns \<in> {Inl Still_running, Inr ((wait_event_count - 1) * wait_event_count div 2)}"
    using wait_throughput.run_result [OF start assms] result unfolding runs by auto
  moreover obtain m c where "m \<le> 2 * unat wait_event_count"
    "wait_throughput.run b () [] ?s ?h (concat (replicate m (fair_round 1))) = Inr c" "wait_throughput.run_done b () [] c"
    using wait_throughput.run_finishes [OF start] unfolding total by (auto simp: mult_2)
  ultimately show ?thesis using result unfolding runs by (auto simp: wait_strategy_status_def list_all_iff)
qed

theorem wait_throughput_checksum_witness:
  "measure_throughput Debug [Producer_turn, Consumer_turn 0] \<in> {Inl Still_running, Inr ((wait_event_count - 1) * wait_event_count div 2)}"
  using wait_throughput_checksum [of "[Producer_turn, Consumer_turn 0]" Debug] by (simp add: turn_ok_def)

section \<open>Latency\<close>

text \<open>
  \<open>measure_latency\<close>. The wait policies do nothing the stream or the loops can see. While the
  producer waits, the loop's \<open>sequence\<close> is one less than what is published. The result is the
  sorted samples; its percentiles, in floating point, are not modelled.
\<close>

record waiting_tally =
  wt_consumed :: u64
  wt_samples :: "int list"

definition wait_warmup_count :: u64 where
  "wait_warmup_count = 10000"

definition wait_sample_count :: u64 where
  "wait_sample_count = 200000"

definition wait_program :: "(u64 \<Rightarrow> int) \<Rightarrow> (u64 \<Rightarrow> int) \<Rightarrow> (timed_event, waiting_tally) stream_program" where
  "wait_program stamp arrival =
     \<lparr>event_total = wait_warmup_count + wait_sample_count, batch = (\<lambda>_. 1),
      event_writer_from = (\<lambda>sequence output _ w. (output\<lparr>published_ns := stamp sequence\<rparr>, w)),
      drain = 1,
      handler_from = (\<lambda>_ input sequence t.
        t\<lparr>wt_samples := record_sample wait_warmup_count (wt_consumed t) (arrival sequence - published_ns input) (wt_samples t)\<rparr>),
      progress_of = wt_consumed, advance = (\<lambda>n t. t\<lparr>wt_consumed := wt_consumed t + n\<rparr>)\<rparr>"

definition sequence_below :: "'ev disruptor \<Rightarrow> nat \<Rightarrow> u64 \<Rightarrow> bool" where
  "sequence_below d i n_published \<longleftrightarrow> consumer_sequence d i < n_published - 1"

definition wait_turns :: "build \<Rightarrow> (u64 \<Rightarrow> int) \<Rightarrow> (u64 \<Rightarrow> int) \<Rightarrow> turn list \<Rightarrow>
    failure + (timed_event disruptor, waiting_tally) paced" where
  "wait_turns b stamp arrival turns =
     run_paced (try_publish_batch b) direct_consume sequence_below (wait_program stamp arrival) 0 turns
       (new_paced (single_producer_disruptor lockstep_capacity 1 \<lparr>published_ns = 0\<rparr> 0)
         [\<lparr>wt_consumed = 0, wt_samples = replicate (unat wait_sample_count) 0\<rparr>])"

definition wait_report :: "waiting_tally list \<Rightarrow> run_error + int list" where
  "wait_report ts = Inr (sort (wt_samples (ts ! 0)))"

definition measure_latency :: "build \<Rightarrow> (u64 \<Rightarrow> int) \<Rightarrow> (u64 \<Rightarrow> int) \<Rightarrow> turn list \<Rightarrow> run_error + int list" where
  "measure_latency b stamp arrival turns =
     paced_outcome (wait_program stamp arrival) wait_report (wait_turns b stamp arrival turns)"

definition waited :: "(u64 \<Rightarrow> int) \<times> (u64 \<Rightarrow> int) \<Rightarrow> u64 \<Rightarrow> nat \<Rightarrow> waiting_tally" where
  "waited x first k = \<lparr>wt_consumed = of_nat k, wt_samples = samples_after wait_warmup_count (replicate (unat wait_sample_count) 0)
     (\<lambda>index q. snd x (first + index) - fst x (of_nat q)) 0 k\<rparr>"

lemma waited_start: "waited x first 0 = \<lparr>wt_consumed = 0, wt_samples = replicate (unat wait_sample_count) 0\<rparr>"
  by (simp add: waited_def)

lemma waited_consumed: "wt_consumed (waited x first k) = of_nat k"
  by (simp add: waited_def)

lemma wait_handler:
  assumes "n \<le> 1"
  shows "advance (wait_program stamp arrival) (of_nat n)
    (deliver (handler_from (wait_program stamp arrival) first) (first + of_nat k)
      (map (\<lambda>q. \<lparr>published_ns = stamp (of_nat q)\<rparr>) [k..<k + n]) (waited (stamp, arrival) first k)) =
    waited (stamp, arrival) first (k + n)"
proof (cases n)
  case 0
  then show ?thesis by (simp add: wait_program_def)
next
  case (Suc m)
  then have "n = 1" using assms by simp
  then show ?thesis by (simp add: wait_program_def waited_def add.commute)
qed

lemma waited_samples:
  "wt_samples (waited (stamp, arrival) 0 (unat (wait_warmup_count + wait_sample_count))) =
    map (measured_latency wait_warmup_count stamp arrival) [0..<unat wait_sample_count]"
proof -
  have "unat (wait_warmup_count + wait_sample_count) = unat wait_warmup_count + unat wait_sample_count"
    by (simp add: wait_warmup_count_def wait_sample_count_def)
  from samples_after_all [OF this, of 0 "\<lambda>index published. arrival index - stamp published"]
  show ?thesis by (simp add: waited_def measured_latency_def [abs_def])
qed

interpretation waiting: paced_client "try_publish_batch b" direct_consume consumer_position
  "direct_models b 0 lockstep_capacity 1" "unat lockstep_capacity" 1 0 "\<lambda>_. True"
  "\<lambda>(stamp, arrival). wait_program stamp arrival" "\<lambda>(stamp, arrival) q. \<lparr>published_ns = stamp (of_nat q)\<rparr>"
  "\<lambda>_ _. True" waited sequence_below
  for b
proof unfold_locales
  fix x :: "(u64 \<Rightarrow> int) \<times> (u64 \<Rightarrow> int)" and p n k :: nat and first :: u64 and old :: "timed_event list"
  obtain stamp arrival where x: "x = (stamp, arrival)" by (cases x)
  let ?prog = "case x of (stamp, arrival) \<Rightarrow> wait_program stamp arrival"
  let ?vals = "(\<lambda>(stamp, arrival) q. \<lparr>published_ns = stamp (of_nat q)\<rparr>) x"
  show "drain ?prog \<noteq> 0" by (simp add: x wait_program_def)
  show "progress_of ?prog (waited x first k) = of_nat k" by (simp add: x wait_program_def waited_consumed)
  show "0 < unat (batch ?prog (event_total ?prog - of_nat p)) \<and>
      unat (batch ?prog (event_total ?prog - of_nat p)) \<le> unat lockstep_capacity \<and>
      p + unat (batch ?prog (event_total ?prog - of_nat p)) \<le> unat (event_total ?prog) \<and> True"
    if "p < unat (event_total ?prog)"
    using that by (simp add: x wait_program_def lockstep_capacity_def)
  show "advance ?prog (of_nat n) (deliver (handler_from ?prog first) (first + of_nat k)
      (map ?vals [k..<k + n]) (waited x first k)) = waited x first (k + n)" if "n \<le> unat (drain ?prog)"
    unfolding x prod.case by (rule wait_handler) (use that in \<open>simp add: x wait_program_def\<close>)
  assume "length old = unat (batch ?prog (event_total ?prog - of_nat p))"
  then obtain e where "old = [e]" by (cases old) (auto simp: x wait_program_def)
  then show "fst (written (event_writer_from ?prog (of_nat p)) old 0 ()) = map ?vals [p..<p + length old]"
    by (simp add: x wait_program_def)
next
  fix d :: "timed_event disruptor" and log :: "timed_event list" and cs i
  assume m: "direct_models b 0 lockstep_capacity 1 d log cs" "i < (1 :: nat)" and log: "log \<noteq> []" "length log < 2 ^ 64"
    and "sequence_below d i (of_nat (length log))"
  moreover have "cs ! i \<le> length log" using direct.models_shape [OF m(1)] m(2) by simp
  moreover have "consumer_sequence d i = of_nat (cs ! i) - 1"
    using direct.position_law [OF m] m by (simp add: consumer_sequence_def consumer_position_def direct_models_def split: if_splits)
  ultimately show "cs ! i < length log" by (cases "cs ! i = length log") (auto simp: sequence_below_def)
qed

lemma waiting_start:
  "waiting.run_start b (stamp, arrival) [] (single_producer_disruptor lockstep_capacity 1 \<lparr>published_ns = 0\<rparr> 0)
     \<lparr>wt_consumed = 0, wt_samples = replicate (unat wait_sample_count) 0\<rparr>"
proof -
  have "template_ok lockstep_capacity 1" by code_simp
  from new_direct_models [OF this, of b 0] show ?thesis unfolding waiting.run_start_def by (simp add: waited_start)
qed

lemma wait_turns_run:
  "wait_turns b stamp arrival turns = waiting.run_paced_from b (stamp, arrival)
     (single_producer_disruptor lockstep_capacity 1 \<lparr>published_ns = 0\<rparr> 0)
     \<lparr>wt_consumed = 0, wt_samples = replicate (unat wait_sample_count) 0\<rparr> turns"
  unfolding wait_turns_def waiting.run_paced_from_def by simp

definition wait_outcome :: "(u64 \<Rightarrow> int) \<Rightarrow> (u64 \<Rightarrow> int) \<Rightarrow> int list" where
  "wait_outcome stamp arrival =
     sort (map (measured_latency wait_warmup_count stamp arrival) [0..<unat wait_sample_count])"

lemma wait_reports:
  "wait_report (replicate 1 (waited (stamp, arrival) 0 (unat (wait_warmup_count + wait_sample_count)))) =
    Inr (wait_outcome stamp arrival)"
  by (simp add: wait_report_def wait_outcome_def waited_samples)

text \<open>The wait-strategy latency run takes every sample after the warm-up from its own event,
  whatever the clock reads: on every schedule nothing asserts, the result is the sorted
  latencies of the measured events, and the loops end when the threads keep getting turns.\<close>

theorem wait_latency_samples:
  assumes "\<forall>t \<in> set turns. turn_ok 1 t"
  shows "measure_latency b stamp arrival turns \<in> {Inl Still_running, Inr (wait_outcome stamp arrival)} \<and>
    (\<exists>m \<le> 3 * unat (wait_warmup_count + wait_sample_count).
      measure_latency b stamp arrival (concat (replicate m (fair_round 1))) = Inr (wait_outcome stamp arrival))"
proof -
  have total: "event_total (wait_program stamp arrival) = wait_warmup_count + wait_sample_count"
    by (simp add: wait_program_def)
  from waiting.paced_reports [where report = wait_report, OF waiting_start [of b stamp arrival] assms, unfolded prod.case total,
      OF wait_reports]
  show ?thesis unfolding measure_latency_def wait_turns_run by simp
qed

theorem wait_latency_samples_witness:
  "measure_latency Release (\<lambda>_. 0) (\<lambda>_. 1) [Consumer_turn 0, Producer_turn] \<in>
     {Inl Still_running, Inr (wait_outcome (\<lambda>_. 0) (\<lambda>_. 1))}"
  using wait_latency_samples [of "[Consumer_turn 0, Producer_turn]" Release "\<lambda>_. 0" "\<lambda>_. 1"] by (simp add: turn_ok_def)

lemma wait_runs_ahead:
  assumes "k \<le> unat lockstep_capacity"
  shows "\<exists>pc. wait_turns b stamp arrival (replicate (2 * k) Producer_turn) = Inr pc \<and>
    waiting.paced_at b (stamp, arrival) pc k [0] \<and> pc_awaited pc = 1 \<and> pc_retries pc = 0"
  using assms
proof (induction k)
  case 0
  then show ?case using waiting.new_paced_at [OF waiting_start [of b stamp arrival]]
    by (simp add: wait_turns_def) (simp add: new_paced_def)
next
  case (Suc k)
  let ?prog = "wait_program stamp arrival" and ?x = "(stamp, arrival)"
  let ?go = "run_paced (try_publish_batch b) direct_consume sequence_below ?prog 0"
  obtain pc where run: "wait_turns b stamp arrival (replicate (2 * k) Producer_turn) = Inr pc"
    and at: "waiting.paced_at b ?x pc k [0]" and aw: "pc_awaited pc = 1" "pc_retries pc = 0"
    using Suc by auto
  have a: "waiting.at b ?x [] (pc_client pc) k [0]" using at unfolding waiting.paced_at_def by blast
  have total: "event_total ?prog = wait_warmup_count + wait_sample_count" "batch ?prog r = 1" for r
    by (simp_all add: wait_program_def)
  have k: "k < unat (event_total ?prog)"
    using Suc.prems by (simp add: total lockstep_capacity_def wait_warmup_count_def wait_sample_count_def)
  obtain c1 where att: "publish_attempt (try_publish_batch b) ?prog (pc_client pc) = Inr (True, c1)"
    and at1: "waiting.at b ?x [] c1 (Suc k) [0]"
    using waiting.publish_attempt_at [OF _ a, unfolded prod.case, OF _ k] Suc.prems by (auto simp: total split: if_splits)
  have pub: "cl_published (pc_client pc) = of_nat k" "cl_published c1 = of_nat (Suc k)"
    using a at1 unfolding waiting.at_def by simp_all
  have "cl_published (pc_client pc) < event_total ?prog" using k waiting.at_shape(3) [OF a] by (simp add: pub word_nat)
  then have one: "paced_producer_turn (try_publish_batch b) sequence_below ?prog pc =
      Inr (pc\<lparr>pc_client := c1, pc_awaited := 0\<rparr>)"
    using att aw(1) waiting.handlers_at [OF a] by (simp add: paced_producer_turn_def Let_def)
  have m: "direct_models b 0 lockstep_capacity 1 (cl_stream c1)
      (map (\<lambda>q. \<lparr>published_ns = stamp (of_nat q)\<rparr>) [0..<Suc k]) [0]"
    using at1 unfolding waiting.at_def by simp
  have "consumer_sequence (cl_stream c1) 0 = - 1"
    using direct.position_law [OF m] m
    by (simp add: consumer_sequence_def consumer_position_def direct_models_def split: if_splits)
  then have "\<not> sequence_below (cl_stream c1) 0 (cl_published c1)"
    by (simp add: sequence_below_def not_less word_order.extremum)
  then have two: "paced_producer_turn (try_publish_batch b) sequence_below ?prog (pc\<lparr>pc_client := c1, pc_awaited := 0\<rparr>) =
      Inr (pc\<lparr>pc_client := c1, pc_awaited := 1\<rparr>)"
    using waiting.handlers_at [OF at1] by (cases "cl_handlers c1") (simp_all add: paced_producer_turn_def Let_def)
  have "replicate (2 * Suc k) Producer_turn = replicate (2 * k) Producer_turn @ [Producer_turn, Producer_turn]"
    by (simp add: replicate_append_same [symmetric])
  then have "wait_turns b stamp arrival (replicate (2 * Suc k) Producer_turn) = Inr (pc\<lparr>pc_client := c1, pc_awaited := 1\<rparr>)"
    using run one two by (simp add: wait_turns_def run_paced_append)
  then show ?case using at1 aw(2) unfolding waiting.paced_at_def
    by (intro exI [of _ "pc\<lparr>pc_client := c1, pc_awaited := 1\<rparr>"]) simp
qed

text \<open>C32: The wait of the wait-strategy latency run does not hold the producer back before the
  first event is consumed: \<open>consumer_sequence\<close> is the largest word until then and is never below
  the producer's sequence, so that the producer alone fills the whole ring.\<close>

theorem wait_latency_starts_ahead:
  "\<exists>pc. wait_turns b stamp arrival (replicate (2 * unat lockstep_capacity) Producer_turn) = Inr pc \<and>
    cl_published (pc_client pc) = lockstep_capacity \<and> consumer_position (cl_stream (pc_client pc)) 0 = 0 \<and>
    pc_retries pc = 0"
proof -
  obtain pc where run: "wait_turns b stamp arrival (replicate (2 * unat lockstep_capacity) Producer_turn) = Inr pc"
    and at: "waiting.paced_at b (stamp, arrival) pc (unat lockstep_capacity) [0]" "pc_retries pc = 0"
    using wait_runs_ahead [OF order_refl] by blast
  have "direct_models b 0 lockstep_capacity 1 (cl_stream (pc_client pc))
      (map (\<lambda>q. \<lparr>published_ns = stamp (of_nat q)\<rparr>) [0..<unat lockstep_capacity]) [0]"
    and "cl_published (pc_client pc) = lockstep_capacity"
    using at(1) unfolding waiting.paced_at_def waiting.at_def by simp_all
  then show ?thesis using run at(2) direct.position_law [of b 0 lockstep_capacity 1 "cl_stream (pc_client pc)"] by fastforce
qed

end
