(* ===== verification/Blocking_Slot.thy ===== *)
theory Blocking_Slot
  imports Samples
begin

text \<open>
  The blocking slot \<open>latency.cpp\<close> compares with, a monitor of one mutex and two condition
  variables, and the loops of \<open>blocking_latency\<close> over it. A step is one thread's critical section:
  it ends with the operation done and the other thread notified, or in a wait. A thread that waits
  runs again when it is notified, or spuriously. The clock is a parameter.
\<close>

section \<open>The slot\<close>

record blocking_slot =
  bs_published_at :: int
  bs_full :: bool

definition new_blocking_slot :: blocking_slot where
  "new_blocking_slot = \<lparr>bs_published_at = 0, bs_full = False\<rparr>"

text \<open>What happens once the predicate of the wait holds; \<open>None\<close> while it does not.\<close>

definition slot_publish :: "int \<Rightarrow> blocking_slot \<Rightarrow> blocking_slot option" where
  "slot_publish published_at slot =
     (if bs_full slot then None else Some (slot\<lparr>bs_published_at := published_at, bs_full := True\<rparr>))"

definition slot_consume :: "blocking_slot \<Rightarrow> (int \<times> blocking_slot) option" where
  "slot_consume slot = (if \<not> bs_full slot then None else Some (bs_published_at slot, slot\<lparr>bs_full := False\<rparr>))"

section \<open>The two threads\<close>

datatype thread_state = Running | Waiting

record blocking_run =
  br_slot :: blocking_slot
  br_producer :: thread_state
  br_consumer :: thread_state
  br_sequence :: size_t
  br_consumed :: size_t
  br_samples :: "int list"

datatype slot_event = Producer_acts | Consumer_acts | Wake_producer | Wake_consumer

definition blocking_warmup :: size_t where "blocking_warmup = 10000"
definition blocking_samples :: size_t where "blocking_samples = 200000"
definition blocking_total :: size_t where "blocking_total = blocking_warmup + blocking_samples"

definition new_blocking_run :: blocking_run where
  "new_blocking_run = \<lparr>br_slot = new_blocking_slot, br_producer = Running, br_consumer = Running, br_sequence = 0, br_consumed = 0,
     br_samples = replicate (unat blocking_samples) 0\<rparr>"

definition producer_acts :: "(size_t \<Rightarrow> int) \<Rightarrow> blocking_run \<Rightarrow> blocking_run" where
  "producer_acts stamp r =
     (if br_producer r = Waiting \<or> \<not> br_sequence r < blocking_total then r
      else case slot_publish (stamp (br_sequence r)) (br_slot r) of
             None \<Rightarrow> r\<lparr>br_producer := Waiting\<rparr>
           | Some slot \<Rightarrow> r\<lparr>br_slot := slot, br_sequence := br_sequence r + 1, br_consumer := Running\<rparr>)"

definition consumer_acts :: "(size_t \<Rightarrow> int) \<Rightarrow> blocking_run \<Rightarrow> blocking_run" where
  "consumer_acts arrival r =
     (if br_consumer r = Waiting \<or> \<not> br_consumed r < blocking_total then r
      else case slot_consume (br_slot r) of
             None \<Rightarrow> r\<lparr>br_consumer := Waiting\<rparr>
           | Some (published_at, slot) \<Rightarrow> r\<lparr>br_slot := slot, br_producer := Running,
               br_samples := record_sample blocking_warmup (br_consumed r) (arrival (br_consumed r) - published_at) (br_samples r),
               br_consumed := br_consumed r + 1\<rparr>)"

definition slot_step :: "(size_t \<Rightarrow> int) \<Rightarrow> (size_t \<Rightarrow> int) \<Rightarrow> slot_event \<Rightarrow> blocking_run \<Rightarrow> blocking_run" where
  "slot_step stamp arrival event r =
     (case event of
        Producer_acts \<Rightarrow> producer_acts stamp r
      | Consumer_acts \<Rightarrow> consumer_acts arrival r
      | Wake_producer \<Rightarrow> r\<lparr>br_producer := Running\<rparr>
      | Wake_consumer \<Rightarrow> r\<lparr>br_consumer := Running\<rparr>)"

definition blocking_finished :: "blocking_run \<Rightarrow> bool" where
  "blocking_finished r \<longleftrightarrow> \<not> br_sequence r < blocking_total \<and> \<not> br_consumed r < blocking_total"

text \<open>The sorted samples its percentiles are taken from.\<close>

definition blocking_latency :: "(size_t \<Rightarrow> int) \<Rightarrow> (size_t \<Rightarrow> int) \<Rightarrow> slot_event list \<Rightarrow> run_error + int list" where
  "blocking_latency stamp arrival schedule =
     (let r = fold (slot_step stamp arrival) schedule new_blocking_run
      in if blocking_finished r then Inr (sort (br_samples r)) else Inl Still_running)"

lemma slot_step_acts:
  "slot_step stamp arrival Producer_acts = producer_acts stamp" "slot_step stamp arrival Consumer_acts = consumer_acts arrival"
  by (simp_all add: slot_step_def fun_eq_iff)

section \<open>The monitor's invariant\<close>

text \<open>
  Between two critical sections the slot is full exactly when one more is published than consumed,
  it holds that publication's stamp, and nobody waits for what already holds: no wake-up is lost.
\<close>

definition blocking_ok :: "(size_t \<Rightarrow> int) \<Rightarrow> (size_t \<Rightarrow> int) \<Rightarrow> blocking_run \<Rightarrow> nat \<Rightarrow> bool" where
  "blocking_ok stamp arrival r k \<longleftrightarrow>
     k + (if bs_full (br_slot r) then 1 else 0) \<le> unat blocking_total \<and>
     br_consumed r = of_nat k \<and> br_sequence r = of_nat k + (if bs_full (br_slot r) then 1 else 0) \<and>
     (bs_full (br_slot r) \<longrightarrow> bs_published_at (br_slot r) = stamp (of_nat k)) \<and>
     (br_producer r = Waiting \<longrightarrow> bs_full (br_slot r)) \<and> (br_consumer r = Waiting \<longrightarrow> \<not> bs_full (br_slot r)) \<and>
     br_samples r = samples_after blocking_warmup (replicate (unat blocking_samples) 0) (\<lambda>index q. arrival index - stamp (of_nat q)) 0 k"

lemma new_blocking_ok: "blocking_ok stamp arrival new_blocking_run 0"
  by (simp add: blocking_ok_def new_blocking_run_def new_blocking_slot_def)

lemma below_total: "k \<le> unat blocking_total \<Longrightarrow> of_nat k < blocking_total \<longleftrightarrow> k < unat blocking_total"
  using unat_of_nat_le64 [of k blocking_total] by (simp add: word_nat)

lemma producer_acts_ok:
  assumes "blocking_ok stamp arrival r k"
  shows "blocking_ok stamp arrival (producer_acts stamp r) k"
    and "k < unat blocking_total \<Longrightarrow> bs_full (br_slot (producer_acts stamp r)) \<and> br_consumer (producer_acts stamp r) = Running"
proof -
  have k: "k \<le> unat blocking_total" using assms by (simp add: blocking_ok_def split: if_splits)
  show "blocking_ok stamp arrival (producer_acts stamp r) k"
    using assms below_total [OF k] by (auto simp: blocking_ok_def producer_acts_def slot_publish_def split: if_splits)
  show "bs_full (br_slot (producer_acts stamp r)) \<and> br_consumer (producer_acts stamp r) = Running" if "k < unat blocking_total"
    using assms that below_total [OF k] thread_state.exhaust [of "br_consumer r"]
    by (auto simp: blocking_ok_def producer_acts_def slot_publish_def split: if_splits)
qed

lemma consumer_acts_ok:
  assumes "blocking_ok stamp arrival r k"
  shows "\<exists>k'. blocking_ok stamp arrival (consumer_acts arrival r) k' \<and> k \<le> k' \<and>
    (bs_full (br_slot r) \<and> br_consumer r = Running \<longrightarrow> k < k')"
proof (cases "bs_full (br_slot r) \<and> br_consumer r = Running")
  case True
  then have k: "k < unat blocking_total" using assms by (simp add: blocking_ok_def)
  then have "br_consumed r < blocking_total" using assms below_total [of k] by (simp add: blocking_ok_def)
  then have "blocking_ok stamp arrival (consumer_acts arrival r) (Suc k)"
    using assms True k by (simp add: blocking_ok_def consumer_acts_def slot_consume_def add.commute)
  then show ?thesis by (intro exI [of _ "Suc k"]) simp
next
  case False
  then have "consumer_acts arrival r = r \<or> consumer_acts arrival r = r\<lparr>br_consumer := Waiting\<rparr> \<and> \<not> bs_full (br_slot r)"
    using thread_state.exhaust [of "br_consumer r"] by (auto simp: consumer_acts_def slot_consume_def)
  then have "blocking_ok stamp arrival (consumer_acts arrival r) k"
    using assms by (elim disjE) (simp_all add: blocking_ok_def)
  then show ?thesis using False by blast
qed

lemma slot_step_ok:
  assumes "blocking_ok stamp arrival r k"
  shows "\<exists>k'. blocking_ok stamp arrival (slot_step stamp arrival event r) k' \<and> k \<le> k'"
proof (cases event)
  case Producer_acts
  then show ?thesis using producer_acts_ok(1) [OF assms] by (auto simp: slot_step_def)
next
  case Consumer_acts
  then show ?thesis using consumer_acts_ok [OF assms] by (auto simp: slot_step_def)
next
  case Wake_producer
  then show ?thesis using assms by (auto simp: slot_step_def blocking_ok_def)
next
  case Wake_consumer
  then show ?thesis using assms by (auto simp: slot_step_def blocking_ok_def)
qed

lemma slot_run_ok:
  "blocking_ok stamp arrival r k \<Longrightarrow> \<exists>k'. blocking_ok stamp arrival (fold (slot_step stamp arrival) schedule r) k' \<and> k \<le> k'"
proof (induction schedule arbitrary: r k)
  case (Cons event schedule)
  then show ?case using slot_step_ok [OF Cons.prems, of event] by (metis fold_simps(2) order_trans)
qed auto

lemma one_runs: "blocking_ok stamp arrival r k \<Longrightarrow> Running \<in> {br_producer r, br_consumer r}"
  by (cases "br_producer r"; cases "br_consumer r") (auto simp: blocking_ok_def)

text \<open>A turn of each thread hands one event over.\<close>

lemma slot_rounds_ok:
  "blocking_ok stamp arrival r k \<Longrightarrow>
    \<exists>k'. blocking_ok stamp arrival (fold (slot_step stamp arrival) (concat (replicate m [Producer_acts, Consumer_acts])) r) k' \<and>
      min (k + m) (unat blocking_total) \<le> k'"
proof (induction m arbitrary: r k)
  case 0
  then show ?case by auto
next
  case (Suc m)
  note p = producer_acts_ok [OF Suc.prems]
  obtain k1 where ok: "blocking_ok stamp arrival (consumer_acts arrival (producer_acts stamp r)) k1" "k \<le> k1"
    "k < unat blocking_total \<longrightarrow> k < k1"
    using consumer_acts_ok [OF p(1)] p(2) by blast
  obtain k' where "blocking_ok stamp arrival (fold (slot_step stamp arrival) (concat (replicate m [Producer_acts, Consumer_acts]))
      (consumer_acts arrival (producer_acts stamp r))) k'" "min (k1 + m) (unat blocking_total) \<le> k'"
    using Suc.IH [OF ok(1)] by blast
  then show ?case using ok by (intro exI [of _ k']) (auto simp: slot_step_acts)
qed

definition blocking_outcome :: "(size_t \<Rightarrow> int) \<Rightarrow> (size_t \<Rightarrow> int) \<Rightarrow> int list" where
  "blocking_outcome stamp arrival = sort (map (measured_latency blocking_warmup stamp arrival) [0..<unat blocking_samples])"

lemma blocking_finished_iff:
  assumes "blocking_ok stamp arrival r k"
  shows "blocking_finished r \<longleftrightarrow> k = unat blocking_total"
    and "k = unat blocking_total \<Longrightarrow> sort (br_samples r) = blocking_outcome stamp arrival"
proof -
  have k: "k + (if bs_full (br_slot r) then 1 else 0) \<le> unat blocking_total" using assms by (simp add: blocking_ok_def)
  show "blocking_finished r \<longleftrightarrow> k = unat blocking_total"
    using assms k below_total [of k] by (auto simp: blocking_finished_def blocking_ok_def)
  assume "k = unat blocking_total"
  moreover have "unat (blocking_warmup + blocking_samples) = unat blocking_warmup + unat blocking_samples"
    by (simp add: blocking_warmup_def blocking_samples_def)
  from samples_after_all [OF this, of 0 "\<lambda>index published. arrival index - stamp published"]
  show "sort (br_samples r) = blocking_outcome stamp arrival"
    using assms calculation
    by (simp add: blocking_ok_def blocking_outcome_def blocking_total_def measured_latency_def [abs_def])
qed

text \<open>C39: The blocking slot hands every event over, once and in order, and loses no wake-up: whatever the
  clocks read, on every schedule of the two threads and of spurious wake-ups, the run ends, if at all,
  with the latencies of the measured events, each its own; the threads never both wait; and from
  wherever a schedule has led, one turn of each thread for each event ends the run.\<close>

theorem blocking_slot_hands_over:
  "blocking_latency stamp arrival schedule \<in> {Inl Still_running, Inr (blocking_outcome stamp arrival)} \<and>
   (let r = fold (slot_step stamp arrival) schedule new_blocking_run
    in Running \<in> {br_producer r, br_consumer r}) \<and>
   blocking_latency stamp arrival (schedule @ concat (replicate (unat blocking_total) [Producer_acts, Consumer_acts])) =
     Inr (blocking_outcome stamp arrival)"
proof -
  let ?r = "fold (slot_step stamp arrival) schedule new_blocking_run"
  let ?r' = "fold (slot_step stamp arrival) (concat (replicate (unat blocking_total) [Producer_acts, Consumer_acts])) ?r"
  obtain k where ok: "blocking_ok stamp arrival ?r k" using slot_run_ok [OF new_blocking_ok] by blast
  obtain k' where ok': "blocking_ok stamp arrival ?r' k'" and k': "unat blocking_total \<le> k'"
    using slot_rounds_ok [OF ok, of "unat blocking_total"] by auto
  have "k' = unat blocking_total" using ok' k' by (simp add: blocking_ok_def split: if_splits)
  then have "blocking_finished ?r'" "sort (br_samples ?r') = blocking_outcome stamp arrival"
    using blocking_finished_iff [OF ok'] by simp_all
  then have "blocking_latency stamp arrival (schedule @ concat (replicate (unat blocking_total) [Producer_acts, Consumer_acts])) =
      Inr (blocking_outcome stamp arrival)"
    unfolding blocking_latency_def fold_append comp_apply Let_def by (simp only: if_True)
  moreover have "blocking_latency stamp arrival schedule \<in> {Inl Still_running, Inr (blocking_outcome stamp arrival)}"
    unfolding blocking_latency_def Let_def using blocking_finished_iff [OF ok] by (cases "blocking_finished ?r") simp_all
  moreover have "Running \<in> {br_producer ?r, br_consumer ?r}" by (rule one_runs [OF ok])
  ultimately show ?thesis unfolding Let_def by blast
qed

end
