(* ===== verification/Spec2Isabelle.thy ===== *)
theory Spec2Isabelle
  imports Disruptor_Properties Concurrent_Refinement Spin_Wait Socket_Options Socket_Channel Socket_Lifetimes Lls_Info
    Basic_Example Throughput Ring_Queues Latency_Sweeps Wait_Strategies Blocking_Slot
begin

text \<open>
  Low Latency Showcase: a verification development.

  \<^bold>\<open>The program.\<close> The repository is a C++20 library of three header-only modules with an
  information program, an example and benchmarks. \<open>single_producer_disruptor\<close>
  (\<open>modules/concurrency/disruptor-single-producer\<close>) is a ring through which one producer
  multicasts events to a fixed number of consumers, each with a cursor of its own; they publish
  and consume through the object or through handles that cache cursors. \<open>spin_wait.hpp\<close>
  (\<open>modules/concurrency/spin-wait\<close>) holds the policies a thread follows while it polls.
  \<open>low_latency_sockets.hpp\<close> (\<open>modules/networking/low-latency-sockets\<close>) wraps the kernel's socket
  calls: options that are read back, exact sends and receives, datagrams, and their
  busy-spinning forms. \<open>apps/lls-info\<close> prints what \<open>include/lls/compiler_info.hpp\<close> reports.

  \<^bold>\<open>The theories.\<close>

  \<^item> \<open>Prelude\<close>: facts on words, lists and options that every component uses; type synonyms.
  \<^item> \<open>Disruptor\<close>: the object as a record of its members, the constructor, the direct paths
    \<open>try_publish(_batch)\<close>, \<open>try_consume\<close> and \<open>consume_available\<close> with the scan of the consumers
    (\<open>refresh_available_capacity\<close>), and the four queries. Cursors are 64-bit words that wrap.
  \<^item> \<open>Stream_Spec\<close>: the abstract specification, a stream \<open>log\<close> and what each consumer has taken.
    \<open>Disruptor_Refinement\<close>: \<open>represents\<close> relates an object to a stream, and every operation
    simulates the stream's.
  \<^item> \<open>Disruptor_Handles\<close>: \<open>producer_handle\<close> and \<open>consumer_handle\<close>, their moves and destructor; their
    operations on a contiguous span and its wrapped rest are the direct ones.
  \<^item> \<open>Disruptor_Sessions\<close>: a step relation for every order in which the object and its handles may be
    opened, moved, used and closed under the contract of the module's README, one live publication
    path and one live consumption path per consumer index, with the invariant of its reachable
    states.
  \<^item> \<open>Disruptor_Concurrent\<close>: the threads' own steps, one per access to a shared cursor or slot.
    \<open>Concurrent_Refinement\<close>: whatever the handles' calls do, these steps can do.
  \<^item> \<open>Disruptor_Properties\<close>: the properties of the object and its handles.
  \<^item> \<open>Multicast\<close>: the interface the programs use, a locale \<open>multicast\<close> with its laws, interpreted on
    the object (\<open>direct\<close>), on the handles (\<open>handles\<close>) and on the object with consumer handles
    (\<open>mixed\<close>).
  \<^item> \<open>Stream_Client\<close>: the loops of the benchmarks over that interface, proved once in the locale
    \<open>stream_client\<close>, and the same loops with handlers that record what they are given;
    \<open>Lockstep\<close>: the loops whose producer waits for its consumers, in
    \<open>paced_client\<close> and \<open>lockstep_client\<close>.
  \<^item> \<open>Basic_Example\<close> (\<open>examples/basic.cpp\<close>), \<open>Throughput\<close> (\<open>throughput.cpp\<close>,
    \<open>configuration_sweep.cpp\<close>, \<open>next_frontier.cpp\<close>), \<open>Paired_Benchmark\<close>
    (\<open>paired_benchmark.cpp\<close>), \<open>Latency_Benchmarks\<close> (\<open>paired_latency_benchmark.cpp\<close>,
    \<open>latency.cpp\<close>), \<open>Latency_Sweeps\<close> (the latency loops of \<open>configuration_sweep.cpp\<close> and
    \<open>next_frontier.cpp\<close>) and \<open>Wait_Strategies\<close> (\<open>wait_strategy.cpp\<close>): the programs, each an
    interpretation of these locales. \<open>Samples\<close>: how they keep their latencies.
  \<^item> \<open>Blocking_Slot\<close>: the slot \<open>latency.cpp\<close> compares with, a monitor with two condition variables,
    and the loops over it.
  \<^item> \<open>Ring_Queues\<close>: the two rings \<open>throughput.cpp\<close> compares with, behind a locale \<open>bounded_fifo\<close>.
  \<^item> \<open>Latency_Statistics\<close>: percentiles and summary of the paired latency benchmark.
    \<open>Paired_Config\<close>: the command lines of both paired benchmarks. \<open>Text\<close>: their CSV fields and
    hexadecimal numbers.
  \<^item> \<open>Spin_Wait\<close>: the policies behind a locale \<open>wait_policy\<close>.
  \<^item> \<open>Sockets\<close>: every function of the socket header. \<open>Socket_Properties\<close>: streams and datagrams over
    a kernel that may split, interrupt and fail any call. \<open>Socket_Options\<close>: options and sends.
    \<open>Socket_Channel\<close>: what a send and a receive come to together.
  \<^item> The socket latency benchmark, \<open>socket_latency.cpp\<close>. \<open>Wire_Message\<close>: its messages as bytes, with
    their checksum. \<open>Socket_Workloads\<close>: the command line, the affinity rule and the schedule.
    \<open>Benchmark_Sockets\<close>: its socket calls and waits, against those of the header, the spinning ones
    over a kernel that counts the empty polls. \<open>Round_Trips\<close>: \<open>run_client\<close> for any exchange, and the
    row of a run. \<open>Tcp_Echo\<close>: the socket options, the echoing server and the TCP exchange, which runs
    over a kernel with the server's thread beside it. \<open>Udp_Server\<close> and \<open>Udp_Client\<close>: \<open>run_udp\<close>, its
    two loops over datagrams that may be lost, repeated and reordered, and the accounting.
    \<open>Socket_Runs\<close>: the sockets of \<open>run_tcp\<close> and \<open>run_udp\<close> with the scopes of their \<open>unique_fd\<close>s, the handlers, and \<open>main\<close>.
    \<open>Socket_Lifetimes\<close>: what the runs leave behind.
  \<^item> \<open>Lls_Info\<close>: the information program and its self-test.

  \<^bold>\<open>What the lemmas show.\<close> A published batch is accepted exactly when the slowest consumer leaves
  room for it, and a consumer takes exactly the next events of the stream, in order and once
  each, across the wrap of the ring and of the cursors; handles, with their caches, do the same.
  Under the README's contract no order of operations asserts, loses an event or delivers one
  twice; the code asserts the contract for publications in debug builds and leaves it to its
  user for consumptions, where mixing a handle with indexed consumption delivers events twice.
  In the concurrent model no slot is read while it is written, whatever values of the cursors
  the threads observe, and every consumer receives a prefix of the stream. A program over the
  interface ends in the state its stream determines on every schedule of its threads' turns, and
  the sweeps' own check passes for nothing but the whole stream; a latency benchmark's samples
  are those of its measured events, each of its own, and the blocking slot loses neither an
  event nor a wake-up. The paired benchmark's percentiles are the order statistics of its
  samples. The exact stream operations transfer precisely a prefix and say why it is not the
  whole; those with a deadline return; the socket benchmark's own calls agree with them. Its
  rows vouch for their rounds: each latency is that of the round's own message, between the
  clock readings around it, and every attempt is a completed round, a request the server never
  saw or a response that was missed. It prints the rows of its schedule in order and exits with
  0 only when all are there; every run, also one that throws, closes the sockets it created and
  joins its server's thread.

  \<^bold>\<open>Assumptions on code that is not in the repository.\<close> The kernel is a record of functions
  \<open>socket_api\<close> over the state of the world, a parameter of every socket definition. The hypotheses
  are its documented behaviour: \<open>sends_stream\<close> and \<open>receives_stream\<close> (a call that succeeds transfers
  a prefix of what it was given, an error transfers nothing), \<open>receives_datagrams\<close>, \<open>queues_datagram\<close>,
  and \<open>interrupts_end\<close>, that a call is not interrupted for ever. The clock is a function that
  advances with every reading (\<open>clock_runs\<close>) and that no receive sets back; in the latency
  benchmarks it is arbitrary. The two pipes of a TCP connection are \<open>connects\<close>, with interruptions
  and early answers that do not last for ever. The runs of \<open>socket_latency.cpp\<close> take, too, the calls that create and
  connect sockets, a record \<open>network\<close> in which a new socket is a new descriptor
  (\<open>owns_descriptors\<close>), and the server's thread as its creator uses it, a record \<open>server_thread\<close>
  in which joining makes a thread not joinable (\<open>joins\<close>); what that thread does is
  \<open>tcp_server_thread\<close> and \<open>udp_server\<close>. Each has a concrete instance in the witnesses. What the
  compiler and the build define is a parameter of \<open>Lls_Info\<close>.

  \<^bold>\<open>Concurrency.\<close> A turn of a program is one call of the object's or a handle's operation; that
  the calls of different threads may overlap is the subject of \<open>Disruptor_Concurrent\<close>. There an
  acquire load returns any value the cursor has had since the thread's last load of it, and
  release and acquire give the visibility of the slots; reordering beyond that is not modelled.

  \<^bold>\<open>Termination and bounds.\<close> Loops that depend on the kernel are partial functions into options; that
  they return is part of each theorem. Loops over threads take a schedule; a schedule that is too
  short gives \<open>Still_running\<close>, and \<open>fair_round\<close>s, one turn for each thread, are shown to be enough:
  each makes progress, so that no more are needed than there are publications and receptions,
  \<open>n + 1\<close> times the events for \<open>n\<close> consumers and \<open>2 n + 1\<close> times for a producer that waits.

  \<^bold>\<open>Not modelled.\<close> The tests; the Java side of the comparison, scripts and build files; pinning,
  naming and starting threads, reading the CPU and environment, and printing of measurements;
  percentiles and rates in floating point; the resource usage and the clock's overhead in
  \<open>socket_latency.cpp\<close>; callbacks that throw.
\<close>

end
